(* ===== verification/Prelude.thy ===== *)
theory Prelude
  imports Main "HOL-Library.Word"
begin

text \<open>
  Shared vocabulary of the development: the result type of kernel code, the combinators that
  sequence it, the identifiers of locks and wait channels, and generic lemmas on lists, maps and
  words that the component theories use.

  A kernel routine is a function from the kernel state to \<open>kres\<close>: it returns a value and a new
  state, it panics with the message of the C source, or it blocks (it went to sleep, or it spins on
  a lock that another processor holds) and leaves the state in which the scheduler takes over.
\<close>

named_theorems kdefs \<open>definitions of the sequencing combinators\<close>
named_theorems lockdefs \<open>definitions of the spin-lock layer\<close>
named_theorems inv_intros \<open>preservation lemmas of the component invariants\<close>

section \<open>Kernel results and sequencing\<close>

datatype ('a, 's) kres = Ret 'a 's | Panic string | Block 's

type_synonym ('s, 'a) kop = "'s \<Rightarrow> ('a, 's) kres"

definition kret :: "'a \<Rightarrow> ('s, 'a) kop" where
  [kdefs]: "kret a s = Ret a s"

definition kbind :: "('s, 'a) kop \<Rightarrow> ('a \<Rightarrow> ('s, 'b) kop) \<Rightarrow> ('s, 'b) kop" where
  [kdefs]: "kbind m f s =
     (case m s of Ret a t \<Rightarrow> f a t | Panic e \<Rightarrow> Panic e | Block t \<Rightarrow> Block t)"

definition kseq :: "('s, 'a) kop \<Rightarrow> ('s, 'b) kop \<Rightarrow> ('s, 'b) kop" where
  [kdefs]: "kseq m n = kbind m (\<lambda>_. n)"

definition kget :: "('s \<Rightarrow> 'a) \<Rightarrow> ('s, 'a) kop" where
  [kdefs]: "kget f s = Ret (f s) s"

definition kmod :: "('s \<Rightarrow> 's) \<Rightarrow> ('s, unit) kop" where
  [kdefs]: "kmod f s = Ret () (f s)"

definition kpanic :: "string \<Rightarrow> ('s, 'a) kop" where
  [kdefs]: "kpanic e s = Panic e"

definition kwhen :: "bool \<Rightarrow> ('s, unit) kop \<Rightarrow> ('s, unit) kop" where
  [kdefs]: "kwhen b m = (if b then m else kret ())"

fun kfor :: "('i \<Rightarrow> ('s, unit) kop) \<Rightarrow> 'i list \<Rightarrow> ('s, unit) kop" where
  "kfor body [] = kret ()"
| "kfor body (i # is) = kseq (body i) (kfor body is)"

text \<open>Inversion of a run that returned: each part of a sequence returned.\<close>

lemma kbind_Ret_iff: "kbind m f s = Ret b t \<longleftrightarrow> (\<exists>a u. m s = Ret a u \<and> f a u = Ret b t)"
  by (simp add: kbind_def split: kres.split)

lemma kseq_Ret_iff: "kseq m n s = Ret b t \<longleftrightarrow> (\<exists>a u. m s = Ret a u \<and> n u = Ret b t)"
  by (simp add: kseq_def kbind_Ret_iff)

lemma kget_Ret_iff [simp]: "kget f s = Ret a t \<longleftrightarrow> a = f s \<and> t = s"
  by (auto simp: kget_def)

lemma kmod_Ret_iff [simp]: "kmod f s = Ret a t \<longleftrightarrow> t = f s"
  by (auto simp: kmod_def)

lemma kret_Ret_iff [simp]: "kret x s = Ret a t \<longleftrightarrow> a = x \<and> t = s"
  by (auto simp: kret_def)

lemma kpanic_Ret [simp]: "kpanic e s \<noteq> Ret a t"
  by (simp add: kpanic_def)

lemma kwhen_Ret_iff: "kwhen b m s = Ret a t \<longleftrightarrow> (if b then m s = Ret a t else t = s)"
  by (simp add: kwhen_def)

lemmas kret_inv = kbind_Ret_iff kseq_Ret_iff kwhen_Ret_iff

text \<open>Running forward: a part that returns hands its value and state to the rest.\<close>

lemma kbind_Ret: "m s = Ret a u \<Longrightarrow> kbind m f s = f a u"
  by (simp add: kbind_def)

lemma kseq_Ret: "m s = Ret a u \<Longrightarrow> kseq m n s = n u"
  by (simp add: kseq_def kbind_def)

lemma kbind_stop: "m s = Block t \<Longrightarrow> kbind m f s = Block t" "m s = Panic e \<Longrightarrow> kbind m f s = Panic e"
  by (simp_all add: kbind_def)

lemma kseq_stop: "m s = Block t \<Longrightarrow> kseq m n s = Block t" "m s = Panic e \<Longrightarrow> kseq m n s = Panic e"
  by (simp_all add: kseq_def kbind_def)

lemma kbind_kget [simp]: "kbind (kget g) f s = f (g s) s"
  by (simp add: kbind_def kget_def)

lemma kbind_kret [simp]: "kbind (kret a) f s = f a s"
  by (simp add: kbind_def kret_def)

lemma kseq_kmod [simp]: "kseq (kmod g) n s = n (g s)"
  by (simp add: kseq_def kbind_def kmod_def)

lemma kseq_kret [simp]: "kseq (kret a) n s = n s"
  by (simp add: kseq_def kbind_def kret_def)

text \<open>An invariant kept by the body of a loop is kept by the loop.\<close>

lemma kfor_inv:
  assumes "\<And>i s a t. i \<in> set is \<Longrightarrow> P s \<Longrightarrow> body i s = Ret a t \<Longrightarrow> P t"
    and "P s" and "kfor body is s = Ret a t"
  shows "P t"
  using assms
proof (induction "is" arbitrary: s)
  case Nil
  then show ?case by simp
next
  case (Cons i "is")
  from Cons.prems(3) obtain b u where "body i s = Ret b u" and rest: "kfor body is u = Ret a t"
    by (auto simp: kseq_Ret_iff)
  with Cons.prems(1,2) have "P u" by auto
  with Cons.IH Cons.prems(1) rest show ?case by auto
qed

lemma kfor_append: "kfor body (xs @ ys) = kseq (kfor body xs) (kfor body ys)"
  by (induction xs) (auto simp: fun_eq_iff kdefs split: kres.split)

text \<open>Total correctness of a counting loop: each round returns and establishes the condition of the next.\<close>

lemma kfor_upto:
  assumes "\<And>i s. i < n \<Longrightarrow> P i s \<Longrightarrow> \<exists>t. body i s = Ret () t \<and> P (Suc i) t" and "P 0 s"
  shows "\<exists>t. kfor body [0..<n] s = Ret () t \<and> P n t"
  using assms(1)
proof (induction n)
  case 0
  then show ?case using assms(2) by (simp add: kret_def)
next
  case (Suc n)
  then obtain t where t: "kfor body [0..<n] s = Ret () t" "P n t" by fastforce
  obtain u where u: "body n t = Ret () u" "P (Suc n) u" using Suc.prems [of n t] t(2) by auto
  have "kfor body [0..<Suc n] s = kseq (kfor body [0..<n]) (kfor body [n]) s"
    by (simp add: kfor_append [symmetric] del: kfor.simps)
  also have "\<dots> = Ret () u" using t(1) u(1) by (simp add: kseq_def kbind_def kret_def)
  finally show ?case using u(2) by blast
qed

text \<open>
  Three partial operations of C: a null pointer dereference and a division by zero raise a
  processor exception, which \<open>trap()\<close> answers with \<open>panic("trap")\<close> when it happens in the kernel.
  Division of signed integers truncates towards zero.
\<close>

definition kderef :: "'a option \<Rightarrow> ('s, 'a) kop" where
  [kdefs]: "kderef p = (case p of None \<Rightarrow> kpanic ''trap'' | Some a \<Rightarrow> kret a)"

lemma kderef_simps [simp]: "kderef (Some a) = kret a" "kderef None = kpanic ''trap''"
  by (simp_all add: kderef_def)

definition cquot :: "int \<Rightarrow> int \<Rightarrow> int" where
  "cquot a b = (if (a < 0) = (b < 0) then \<bar>a\<bar> div \<bar>b\<bar> else - (\<bar>a\<bar> div \<bar>b\<bar>))"

definition kdiv :: "int \<Rightarrow> int \<Rightarrow> ('s, int) kop" where
  [kdefs]: "kdiv a b = (if b = 0 then kpanic ''trap'' else kret (cquot a b))"

lemma cquot_nonneg: "0 \<le> a \<Longrightarrow> 0 \<le> b \<Longrightarrow> cquot a b = a div b"
  by (simp add: cquot_def)

text \<open>A 32-bit signed addition as the machine does it: two's complement wrap-around.\<close>

definition wrap32 :: "int \<Rightarrow> int" where
  "wrap32 x = (x + 2 ^ 31) mod 2 ^ 32 - 2 ^ 31"

lemma wrap32_id: "- (2 ^ 31) \<le> x \<Longrightarrow> x < 2 ^ 31 \<Longrightarrow> wrap32 x = x"
  by (simp add: wrap32_def)

section \<open>Identifiers of kernel objects\<close>

text \<open>
  Spin locks, sleep locks and wait channels are addresses in C; here they are the names of the
  objects at those addresses (\<open>&ptable.lock\<close> is \<open>LPtable\<close>, the address of the \<open>i\<close>-th process is
  \<open>CProc i\<close>). Distinct objects have distinct addresses, distinct constructors are distinct values.
\<close>

datatype sleepid = SBuf nat | SInode nat

datatype lockid = LPtable | LBcache | LSleep sleepid | LIcache | LFtable | LLog | LKmem
  | LPipe nat | LCons | LTicks | LIde

datatype chan = CNone | CProc nat | CLog | CSleep sleepid | CPipeR nat | CPipeW nat
  | CBuf nat | CTicks | CInput

section \<open>Lists indexed by a table position\<close>

text \<open>
  The loops \<open>for(p = tab; p < &tab[N]; p++) if(cond) goto found\<close> of the kernel search a table for
  the first entry with a property.
\<close>

primrec first_index :: "('a \<Rightarrow> bool) \<Rightarrow> 'a list \<Rightarrow> nat option" where
  "first_index P [] = None"
| "first_index P (x # xs) = (if P x then Some 0 else map_option Suc (first_index P xs))"

lemma first_index_Some:
  "first_index P xs = Some i \<longleftrightarrow> i < length xs \<and> P (xs ! i) \<and> (\<forall>j < i. \<not> P (xs ! j))"
proof (induction xs arbitrary: i)
  case Nil
  then show ?case by simp
next
  case (Cons x xs)
  show ?case
  proof (cases i)
    case 0
    then show ?thesis by simp
  next
    case (Suc k)
    then show ?thesis
      by (auto simp: Cons.IH less_Suc_eq_0_disj)
  qed
qed

lemma first_index_None: "first_index P xs = None \<longleftrightarrow> (\<forall>x \<in> set xs. \<not> P x)"
  by (induction xs) auto

lemma first_index_less [dest]: "first_index P xs = Some i \<Longrightarrow> i < length xs"
  by (simp add: first_index_Some)

lemma first_index_holds [dest]: "first_index P xs = Some i \<Longrightarrow> P (xs ! i)"
  by (simp add: first_index_Some)

definition upd :: "nat \<Rightarrow> ('a \<Rightarrow> 'a) \<Rightarrow> 'a list \<Rightarrow> 'a list" where
  "upd i f xs = xs[i := f (xs ! i)]"

lemma length_upd [simp]: "length (upd i f xs) = length xs"
  by (simp add: upd_def)

lemma nth_upd: "j < length xs \<Longrightarrow> upd i f xs ! j = (if i = j then f (xs ! j) else xs ! j)"
  by (auto simp: upd_def nth_list_update)

lemma nth_upd_eq [simp]: "i < length xs \<Longrightarrow> upd i f xs ! i = f (xs ! i)"
  by (simp add: nth_upd)

lemma nth_upd_neq [simp]: "i \<noteq> j \<Longrightarrow> upd i f xs ! j = xs ! j"
  by (simp add: upd_def)

lemma upd_beyond [simp]: "\<not> i < length xs \<Longrightarrow> upd i f xs = xs"
  by (simp add: upd_def list_update_beyond)

lemma filter_upd:
  assumes "\<not> P (xs ! i)" and "\<not> P (f (xs ! i))"
  shows "filter P (upd i f xs) = filter P xs"
proof (cases "i < length xs")
  case True
  then have "filter P xs = filter P (take i xs @ xs ! i # drop (Suc i) xs)"
    using id_take_nth_drop by metis
  with True assms show ?thesis by (simp add: upd_def upd_conv_take_nth_drop)
qed simp

lemma set_upd_subset: "q \<in> set (upd i f xs) \<Longrightarrow> q \<in> set xs \<or> i < length xs \<and> q = f (xs ! i)"
proof (cases "i < length xs")
  case True
  then show "q \<in> set (upd i f xs) \<Longrightarrow> ?thesis"
    using set_update_subset_insert [of xs i "f (xs ! i)"] by (auto simp: upd_def)
qed simp

lemma upd_upd [simp]: "upd i f (upd i g xs) = upd i (f \<circ> g) xs"
proof (cases "i < length xs")
  case True
  then show ?thesis by (simp add: upd_def)
qed simp

lemma upd_cong: "(\<And>x. f x = g x) \<Longrightarrow> upd i f xs = upd i g xs"
  by (simp add: upd_def)

end
