(* ===== verification/Spinlock.thy ===== *)
theory Spinlock
  imports Prelude
begin

text \<open>
  \<^verbatim>\<open>spinlock.c\<close> and the processor lookup of \<^verbatim>\<open>proc.c\<close>. Two models share the lock record.

  The sequential model is what every other component runs on: the part of the kernel state that
  belongs to the running processor (\<open>kst\<close>: interrupt flag, \<open>ncli\<close>, \<open>intena\<close>, the table of APIC
  identifiers) and the spin locks. \<open>acquire\<close> on a lock that another processor holds does not
  return in a sequential run, so it blocks.

  The concurrent model lets any number of processors run the instructions of \<open>acquire\<close> and
  \<open>release\<close> on one lock in any interleaving; mutual exclusion is proved for it.

  The debugging fields of the C structure (\<open>name\<close>, \<open>pcs\<close>) are left out.
\<close>

section \<open>State of the running processor\<close>

record spinlock =
  locked :: bool
  lcpu :: "nat option"

definition unlocked :: spinlock where
  "unlocked = \<lparr>locked = False, lcpu = None\<rparr>"

definition held_by :: "nat \<Rightarrow> spinlock" where
  "held_by c = \<lparr>locked = True, lcpu = Some c\<rparr>"

record kst =
  ifl :: bool
  ncli :: int
  intena :: bool
  apicids :: "nat list"
  lapicid :: nat
  spin :: "lockid \<Rightarrow> spinlock"

definition initlock :: "lockid \<Rightarrow> ('z kst_scheme, unit) kop" where
  "initlock lk = kmod (\<lambda>s. s\<lparr>spin := (spin s)(lk := \<lparr>locked = False, lcpu = None\<rparr>)\<rparr>)"

definition mycpu :: "('z kst_scheme, nat) kop" where
  "mycpu = kbind (kget ifl) (\<lambda>i.
     if i then kpanic ''mycpu called with interrupts enabled\<newline>''
     else kbind (kget (\<lambda>s. first_index (\<lambda>a. a = lapicid s) (apicids s))) (\<lambda>c.
       case c of Some i \<Rightarrow> kret i | None \<Rightarrow> kpanic ''unknown apicid\<newline>''))"

definition pushcli :: "('z kst_scheme, unit) kop" where
  "pushcli =
     kbind (kget ifl) (\<lambda>eflags.
     kseq (kmod (\<lambda>s. s\<lparr>ifl := False\<rparr>)) (
     kseq mycpu (
     kseq (kmod (\<lambda>s. if ncli s = 0 then s\<lparr>intena := eflags\<rparr> else s))
       (kmod (\<lambda>s. s\<lparr>ncli := ncli s + 1\<rparr>)))))"

definition popcli :: "('z kst_scheme, unit) kop" where
  "popcli =
     kbind (kget ifl) (\<lambda>i.
     if i then kpanic ''popcli - interruptible''
     else
       kseq mycpu (
       kseq (kmod (\<lambda>s. s\<lparr>ncli := ncli s - 1\<rparr>)) (
       kbind (kget ncli) (\<lambda>n.
       if n < 0 then kpanic ''popcli''
       else kmod (\<lambda>s. if ncli s = 0 \<and> intena s then s\<lparr>ifl := True\<rparr> else s)))))"

definition holding :: "lockid \<Rightarrow> ('z kst_scheme, bool) kop" where
  "holding lk =
     kseq pushcli (
     kbind mycpu (\<lambda>c.
     kbind (kget (\<lambda>s. locked (spin s lk) \<and> lcpu (spin s lk) = Some c)) (\<lambda>r.
     kseq popcli (kret r))))"

definition spin_xchg :: "lockid \<Rightarrow> ('z kst_scheme, unit) kop" where
  "spin_xchg lk s =
     (if locked (spin s lk) then Block s
      else Ret () (s\<lparr>spin := (spin s)(lk := (spin s lk)\<lparr>locked := True\<rparr>)\<rparr>))"

definition acquire :: "lockid \<Rightarrow> ('z kst_scheme, unit) kop" where
  "acquire lk =
     kseq pushcli (
     kbind (holding lk) (\<lambda>h.
     if h then kpanic ''acquire''
     else
       kseq (spin_xchg lk) (
       kbind mycpu (\<lambda>c.
       kmod (\<lambda>s. s\<lparr>spin := (spin s)(lk := (spin s lk)\<lparr>lcpu := Some c\<rparr>)\<rparr>)))))"

definition release :: "lockid \<Rightarrow> ('z kst_scheme, unit) kop" where
  "release lk =
     kbind (holding lk) (\<lambda>h.
     if \<not> h then kpanic ''release''
     else
       kseq (kmod (\<lambda>s. s\<lparr>spin := (spin s)(lk := (spin s lk)\<lparr>lcpu := None\<rparr>)\<rparr>)) (
       kseq (kmod (\<lambda>s. s\<lparr>spin := (spin s)(lk := (spin s lk)\<lparr>locked := False\<rparr>)\<rparr>))
       popcli))"

lemmas spinlock_defs [lockdefs] =
  mycpu_def pushcli_def popcli_def holding_def spin_xchg_def acquire_def release_def

section \<open>Behaviour of the sequential operations\<close>

text \<open>The index of the running processor, and a state in which kernel code can take locks.\<close>

definition cpu_of :: "'z kst_scheme \<Rightarrow> nat option" where
  "cpu_of s = first_index (\<lambda>a. a = lapicid s) (apicids s)"

definition kready :: "'z kst_scheme \<Rightarrow> bool" where
  "kready s \<longleftrightarrow> cpu_of s \<noteq> None \<and> 0 \<le> ncli s \<and> (0 < ncli s \<longrightarrow> \<not> ifl s)"

text \<open>What taking and dropping a lock does to the processor and to the lock.\<close>

definition lock_st :: "lockid \<Rightarrow> 'z kst_scheme \<Rightarrow> 'z kst_scheme" where
  "lock_st lk s = s\<lparr>ifl := False, ncli := ncli s + 1,
     intena := (if ncli s = 0 then ifl s else intena s),
     spin := (spin s)(lk := held_by (the (cpu_of s)))\<rparr>"

definition unlock_st :: "lockid \<Rightarrow> 'z kst_scheme \<Rightarrow> 'z kst_scheme" where
  "unlock_st lk s = s\<lparr>ifl := (ncli s = 1 \<and> intena s), ncli := ncli s - 1,
     spin := (spin s)(lk := unlocked)\<rparr>"

definition holds :: "lockid \<Rightarrow> 'z kst_scheme \<Rightarrow> bool" where
  "holds lk s \<longleftrightarrow> cpu_of s \<noteq> None \<and> spin s lk = held_by (the (cpu_of s)) \<and> 0 < ncli s \<and> \<not> ifl s"

lemma acquire_Ret:
  assumes "kready s" and "spin s lk = unlocked"
  shows "acquire lk s = Ret () (lock_st lk s)"
  using assms
  by (auto simp: spinlock_defs kdefs kready_def cpu_of_def lock_st_def unlocked_def held_by_def)

lemma release_Ret:
  assumes "holds lk s"
  shows "release lk s = Ret () (unlock_st lk s)"
  using assms
  by (auto simp: spinlock_defs kdefs holds_def cpu_of_def unlock_st_def unlocked_def held_by_def)

lemma cpu_of_lock [simp]: "cpu_of (lock_st lk s) = cpu_of s" "cpu_of (unlock_st lk s) = cpu_of s"
  by (simp_all add: lock_st_def unlock_st_def cpu_of_def)

lemma holds_lock_st: "kready s \<Longrightarrow> holds lk (lock_st lk s)"
  by (auto simp: kready_def holds_def lock_st_def cpu_of_def)

lemma kready_lock_st [simp]: "kready s \<Longrightarrow> kready (lock_st lk s)"
  by (auto simp: kready_def lock_st_def cpu_of_def)

lemma kready_unlock_st: "holds lk s \<Longrightarrow> kready (unlock_st lk s)"
  by (auto simp: kready_def holds_def unlock_st_def cpu_of_def)

text \<open>
  A run of a lock operation that returns changes only the processor part of the state. Components
  built on this theory read their own fields through \<open>kframe\<close>.
\<close>

definition kframe :: "'z kst_scheme \<Rightarrow> 'z kst_scheme \<Rightarrow> bool" where
  "kframe s t \<longleftrightarrow> t = s\<lparr>ifl := ifl t, ncli := ncli t, intena := intena t, spin := spin t\<rparr>"

lemma kframe_refl [simp]: "kframe s s"
  by (cases s) (simp add: kframe_def)

lemma kframe_trans: "kframe s t \<Longrightarrow> kframe t u \<Longrightarrow> kframe s u"
  by (cases s; cases t; cases u) (simp add: kframe_def)

lemma kframe_lock_st [simp]: "kframe s (lock_st lk s)" "kframe s (unlock_st lk s)"
  by (simp_all add: kframe_def lock_st_def unlock_st_def)

lemma kframe_cpu_of: "kframe s t \<Longrightarrow> cpu_of t = cpu_of s"
  by (cases s; cases t) (simp add: kframe_def cpu_of_def)

lemma kframe_pushcli: "pushcli s = Ret a t \<Longrightarrow> kframe s t"
  by (cases s) (auto simp: pushcli_def mycpu_def kdefs kframe_def split: if_splits option.splits)

lemma kframe_popcli: "popcli s = Ret a t \<Longrightarrow> kframe s t"
  by (cases s) (auto simp: popcli_def mycpu_def kdefs kframe_def split: if_splits option.splits)

lemma mycpu_same: "mycpu s = Ret c t \<Longrightarrow> t = s"
  by (auto simp: mycpu_def kdefs split: if_splits option.splits)

lemma kframe_holding: "holding lk s = Ret b t \<Longrightarrow> kframe s t"
  unfolding holding_def
  by (auto simp: kret_inv dest!: kframe_pushcli kframe_popcli mycpu_same intro: kframe_trans)

lemma kframe_spin: "kframe s (s\<lparr>spin := sp\<rparr>)"
  by (cases s) (simp add: kframe_def)

lemma kframe_spin_upd: "kframe s t \<Longrightarrow> kframe s (t\<lparr>spin := sp\<rparr>)"
  using kframe_trans kframe_spin by blast

lemma kframe_acquire: "acquire lk s = Ret a t \<Longrightarrow> kframe s t"
  unfolding acquire_def
  by (auto simp: kret_inv spin_xchg_def split: if_splits dest!: kframe_pushcli kframe_holding mycpu_same
      intro!: kframe_spin_upd intro: kframe_trans)

lemma kframe_release: "release lk s = Ret a t \<Longrightarrow> kframe s t"
  unfolding release_def
  by (auto simp: kret_inv split: if_splits dest!: kframe_holding kframe_popcli
      intro: kframe_spin_upd kframe_trans)

lemma kframe_sel:
  assumes "kframe s t" and "\<And>u a b c d. f (u\<lparr>ifl := a, ncli := b, intena := c, spin := d\<rparr>) = f u"
  shows "f t = f s"
  using assms unfolding kframe_def by metis

lemmas kframe_lock_ops = kframe_acquire kframe_release kframe_holding kframe_pushcli kframe_popcli

text \<open>
  Reading a per-processor field between \<open>pushcli\<close> and \<open>popcli\<close> leaves a trace in \<open>intena\<close> only.
\<close>

definition peek_st :: "'z kst_scheme \<Rightarrow> 'z kst_scheme" where
  "peek_st s = s\<lparr>intena := (if ncli s = 0 then ifl s else intena s)\<rparr>"

lemma peek_st_locked [simp]: "0 < ncli s \<Longrightarrow> peek_st s = s"
  by (simp add: peek_st_def)

lemma kready_peek [simp]: "kready (peek_st s) = kready s"
  by (simp add: kready_def peek_st_def cpu_of_def)

lemma peek_st_sel [simp]: "spin (peek_st s) = spin s" "ncli (peek_st s) = ncli s" "ifl (peek_st s) = ifl s"
    "cpu_of (peek_st s) = cpu_of s"
  by (simp_all add: peek_st_def cpu_of_def)

lemma holding_Ret: "kready s \<Longrightarrow> 0 < ncli s \<Longrightarrow>
    holding lk s = Ret (locked (spin s lk) \<and> lcpu (spin s lk) = cpu_of s) s"
  by (auto simp: lockdefs kdefs kready_def cpu_of_def)

lemma mycpu_Ret: "kready s \<Longrightarrow> \<not> ifl s \<Longrightarrow> mycpu s = Ret (the (cpu_of s)) s"
  by (auto simp: mycpu_def kdefs kready_def cpu_of_def)

lemma holds_kready: "holds lk s \<Longrightarrow> kready s"
  by (auto simp: holds_def kready_def)

lemma acquire_then:
  "kready s \<Longrightarrow> spin s lk = unlocked \<Longrightarrow> kseq (acquire lk) n s = n (lock_st lk s)"
  by (simp add: kdefs acquire_Ret)

lemma release_then: "holds lk s \<Longrightarrow> kseq (release lk) n s = n (unlock_st lk s)"
  by (simp add: kdefs release_Ret)

lemma holds_cong:
  "spin t lk = spin s lk \<Longrightarrow> cpu_of t = cpu_of s \<Longrightarrow> ncli t = ncli s \<Longrightarrow> ifl t = ifl s \<Longrightarrow> holds lk t = holds lk s"
  by (simp add: holds_def)

lemma holds_lock_other: "lk \<noteq> l2 \<Longrightarrow> kready s \<Longrightarrow> holds lk s \<Longrightarrow> holds lk (lock_st l2 s)"
  by (auto simp: holds_def lock_st_def cpu_of_def)

lemma holds_unlock_other: "lk \<noteq> l2 \<Longrightarrow> 1 < ncli s \<Longrightarrow> holds lk s \<Longrightarrow> holds lk (unlock_st l2 s)"
  by (auto simp: holds_def unlock_st_def cpu_of_def)

lemma lock_unlock_sel [simp]:
  "ncli (lock_st lk s) = ncli s + 1" "ncli (unlock_st lk s) = ncli s - 1"
  "spin (lock_st lk s) = (spin s)(lk := held_by (the (cpu_of s)))" "spin (unlock_st lk s) = (spin s)(lk := unlocked)"
  by (simp_all add: lock_st_def unlock_st_def)

section \<open>Nested interrupt disabling\<close>

text \<open>
  Any sequence of \<open>pushcli\<close> and \<open>popcli\<close> calls, as the nested critical sections of the kernel
  produce them. \<open>balanced d\<close> says that every \<open>popcli\<close> has its \<open>pushcli\<close> when \<open>d\<close> are already open.
\<close>

datatype cliop = Push | Pop

primrec run_cli :: "cliop list \<Rightarrow> ('z kst_scheme, unit) kop" where
  "run_cli [] = kret ()"
| "run_cli (x # xs) = kseq (case x of Push \<Rightarrow> pushcli | Pop \<Rightarrow> popcli) (run_cli xs)"

fun balanced :: "nat \<Rightarrow> cliop list \<Rightarrow> bool" where
  "balanced d [] = (d = 0)"
| "balanced d (Push # xs) = balanced (Suc d) xs"
| "balanced d (Pop # xs) = (0 < d \<and> balanced (d - 1) xs)"

definition cli_depth :: "'z kst_scheme \<Rightarrow> nat \<Rightarrow> 'z kst_scheme \<Rightarrow> bool" where
  "cli_depth s d t \<longleftrightarrow> cpu_of t \<noteq> None \<and> ncli t = ncli s + int d \<and> spin t = spin s \<and>
     (if ncli t = 0 then ifl t = ifl s
      else \<not> ifl t \<and> (ncli s = 0 \<longrightarrow> intena t = ifl s))"

lemma pushcli_Ret: "cpu_of t \<noteq> None \<Longrightarrow> pushcli t =
    Ret () (t\<lparr>ifl := False, intena := (if ncli t = 0 then ifl t else intena t), ncli := ncli t + 1\<rparr>)"
  by (auto simp: pushcli_def mycpu_def kdefs cpu_of_def)

lemma popcli_Ret: "cpu_of t \<noteq> None \<Longrightarrow> \<not> ifl t \<Longrightarrow> 0 < ncli t \<Longrightarrow> popcli t =
    Ret () (t\<lparr>ifl := (ncli t = 1 \<and> intena t), ncli := ncli t - 1\<rparr>)"
  by (auto simp: popcli_def mycpu_def kdefs cpu_of_def)

lemma cpu_of_cli [simp]: "cpu_of (t\<lparr>ifl := i, intena := e, ncli := n\<rparr>) = cpu_of t"
    "cpu_of (t\<lparr>ifl := i, ncli := n\<rparr>) = cpu_of t"
  by (simp_all add: cpu_of_def)

lemma pushcli_depth:
  assumes "0 \<le> ncli s" and "cli_depth s d t"
  shows "\<exists>u. pushcli t = Ret () u \<and> cli_depth s (Suc d) u"
proof -
  from assms(2) have "cpu_of t \<noteq> None" by (simp add: cli_depth_def)
  with assms show ?thesis
    by (simp add: pushcli_Ret) (simp add: cli_depth_def split: if_splits)
qed

lemma popcli_depth:
  assumes "kready s" and "cli_depth s d t" and "0 < d"
  shows "\<exists>u. popcli t = Ret () u \<and> cli_depth s (d - 1) u"
proof -
  from assms have "cpu_of t \<noteq> None" "\<not> ifl t" "0 < ncli t" "0 \<le> ncli s"
    by (simp_all add: cli_depth_def kready_def)
  with assms show ?thesis
    by (simp add: popcli_Ret) (auto simp: cli_depth_def kready_def of_nat_diff split: if_splits)
qed

lemma run_cli_depth:
  assumes "kready s" and "balanced d xs" and "cli_depth s d t"
  shows "\<exists>u. run_cli xs t = Ret () u \<and> cli_depth s 0 u"
  using assms(2,3)
proof (induction d xs arbitrary: t rule: balanced.induct)
  case (1 d)
  then show ?case by (simp add: kret_def)
next
  case (2 d xs)
  from assms(1) have "0 \<le> ncli s" by (simp add: kready_def)
  from pushcli_depth [OF this 2(3)] obtain u
    where "pushcli t = Ret () u" and "cli_depth s (Suc d) u" by blast
  with 2(1) [of u] 2(2) show ?case by (simp add: kseq_Ret)
next
  case (3 d xs)
  then have "0 < d" by simp
  from popcli_depth [OF assms(1) 3(3) this] obtain u
    where "popcli t = Ret () u" and "cli_depth s (d - 1) u" by blast
  with 3(1) [of u] 3(2) show ?case by (simp add: kseq_Ret)
qed

text \<open>C35: matched calls of pushcli and popcli, nested in any way, return (no panic) and leave the
  interrupt flag, the nesting depth and every lock as they were, so interrupts are on again exactly
  when they were on before the outermost call.\<close>

theorem cli_nesting_restores:
  assumes "kready s" and "balanced 0 xs"
  shows "\<exists>t. run_cli xs s = Ret () t \<and> ifl t = ifl s \<and> ncli t = ncli s \<and> spin t = spin s"
proof -
  from assms(1) have "cli_depth s 0 s" by (simp add: kready_def cli_depth_def)
  from run_cli_depth [OF assms this] obtain t where "run_cli xs s = Ret () t" "cli_depth s 0 t"
    by blast
  with assms(1) show ?thesis by (auto simp: cli_depth_def kready_def split: if_splits)
qed

definition kst0 :: kst where
  "kst0 = \<lparr>ifl = True, ncli = 0, intena = False, apicids = [0], lapicid = 0, spin = (\<lambda>_. unlocked)\<rparr>"

theorem cli_nesting_restores_witness:
  "\<exists>t. run_cli [Push, Push, Pop, Push, Pop, Pop] kst0 = Ret () t \<and> ifl t = True \<and> ncli t = 0 \<and>
     spin t = (\<lambda>_. unlocked)"
  using cli_nesting_restores [of kst0 "[Push, Push, Pop, Push, Pop, Pop]"]
  by (simp add: kready_def cpu_of_def kst0_def)

section \<open>Any number of processors\<close>

text \<open>
  One lock and the program counter of each processor in \<open>acquire\<close> and \<open>release\<close>: outside,
  spinning on \<open>xchg\<close>, between the successful \<open>xchg\<close> and the assignment of \<open>lk->cpu\<close>, in the
  critical section, between clearing \<open>lk->cpu\<close> and clearing \<open>lk->locked\<close>, and stopped in
  \<open>panic\<close>. Every step is one access to the lock word or to the owner field.
\<close>

datatype lpc = Outside | Spinning | Acquired | Critical | Releasing | Panicked

record lsys =
  slock :: spinlock
  lpcs :: "nat \<Rightarrow> lpc"

definition holding_on :: "lsys \<Rightarrow> nat \<Rightarrow> bool" where
  "holding_on s c \<longleftrightarrow> locked (slock s) \<and> lcpu (slock s) = Some c"

inductive lock_step :: "lsys \<Rightarrow> lsys \<Rightarrow> bool" where
  acquire_panic: "lpcs s c = Outside \<Longrightarrow> holding_on s c \<Longrightarrow>
     lock_step s (s\<lparr>lpcs := (lpcs s)(c := Panicked)\<rparr>)"
| acquire_enter: "lpcs s c = Outside \<Longrightarrow> \<not> holding_on s c \<Longrightarrow>
     lock_step s (s\<lparr>lpcs := (lpcs s)(c := Spinning)\<rparr>)"
| xchg_busy: "lpcs s c = Spinning \<Longrightarrow> locked (slock s) \<Longrightarrow> lock_step s s"
| xchg_free: "lpcs s c = Spinning \<Longrightarrow> \<not> locked (slock s) \<Longrightarrow>
     lock_step s (s\<lparr>slock := (slock s)\<lparr>locked := True\<rparr>, lpcs := (lpcs s)(c := Acquired)\<rparr>)"
| set_cpu: "lpcs s c = Acquired \<Longrightarrow>
     lock_step s (s\<lparr>slock := (slock s)\<lparr>lcpu := Some c\<rparr>, lpcs := (lpcs s)(c := Critical)\<rparr>)"
| release_panic: "lpcs s c = Critical \<Longrightarrow> \<not> holding_on s c \<Longrightarrow>
     lock_step s (s\<lparr>lpcs := (lpcs s)(c := Panicked)\<rparr>)"
| clear_cpu: "lpcs s c = Critical \<Longrightarrow> holding_on s c \<Longrightarrow>
     lock_step s (s\<lparr>slock := (slock s)\<lparr>lcpu := None\<rparr>, lpcs := (lpcs s)(c := Releasing)\<rparr>)"
| clear_locked: "lpcs s c = Releasing \<Longrightarrow>
     lock_step s (s\<lparr>slock := (slock s)\<lparr>locked := False\<rparr>, lpcs := (lpcs s)(c := Outside)\<rparr>)"

definition lsys_init :: lsys where
  "lsys_init = \<lparr>slock = unlocked, lpcs = (\<lambda>_. Outside)\<rparr>"

inductive lreach :: "lsys \<Rightarrow> bool" where
  lreach_init: "lreach lsys_init"
| lreach_step: "lreach s \<Longrightarrow> lock_step s t \<Longrightarrow> lreach t"

primrec owns :: "lpc \<Rightarrow> bool" where
  "owns Outside = False"
| "owns Spinning = False"
| "owns Acquired = True"
| "owns Critical = True"
| "owns Releasing = True"
| "owns Panicked = False"

definition lsys_inv :: "nat option \<Rightarrow> lsys \<Rightarrow> bool" where
  "lsys_inv own s \<longleftrightarrow>
     (locked (slock s) \<longleftrightarrow> own \<noteq> None) \<and>
     (\<forall>c. owns (lpcs s c) \<longleftrightarrow> own = Some c) \<and>
     (\<forall>c. lcpu (slock s) = Some c \<longleftrightarrow> lpcs s c = Critical) \<and>
     (\<forall>c. lpcs s c \<noteq> Panicked)"

lemma lsys_inv_init: "lsys_inv None lsys_init"
  by (simp add: lsys_inv_def lsys_init_def unlocked_def)

lemma lsys_inv_owner: "lsys_inv own s \<Longrightarrow> owns (lpcs s c) \<Longrightarrow> own = Some c"
  by (simp add: lsys_inv_def)

lemma lsys_inv_crit: "lsys_inv own s \<Longrightarrow> lpcs s c = Critical \<Longrightarrow> own = Some c"
  by (rule lsys_inv_owner, assumption) simp

lemma lsys_inv_holding: "lsys_inv own s \<Longrightarrow> holding_on s c \<longleftrightarrow> lpcs s c = Critical"
  using lsys_inv_crit [of own s c] unfolding lsys_inv_def holding_on_def by blast

lemma lock_step_inv: "lock_step s t \<Longrightarrow> lsys_inv own s \<Longrightarrow> \<exists>own'. lsys_inv own' t"
proof (induction rule: lock_step.induct)
  case (xchg_free s c)
  then have "lsys_inv (Some c) (s\<lparr>slock := (slock s)\<lparr>locked := True\<rparr>, lpcs := (lpcs s)(c := Acquired)\<rparr>)"
    by (simp add: lsys_inv_def)
  then show ?case ..
next
  case (clear_locked s c)
  then have own: "own = Some c" by (simp add: lsys_inv_owner)
  with clear_locked have
    "lsys_inv None (s\<lparr>slock := (slock s)\<lparr>locked := False\<rparr>, lpcs := (lpcs s)(c := Outside)\<rparr>)"
    by (simp add: lsys_inv_def)
  then show ?case ..
next
  case (set_cpu s c)
  then have own: "own = Some c" by (simp add: lsys_inv_owner)
  with set_cpu have "lpcs s d \<noteq> Critical" for d using lsys_inv_crit [of own s d] by auto
  with set_cpu own have
    "lsys_inv own (s\<lparr>slock := (slock s)\<lparr>lcpu := Some c\<rparr>, lpcs := (lpcs s)(c := Critical)\<rparr>)"
    by (simp add: lsys_inv_def)
  then show ?case ..
next
  case (clear_cpu s c)
  then have own: "own = Some c" by (simp add: lsys_inv_crit)
  with clear_cpu have "d \<noteq> c \<Longrightarrow> lpcs s d \<noteq> Critical" for d using lsys_inv_crit [of own s d] by auto
  with clear_cpu own have
    "lsys_inv own (s\<lparr>slock := (slock s)\<lparr>lcpu := None\<rparr>, lpcs := (lpcs s)(c := Releasing)\<rparr>)"
    by (simp add: lsys_inv_def)
  then show ?case ..
next
  case (acquire_enter s c)
  then have "own \<noteq> Some c" by (metis lsys_inv_def owns.simps(1))
  with acquire_enter have "lsys_inv own (s\<lparr>lpcs := (lpcs s)(c := Spinning)\<rparr>)"
    by (simp add: lsys_inv_def)
  then show ?case ..
qed (auto simp: lsys_inv_holding)

lemma lreach_inv: "lreach s \<Longrightarrow> \<exists>own. lsys_inv own s"
  by (induction rule: lreach.induct) (auto intro: lsys_inv_init dest: lock_step_inv)

text \<open>C9: in every reachable state of any number of processors running acquire and release on one
  lock, at most one is in its critical section, holding() is true on exactly that processor, and
  neither of the two panics of the lock code is ever reached.\<close>

theorem spinlock_mutual_exclusion:
  assumes "lreach s"
  shows "(lpcs s c = Critical \<and> lpcs s d = Critical \<longrightarrow> c = d) \<and>
    (holding_on s c \<longleftrightarrow> lpcs s c = Critical) \<and> lpcs s c \<noteq> Panicked"
proof -
  from lreach_inv [OF assms] obtain own where inv: "lsys_inv own s" ..
  then have "lpcs s c = Critical \<and> lpcs s d = Critical \<longrightarrow> c = d"
    using lsys_inv_crit [of own s c] lsys_inv_crit [of own s d] by auto
  moreover from inv have "lpcs s c \<noteq> Panicked" by (simp add: lsys_inv_def)
  ultimately show ?thesis using lsys_inv_holding [OF inv] by blast
qed

text \<open>A run in which processor 3 takes the lock.\<close>

definition lsys_crit :: "nat \<Rightarrow> lsys" where
  "lsys_crit c = \<lparr>slock = held_by c, lpcs = (\<lambda>_. Outside)(c := Critical)\<rparr>"

lemma lreach_crit: "lreach (lsys_crit c)"
proof -
  let ?s1 = "lsys_init\<lparr>lpcs := (lpcs lsys_init)(c := Spinning)\<rparr>"
  let ?s2 = "?s1\<lparr>slock := (slock ?s1)\<lparr>locked := True\<rparr>, lpcs := (lpcs ?s1)(c := Acquired)\<rparr>"
  have "lreach ?s1"
    by (rule lreach_step [OF lreach_init acquire_enter])
      (simp_all add: lsys_init_def holding_on_def unlocked_def)
  then have "lreach ?s2"
    by (rule lreach_step [OF _ xchg_free]) (simp_all add: lsys_init_def unlocked_def)
  then have "lreach (?s2\<lparr>slock := (slock ?s2)\<lparr>lcpu := Some c\<rparr>, lpcs := (lpcs ?s2)(c := Critical)\<rparr>)"
    by (rule lreach_step [OF _ set_cpu]) simp
  then show ?thesis by (simp add: lsys_crit_def lsys_init_def unlocked_def held_by_def)
qed

theorem spinlock_mutual_exclusion_witness:
  "lpcs (lsys_crit 3) 3 = Critical \<and> holding_on (lsys_crit 3) 3 \<and> \<not> holding_on (lsys_crit 3) 1"
  using spinlock_mutual_exclusion [OF lreach_crit [of 3], of 3 3]
    spinlock_mutual_exclusion [OF lreach_crit [of 3], of 1 3]
  by (auto simp: lsys_crit_def)

end
