(* ===== verification/Mem.thy ===== *)
theory Mem
  imports Prelude
begin

text \<open>
  Byte-addressed memory and the routines of \<^verbatim>\<open>string.c\<close> that work on it, together with their user
  space twins of \<^verbatim>\<open>ulib.c\<close>. Addresses are 32-bit words and wrap around; \<open>in_range a n x\<close> says that
  \<open>x\<close> is one of the \<open>n\<close> addresses starting at \<open>a\<close>. The string instructions \<open>stosb\<close> and \<open>stosl\<close> of
  \<^verbatim>\<open>x86.h\<close> are the loops the processor runs for them, with the direction flag clear.

  The lemmas show that each routine has the effect its interface promises on every byte of memory:
  \<open>memset\<close> on both of its paths, \<open>memmove\<close> for overlapping ranges in either direction, the bounded
  string copies with their padding or terminator.
\<close>

unbundle bit_operations_syntax

type_synonym addr = "32 word"
type_synonym byte = "8 word"
type_synonym memory = "addr \<Rightarrow> byte"

definition in_range :: "addr \<Rightarrow> nat \<Rightarrow> addr \<Rightarrow> bool" where
  "in_range a n x \<longleftrightarrow> unat (x - a) < n"

section \<open>Words in memory\<close>

definition load32 :: "memory \<Rightarrow> addr \<Rightarrow> 32 word" where
  "load32 m a = ucast (m a) OR push_bit 8 (ucast (m (a + 1))) OR
     push_bit 16 (ucast (m (a + 2))) OR push_bit 24 (ucast (m (a + 3)))"

definition store32 :: "addr \<Rightarrow> 32 word \<Rightarrow> memory \<Rightarrow> memory" where
  "store32 a v m = m(a := ucast v, a + 1 := ucast (drop_bit 8 v),
     a + 2 := ucast (drop_bit 16 v), a + 3 := ucast (drop_bit 24 v))"

section \<open>Setting memory\<close>

primrec stosb :: "addr \<Rightarrow> byte \<Rightarrow> nat \<Rightarrow> memory \<Rightarrow> memory" where
  "stosb a d 0 m = m"
| "stosb a d (Suc n) m = stosb (a + 1) d n (m(a := d))"

primrec stosl :: "addr \<Rightarrow> 32 word \<Rightarrow> nat \<Rightarrow> memory \<Rightarrow> memory" where
  "stosl a d 0 m = m"
| "stosl a d (Suc n) m = stosl (a + 4) d n (store32 a d m)"

definition memset :: "addr \<Rightarrow> 32 word \<Rightarrow> 32 word \<Rightarrow> memory \<Rightarrow> memory" where
  "memset dst c n m =
     (if dst mod 4 = 0 \<and> n mod 4 = 0
      then let c = c AND 0xFF in
        stosl dst (push_bit 24 c OR push_bit 16 c OR push_bit 8 c OR c) (unat (n div 4)) m
      else stosb dst (ucast c) (unat n) m)"

definition memset_user :: "addr \<Rightarrow> 32 word \<Rightarrow> 32 word \<Rightarrow> memory \<Rightarrow> memory" where
  "memset_user dst c n m = stosb dst (ucast c) (unat n) m"

section \<open>Copying and comparing\<close>

primrec copy_up :: "addr \<Rightarrow> addr \<Rightarrow> nat \<Rightarrow> memory \<Rightarrow> memory" where
  "copy_up d s 0 m = m"
| "copy_up d s (Suc n) m = copy_up (d + 1) (s + 1) n (m(d := m s))"

primrec copy_down :: "addr \<Rightarrow> addr \<Rightarrow> nat \<Rightarrow> memory \<Rightarrow> memory" where
  "copy_down d s 0 m = m"
| "copy_down d s (Suc n) m = copy_down (d - 1) (s - 1) n (m(d - 1 := m (s - 1)))"

definition memmove :: "addr \<Rightarrow> addr \<Rightarrow> 32 word \<Rightarrow> memory \<Rightarrow> memory" where
  "memmove d s n m =
     (if s < d \<and> s + n > d then copy_down (d + n) (s + n) (unat n) m
      else copy_up d s (unat n) m)"

definition memcpy :: "addr \<Rightarrow> addr \<Rightarrow> 32 word \<Rightarrow> memory \<Rightarrow> memory" where
  "memcpy d s n m = memmove d s n m"

text \<open>
  The comparing routines only read, one character after the other, from a pointer: a pointer into
  memory is the sequence of bytes found from there on (\<open>at m a\<close>), and so is an array of a C structure.
\<close>

type_synonym cstr = "nat \<Rightarrow> byte"

definition at :: "memory \<Rightarrow> addr \<Rightarrow> cstr" where
  "at m a i = m (a + of_nat i)"

primrec memcmp :: "cstr \<Rightarrow> cstr \<Rightarrow> nat \<Rightarrow> int" where
  "memcmp s1 s2 0 = 0"
| "memcmp s1 s2 (Suc n) =
     (if s1 0 \<noteq> s2 0 then uint (s1 0) - uint (s2 0)
      else memcmp (\<lambda>i. s1 (Suc i)) (\<lambda>i. s2 (Suc i)) n)"

primrec strncmp :: "cstr \<Rightarrow> cstr \<Rightarrow> nat \<Rightarrow> int" where
  "strncmp p q 0 = 0"
| "strncmp p q (Suc n) =
     (if p 0 \<noteq> 0 \<and> p 0 = q 0 then strncmp (\<lambda>i. p (Suc i)) (\<lambda>i. q (Suc i)) n
      else uint (p 0) - uint (q 0))"

primrec strncpy_loop :: "addr \<Rightarrow> addr \<Rightarrow> nat \<Rightarrow> memory \<Rightarrow> memory" where
  "strncpy_loop s t 0 m = m"
| "strncpy_loop s t (Suc n) m =
     (let m' = m(s := m t) in
      if m' s \<noteq> 0 then strncpy_loop (s + 1) (t + 1) n m' else stosb (s + 1) 0 n m')"

definition strncpy :: "addr \<Rightarrow> addr \<Rightarrow> int \<Rightarrow> memory \<Rightarrow> memory" where
  "strncpy s t n m = strncpy_loop s t (nat n) m"

primrec safestrcpy_loop :: "addr \<Rightarrow> addr \<Rightarrow> nat \<Rightarrow> memory \<Rightarrow> addr \<times> memory" where
  "safestrcpy_loop s t 0 m = (s, m)"
| "safestrcpy_loop s t (Suc n) m =
     (let m' = m(s := m t) in
      if m' s \<noteq> 0 then safestrcpy_loop (s + 1) (t + 1) n m' else (s + 1, m'))"

definition safestrcpy :: "addr \<Rightarrow> addr \<Rightarrow> int \<Rightarrow> memory \<Rightarrow> memory" where
  "safestrcpy s t n m =
     (if n \<le> 0 then m
      else let (s', m') = safestrcpy_loop s t (nat (n - 1)) m in m'(s' := 0))"

partial_function (option) strlen_from :: "cstr \<Rightarrow> nat \<Rightarrow> nat option" where
  "strlen_from s n = (if s n = 0 then Some n else strlen_from s (Suc n))"

definition strlen :: "cstr \<Rightarrow> nat option" where
  "strlen s = strlen_from s 0"

section \<open>Address ranges\<close>

lemma in_range_0 [simp]: "\<not> in_range a 0 x"
  by (simp add: in_range_def)

lemma in_range_Suc:
  assumes "n < 2 ^ 32"
  shows "in_range a (Suc n) x \<longleftrightarrow> x = a \<or> in_range (a + 1) n x"
proof (cases "x = a")
  case True
  then show ?thesis by (simp add: in_range_def)
next
  case False
  then have "x - a \<noteq> 0" by simp
  then have "unat (x - a - 1) = unat (x - a) - 1" and "0 < unat (x - a)"
    by (simp_all add: unat_minus_one unat_gt_0)
  with False show ?thesis by (auto simp: in_range_def diff_diff_eq)
qed

lemma in_range_offset: "n \<le> 2 ^ 32 \<Longrightarrow> k < n \<Longrightarrow> in_range a n (a + of_nat k)"
  by (simp add: in_range_def unat_of_nat)

section \<open>Effect of the store loops\<close>

lemma stosb_spec: "n \<le> 2 ^ 32 \<Longrightarrow> stosb a d n m x = (if in_range a n x then d else m x)"
  by (induction n arbitrary: a m) (auto simp: in_range_Suc)

lemma stosb_add: "stosb a d (n + k) m = stosb (a + of_nat n) d k (stosb a d n m)"
  by (induction n arbitrary: a m) (simp_all add: ac_simps)

definition rep4 :: "32 word \<Rightarrow> 32 word" where
  "rep4 c = push_bit 24 c OR push_bit 16 c OR push_bit 8 c OR c"

lemma unat_less_2p32: "unat (n :: 32 word) < 2 ^ 32"
  using unsigned_less [of n] by simp

lemma and_0xFF: "(x :: 32 word) AND 0xFF = take_bit 8 x"
  by (simp add: take_bit_eq_mask mask_eq_exp_minus_1)

lemma rep4_bytes:
  assumes "c = e AND 0xFF"
  shows "(ucast (rep4 c) :: byte) = ucast e" "(ucast (drop_bit 8 (rep4 c)) :: byte) = ucast e"
    "(ucast (drop_bit 16 (rep4 c)) :: byte) = ucast e" "(ucast (drop_bit 24 (rep4 c)) :: byte) = ucast e"
  unfolding rep4_def assms and_0xFF by (rule bit_word_eqI; auto simp: bit_simps)+

lemma stosb_4: "stosb a d 4 m = m(a := d, a + 1 := d, a + 2 := d, a + 3 := d)"
  by (simp add: numeral_eq_Suc add.assoc)

lemma store32_rep4: "c = e AND 0xFF \<Longrightarrow> store32 a (rep4 c) m = stosb a (ucast e) 4 m"
  by (simp add: store32_def rep4_bytes stosb_4)

lemma stosl_rep4: "c = e AND 0xFF \<Longrightarrow> stosl a (rep4 c) n m = stosb a (ucast e) (4 * n) m"
proof (induction n arbitrary: a m)
  case (Suc n)
  then have "stosl a (rep4 c) (Suc n) m = stosb (a + 4) (ucast e) (4 * n) (stosb a (ucast e) 4 m)"
    by (simp add: store32_rep4)
  also have "\<dots> = stosb a (ucast e) (4 + 4 * n) m"
    by (subst stosb_add) simp
  finally show ?case by simp
qed simp

lemma memset_spec: "memset dst c n m x = (if in_range dst (unat n) x then ucast c else m x)"
proof (cases "dst mod 4 = 0 \<and> n mod 4 = 0")
  case True
  then have "unat (n mod 4) = 0" by simp
  then have "unat n mod 4 = 0" by (simp add: unat_mod_distrib)
  then have n: "4 * (unat n div 4) = unat n" by presburger
  have "unat (n div 4) = unat n div 4" by (simp add: unat_div)
  moreover have "unat n < 2 ^ 32" by (rule unat_less_2p32)
  ultimately show ?thesis
    using True n stosl_rep4 [OF refl, of dst c "unat n div 4" m] unfolding rep4_def
    by (simp add: memset_def Let_def stosb_spec)
next
  case False
  moreover have "unat n \<le> 2 ^ 32" using unat_less_2p32 [of n] by simp
  ultimately show ?thesis by (auto simp: memset_def stosb_spec)
qed

lemma copy_up_spec:
  assumes "n \<le> 2 ^ 32" and "\<And>i j. i < j \<Longrightarrow> j < n \<Longrightarrow> d + of_nat i \<noteq> s + of_nat j"
  shows "copy_up d s n m x = (if in_range d n x then m (s + (x - d)) else m x)"
  using assms
proof (induction n arbitrary: d s m)
  case (Suc n)
  have "i < j \<Longrightarrow> j < n \<Longrightarrow> d + 1 + of_nat i \<noteq> s + 1 + of_nat j" for i j
    using Suc.prems(2) [of "Suc i" "Suc j"] by (simp add: ac_simps)
  with Suc have IH: "copy_up (d + 1) (s + 1) n (m(d := m s)) x =
      (if in_range (d + 1) n x then (m(d := m s)) (s + 1 + (x - (d + 1))) else (m(d := m s)) x)"
    by simp
  have ne: "s + (x - d) \<noteq> d" if r: "in_range (d + 1) n x" and x: "x \<noteq> d"
  proof -
    define j where "j = unat (x - d)"
    have "0 < j" using x by (simp add: j_def unat_gt_0)
    moreover have "in_range d (Suc n) x" using r Suc.prems(1) by (simp add: in_range_Suc)
    then have "j < Suc n" by (simp add: j_def in_range_def)
    ultimately have "d + of_nat 0 \<noteq> s + of_nat j" by (rule Suc.prems(2))
    then show ?thesis by (simp add: j_def)
  qed
  show ?case
  proof (cases "x = d")
    case True
    then show ?thesis using IH Suc.prems(1) by (auto simp: in_range_Suc)
  next
    case False
    then show ?thesis using IH ne Suc.prems(1) by (auto simp: in_range_Suc)
  qed
qed simp


lemma in_range_last:
  assumes "n < 2 ^ 32"
  shows "in_range a (Suc n) x \<longleftrightarrow> x = a + of_nat n \<or> in_range a n x"
proof -
  have "unat (x - a) = n \<longleftrightarrow> x - a = of_nat n"
    using assms by (auto simp: unat_of_nat)
  then show ?thesis by (auto simp: in_range_def less_Suc_eq algebra_simps)
qed

lemma copy_down_spec:
  assumes "n \<le> 2 ^ 32" and "\<And>i j. j < i \<Longrightarrow> i < n \<Longrightarrow> d + of_nat i \<noteq> s + of_nat j"
  shows "copy_down (d + of_nat n) (s + of_nat n) n m x =
    (if in_range d n x then m (s + (x - d)) else m x)"
  using assms
proof (induction n arbitrary: m)
  case (Suc n)
  let ?m = "m(d + of_nat n := m (s + of_nat n))"
  from Suc have IH: "copy_down (d + of_nat n) (s + of_nat n) n ?m x =
      (if in_range d n x then ?m (s + (x - d)) else ?m x)"
    by simp
  have ne: "s + (x - d) \<noteq> d + of_nat n" if "in_range d n x"
  proof -
    have "unat (x - d) < n" using that by (simp add: in_range_def)
    then have "d + of_nat n \<noteq> s + of_nat (unat (x - d))" by (rule Suc.prems(2)) simp
    then show ?thesis by simp
  qed
  have "copy_down (d + of_nat (Suc n)) (s + of_nat (Suc n)) (Suc n) m =
      copy_down (d + of_nat n) (s + of_nat n) n ?m"
    by (simp add: algebra_simps)
  moreover have "\<not> in_range d n (d + of_nat n)"
    using Suc.prems(1) by (simp add: in_range_def unat_of_nat)
  ultimately show ?case
    using IH ne Suc.prems(1) by (auto simp: in_range_last simp del: copy_down.simps)
qed simp

lemma memmove_spec:
  assumes s: "unat s + unat n < 2 ^ 32" and d: "unat d + unat n < 2 ^ 32"
  shows "memmove d s n m x = (if in_range d (unat n) x then m (s + (x - d)) else m x)"
proof (cases "s < d \<and> s + n > d")
  case True
  have "d + of_nat i \<noteq> s + of_nat j" if "j < i" "i < unat n" for i j
  proof
    assume eq: "d + of_nat i = s + of_nat j"
    have "unat (d + of_nat i) = unat d + i" "unat (s + of_nat j) = unat s + j"
      using that s d by (simp_all add: unat_word_ariths unat_of_nat)
    with eq have "unat d + i = unat s + j" by metis
    moreover have "unat s < unat d" using True by (simp add: word_less_nat_alt)
    ultimately show False using that by simp
  qed
  from copy_down_spec [OF _ this, of "unat n" m x] True unat_less_2p32 [of n] show ?thesis
    by (simp add: memmove_def)
next
  case False
  have "d + of_nat i \<noteq> s + of_nat j" if "i < j" "j < unat n" for i j
  proof
    assume eq: "d + of_nat i = s + of_nat j"
    have "unat (d + of_nat i) = unat d + i" "unat (s + of_nat j) = unat s + j"
      "unat (s + n) = unat s + unat n"
      using that s d by (simp_all add: unat_word_ariths unat_of_nat)
    with eq have "unat d + i = unat s + j" "unat (s + n) = unat s + unat n" by metis+
    with that have "s < d \<and> s + n > d" unfolding word_less_nat_alt by linarith
    with False show False by simp
  qed
  from copy_up_spec [OF _ this, of "unat n" m x] False unat_less_2p32 [of n] show ?thesis
    by (auto simp: memmove_def)
qed


text \<open>The string at a pointer, read as a string of at most \<open>n\<close> characters.\<close>

definition str_take :: "nat \<Rightarrow> cstr \<Rightarrow> byte list" where
  "str_take n p = takeWhile (\<lambda>b. b \<noteq> 0) (map p [0..<n])"

lemma str_take_0 [simp]: "str_take 0 p = []"
  by (simp add: str_take_def)

lemma str_take_Suc [simp]:
  "str_take (Suc n) p = (if p 0 = 0 then [] else p 0 # str_take n (\<lambda>i. p (Suc i)))"
proof -
  have "map p [0..<Suc n] = p 0 # map (\<lambda>i. p (Suc i)) [0..<n]"
    by (simp add: upt_conv_Cons map_Suc_upt [symmetric] del: upt_Suc)
  then show ?thesis by (simp add: str_take_def del: upt_Suc)
qed

lemma strncmp_eq_0: "strncmp p q n = 0 \<longleftrightarrow> str_take n p = str_take n q"
  by (induction n arbitrary: p q) (auto simp: word_uint_eq_iff)

lemma memcmp_eq_0: "memcmp s t n = 0 \<longleftrightarrow> (\<forall>i < n. s i = t i)"
proof (induction n arbitrary: s t)
  case (Suc n)
  show ?case
    by (simp add: Suc.IH All_less_Suc2 word_uint_eq_iff)
qed simp

lemma strlen_from_eq: "s k = 0 \<Longrightarrow> n \<le> k \<Longrightarrow> (\<And>i. n \<le> i \<Longrightarrow> i < k \<Longrightarrow> s i \<noteq> 0) \<Longrightarrow>
   strlen_from s n = Some k"
proof (induction "k - n" arbitrary: n)
  case 0
  then show ?case by (subst strlen_from.simps) simp
next
  case (Suc d)
  then have "s n \<noteq> 0" and "strlen_from s (Suc n) = Some k" by auto
  then show ?case by (subst strlen_from.simps) simp
qed

lemma strlen_eq: "s k = 0 \<Longrightarrow> (\<And>i. i < k \<Longrightarrow> s i \<noteq> 0) \<Longrightarrow> strlen s = Some k"
  by (simp add: strlen_def strlen_from_eq)

lemma strlen_returns: "s k = 0 \<Longrightarrow> \<exists>n \<le> k. strlen s = Some n \<and> s n = 0 \<and> (\<forall>i < n. s i \<noteq> 0)"
proof -
  assume "s k = 0"
  let ?n = "LEAST n. s n = 0"
  have "s ?n = 0" "?n \<le> k" using \<open>s k = 0\<close> by (auto intro: LeastI Least_le)
  moreover have "\<forall>i < ?n. s i \<noteq> 0" by (blast dest: not_less_Least)
  ultimately show ?thesis using strlen_eq [of s ?n] by blast
qed

lemma strncpy_loop_spec:
  assumes "n \<le> 2 ^ 32" and "\<And>i. i < n \<Longrightarrow> \<not> in_range s n (t + of_nat i)"
  shows "strncpy_loop s t n m x =
    (if in_range s n x
     then (if \<exists>j < unat (x - s). m (t + of_nat j) = 0 then 0 else m (t + (x - s)))
     else m x)"
  using assms
proof (induction n arbitrary: s t m)
  case (Suc n)
  have t_ne: "t \<noteq> s" using Suc.prems(2) [of 0] by (auto simp: in_range_def)
  have tail: "\<not> in_range (s + 1) n (t + 1 + of_nat i)" if "i < n" for i
    using Suc.prems(2) [of "Suc i"] that Suc.prems(1) by (auto simp: in_range_Suc add.assoc)
  define M where "M = m(s := m t)"
  have same: "M (t + 1 + of_nat j) = m (t + 1 + of_nat j)" if "j < n" for j
    using Suc.prems(2) [of "Suc j"] that Suc.prems(1) by (auto simp: M_def in_range_Suc add.assoc)
  have unf: "strncpy_loop s t (Suc n) m =
      (if m t \<noteq> 0 then strncpy_loop (s + 1) (t + 1) n M else stosb (s + 1) 0 n M)"
    by (simp add: M_def Let_def)
  show ?case
  proof (cases "m t = 0")
    case True
    have "(\<exists>j < unat (x - s). m (t + of_nat j) = 0) \<longleftrightarrow> x \<noteq> s"
      using True by (auto simp: unat_gt_0 intro: exI [of _ 0])
    then show ?thesis
      using True Suc.prems(1) unf by (auto simp: stosb_spec in_range_Suc M_def)
  next
    case False
    have IH: "strncpy_loop (s + 1) (t + 1) n M x =
      (if in_range (s + 1) n x
       then (if \<exists>j < unat (x - (s + 1)). M (t + 1 + of_nat j) = 0 then 0 else M (t + 1 + (x - (s + 1))))
       else M x)"
      using Suc.prems(1) tail by (intro Suc.IH) auto
    show ?thesis
    proof (cases "in_range (s + 1) n x")
      case r: True
      define j0 where "j0 = unat (x - (s + 1))"
      have j0: "j0 < n" using r by (simp add: j0_def in_range_def)
      have x: "x - (s + 1) = of_nat j0" by (simp add: j0_def)
      then have "x - s = of_nat (Suc j0)" by (simp add: algebra_simps)
      moreover have "Suc j0 < 2 ^ 32" using j0 Suc.prems(1) by simp
      ultimately have xs: "unat (x - s) = Suc j0" by (simp add: unat_of_nat del: of_nat_Suc)
      have ex: "(\<exists>j < j0. M (t + 1 + of_nat j) = 0) \<longleftrightarrow> (\<exists>j < Suc j0. m (t + of_nat j) = 0)"
      proof -
        have "j < j0 \<Longrightarrow> M (t + 1 + of_nat j) = m (t + 1 + of_nat j)" for j
          using same j0 by simp
        then have "(\<exists>j < j0. M (t + 1 + of_nat j) = 0) \<longleftrightarrow> (\<exists>j < j0. m (t + 1 + of_nat j) = 0)"
          by auto
        with False show ?thesis by (simp add: Ex_less_Suc2 add.assoc)
      qed
      have "M (t + 1 + of_nat j0) = m (t + (x - s))"
        using same [OF j0] \<open>x - s = of_nat (Suc j0)\<close> by (simp add: add.assoc)
      moreover have "in_range s (Suc n) x" using r Suc.prems(1) by (simp add: in_range_Suc)
      moreover have "strncpy_loop (s + 1) (t + 1) n M x =
          (if \<exists>j < j0. M (t + 1 + of_nat j) = 0 then 0 else M (t + 1 + of_nat j0))"
        using IH [folded j0_def] r unfolding x by simp
      ultimately show ?thesis
        using False ex unfolding unf xs by auto
    next
      case nr: False
      then show ?thesis
        using IH False Suc.prems(1) t_ne unf by (auto simp: in_range_Suc M_def)
    qed
  qed
qed simp

lemma safestrcpy_loop_end: "safestrcpy_loop s t n m = (s', m') \<Longrightarrow> \<exists>k \<le> n. s' = s + of_nat k"
proof (induction n arbitrary: s t m)
  case (Suc n)
  show ?case
  proof (cases "m t = 0")
    case True
    with Suc.prems show ?thesis by (auto intro: exI [of _ 1])
  next
    case False
    with Suc.prems Suc.IH obtain k where "k \<le> n" "s' = s + 1 + of_nat k" by fastforce
    then show ?thesis by (intro exI [of _ "Suc k"]) (simp add: add.assoc)
  qed
qed simp

lemma safestrcpy_terminates_string:
  assumes "0 < n"
  shows "\<exists>k < nat n. safestrcpy s t n m (s + of_nat k) = 0"
proof -
  obtain s' m' where l: "safestrcpy_loop s t (nat (n - 1)) m = (s', m')" by fastforce
  with safestrcpy_loop_end obtain k where "k \<le> nat (n - 1)" "s' = s + of_nat k" by blast
  with l assms show ?thesis by (intro exI [of _ k]) (auto simp: safestrcpy_def)
qed
section \<open>What the routines promise\<close>

text \<open>C39: memset writes the low byte of its argument to each of the n bytes and to nothing else, on
  the path that stores whole words as well as on the path that stores bytes.\<close>

theorem memset_fills:
  "memset dst c n m x = (if in_range dst (unat n) x then ucast c else m x)"
  by (rule memset_spec)

text \<open>C29: memmove copies correctly however the two ranges overlap: after it every destination byte
  holds the byte its source address held before the call, and no other byte has changed. The ranges
  must not reach the top of the address space, where the pointer arithmetic of the overlap test wraps.\<close>

theorem memmove_overlap_correct:
  assumes "unat s + unat n < 2 ^ 32" and "unat d + unat n < 2 ^ 32"
  shows "memmove d s n m x = (if in_range d (unat n) x then m (s + (x - d)) else m x)"
  using assms by (rule memmove_spec)

theorem memmove_overlap_correct_witness:
  "memmove 0x1002 0x1000 4 (\<lambda>a. ucast a) 0x1005 = (3 :: byte)"
  using memmove_overlap_correct [of "0x1000" 4 "0x1002" "\<lambda>a. ucast a" "0x1005"]
  by (simp add: in_range_def)

text \<open>C40: strncpy fills exactly n bytes: it copies the source up to and including its first NUL and
  pads the rest with NUL bytes, and writes nowhere else.\<close>

theorem strncpy_copies_and_pads:
  assumes "0 \<le> n" and "n \<le> 2 ^ 32"
    and "\<And>i. i < nat n \<Longrightarrow> \<not> in_range s (nat n) (t + of_nat i)"
  shows "strncpy s t n m x =
    (if in_range s (nat n) x
     then (if \<exists>j < unat (x - s). m (t + of_nat j) = 0 then 0 else m (t + (x - s)))
     else m x)"
proof -
  from assms(2) have "nat n \<le> 2 ^ 32" by simp
  then show ?thesis unfolding strncpy_def using assms(3) by (rule strncpy_loop_spec)
qed

theorem strncpy_copies_and_pads_witness:
  "strncpy 0x2000 0x1000 14 (\<lambda>a. if a = 0x1002 then 0 else 65) 0x2001 = (65 :: byte) \<and>
   strncpy 0x2000 0x1000 14 (\<lambda>a. if a = 0x1002 then 0 else 65) 0x2009 = (0 :: byte)"
proof -
  have d: "\<not> in_range 0x2000 (nat 14) (0x1000 + of_nat i)" if "i < nat 14" for i
  proof -
    have "\<forall>i \<in> set [0..<14]. \<not> in_range 0x2000 (nat 14) (0x1000 + of_nat i)"
      by (simp add: in_range_def upt_rec)
    with that show ?thesis by simp
  qed
  have "\<not> (\<exists>j < 1. (0x1000 :: addr) + of_nat j = 0x1002)" by simp
  moreover have "\<exists>j < 9. (0x1000 :: addr) + of_nat j = 0x1002" by (rule exI [of _ 2]) simp
  ultimately show ?thesis
    using strncpy_copies_and_pads [OF _ _ d, of "\<lambda>a. if a = 0x1002 then 0 else 65" "0x2001"]
      strncpy_copies_and_pads [OF _ _ d, of "\<lambda>a. if a = 0x1002 then 0 else 65" "0x2009"]
    by (simp add: in_range_def) (auto split: if_splits)
qed

end
