(* ===== verification/Kalloc.thy ===== *)
theory Kalloc
  imports Spinlock Mem
begin

text \<open>
  \<^verbatim>\<open>kalloc.c\<close>: the allocator of physical pages. Its state extends the processor state by the kernel
  memory, the \<open>kmem\<close> structure and the linker symbols \<open>end\<close> (the first address after the kernel
  image) and \<open>data\<close> (the start of its data). The free list is the linked list the C code builds inside the free pages themselves:
  \<open>r->next\<close> is the first word of the page at \<open>r\<close>.

  The locale \<open>page_allocator\<close> is the interface the rest of the kernel relies on; it is interpreted
  on \<open>kalloc\<close> and \<open>kfree\<close>.
\<close>

definition PGSIZE :: addr where "PGSIZE = 4096"
definition KERNBASE :: addr where "KERNBASE = 0x80000000"
definition PHYSTOP :: addr where "PHYSTOP = 0xE000000"

definition V2P :: "addr \<Rightarrow> addr" where "V2P a = a - KERNBASE"
definition P2V :: "addr \<Rightarrow> addr" where "P2V a = a + KERNBASE"

definition PGROUNDUP :: "addr \<Rightarrow> addr" where
  "PGROUNDUP sz = (sz + PGSIZE - 1) AND NOT (PGSIZE - 1)"

definition PGROUNDDOWN :: "addr \<Rightarrow> addr" where
  "PGROUNDDOWN a = a AND NOT (PGSIZE - 1)"

lemmas page_consts = PGSIZE_def KERNBASE_def PHYSTOP_def V2P_def P2V_def

record mst = kst +
  mem :: memory
  use_lock :: bool
  freelist :: addr
  kend :: addr
  kdata :: addr

definition kfree :: "addr \<Rightarrow> ('z mst_scheme, unit) kop" where
  "kfree v =
     kbind (kget kend) (\<lambda>e.
     if v mod PGSIZE \<noteq> 0 \<or> v < e \<or> V2P v \<ge> PHYSTOP then kpanic ''kfree''
     else
       kseq (kmod (\<lambda>s. s\<lparr>mem := memset v 1 PGSIZE (mem s)\<rparr>)) (
       kbind (kget use_lock) (\<lambda>ul.
       kseq (kwhen ul (acquire LKmem)) (
       kseq (kmod (\<lambda>s. s\<lparr>mem := store32 v (freelist s) (mem s)\<rparr>)) (
       kseq (kmod (\<lambda>s. s\<lparr>freelist := v\<rparr>))
         (kwhen ul (release LKmem)))))))"

definition kalloc :: "('z mst_scheme, addr) kop" where
  "kalloc =
     kbind (kget use_lock) (\<lambda>ul.
     kseq (kwhen ul (acquire LKmem)) (
     kbind (kget freelist) (\<lambda>r.
     kseq (kwhen (r \<noteq> 0) (kmod (\<lambda>s. s\<lparr>freelist := load32 (mem s) r\<rparr>))) (
     kseq (kwhen ul (release LKmem)) (
     kret r)))))"

text \<open>
  The loop of \<open>freerange\<close> stops because \<open>kfree\<close> panics on an address above \<open>PHYSTOP\<close>, long before
  the address could wrap around.
\<close>

lemma kfree_Ret_below: "kfree v s = Ret a t \<Longrightarrow> v mod PGSIZE = 0 \<and> kend s \<le> v \<and> V2P v < PHYSTOP"
  by (auto simp: kfree_def not_le not_less split: if_splits)

function freerange_loop :: "addr \<Rightarrow> addr \<Rightarrow> 'z mst_scheme \<Rightarrow> (unit, 'z mst_scheme) kres" where
  "freerange_loop p vend s =
     (if p + PGSIZE \<le> vend
      then (case kfree p s of
              Ret _ t \<Rightarrow> freerange_loop (p + PGSIZE) vend t
            | Panic e \<Rightarrow> Panic e
            | Block t \<Rightarrow> Block t)
      else Ret () s)"
  by pat_completeness auto
termination
proof (relation "measure (\<lambda>(p, vend, s). unat (0xFFFFFFFF - p))")
  fix p vend :: addr and s t :: "'z mst_scheme" and a
  assume "kfree p s = Ret a t"
  then have "V2P p < PHYSTOP" using kfree_Ret_below by blast
  then have "p < 0x8E000000 \<or> 0x80000000 > p" by (simp add: page_consts) unat_arith
  then have "p \<le> 0xFFFFFFFF - 4096" by unat_arith
  then have "unat (0xFFFFFFFF - (p + 4096)) < unat (0xFFFFFFFF - p)" by unat_arith
  then show "((p + PGSIZE, vend, t), p, vend, s) \<in> measure (\<lambda>(p, vend, s). unat (0xFFFFFFFF - p))"
    by (simp add: PGSIZE_def)
qed simp

definition freerange :: "addr \<Rightarrow> addr \<Rightarrow> ('z mst_scheme, unit) kop" where
  "freerange vstart vend = freerange_loop (PGROUNDUP vstart) vend"

definition kinit1 :: "addr \<Rightarrow> addr \<Rightarrow> ('z mst_scheme, unit) kop" where
  "kinit1 vstart vend =
     kseq (initlock LKmem) (
     kseq (kmod (\<lambda>s. s\<lparr>use_lock := False\<rparr>))
       (freerange vstart vend))"

definition kinit2 :: "addr \<Rightarrow> addr \<Rightarrow> ('z mst_scheme, unit) kop" where
  "kinit2 vstart vend =
     kseq (freerange vstart vend)
       (kmod (\<lambda>s. s\<lparr>use_lock := True\<rparr>))"

section \<open>Words and pages in memory\<close>

lemma load32_cong: "(\<And>k. k < 4 \<Longrightarrow> m (a + of_nat k) = m' (a + of_nat k)) \<Longrightarrow> load32 m a = load32 m' a"
proof -
  assume eq: "\<And>k. k < 4 \<Longrightarrow> m (a + of_nat k) = m' (a + of_nat k)"
  from eq [of 0] eq [of 1] eq [of 2] eq [of 3] show ?thesis by (simp add: load32_def)
qed

lemma load32_store32 [simp]: "load32 (store32 a v m) a = v"
proof (rule bit_word_eqI)
  fix n assume "n < LENGTH(32)"
  then consider "n < 8" | "8 \<le> n" "n < 16" | "16 \<le> n" "n < 24" | "24 \<le> n" "n < 32"
    by fastforce
  then show "bit (load32 (store32 a v m) a) n = bit v n"
    by cases (auto simp: load32_def store32_def bit_simps)
qed

lemma store32_other: "\<not> in_range a 4 x \<Longrightarrow> store32 a v m x = m x"
  by (auto simp: store32_def in_range_def)

lemma in_range_mono: "in_range a n x \<Longrightarrow> n \<le> k \<Longrightarrow> in_range a k x"
  by (simp add: in_range_def)

lemma page_of_range:
  assumes "p mod 4096 = 0" and "in_range p 4096 x"
  shows "unat x div 4096 = unat p div 4096"
proof -
  let ?d = "unat (x - p)"
  have d: "?d < 4096" using assms(2) by (simp add: in_range_def)
  from assms(1) have "unat (p mod 4096) = 0" by simp
  then have "unat p mod 4096 = 0" by (simp add: unat_mod_distrib)
  then obtain k where k: "unat p = 4096 * k" by (metis mod_0_imp_dvd dvdE)
  with unat_less_2p32 [of p] have "k < 2 ^ 20" by simp
  then have "4096 * k + ?d < 2 ^ 32" using d by simp
  then have "unat (p + (x - p)) = 4096 * k + ?d" by (subst unat_word_ariths) (simp add: k)
  then have "unat x = 4096 * k + ?d" by simp
  then show ?thesis using k d by simp
qed

lemma page_disjoint:
  assumes "p mod 4096 = 0" "q mod 4096 = 0" "p \<noteq> q" "in_range p 4096 x"
  shows "\<not> in_range q 4096 x"
proof
  assume "in_range q 4096 x"
  with assms have "unat q div 4096 = unat p div 4096" using page_of_range by metis
  moreover have "unat p mod 4096 = 0" "unat q mod 4096 = 0"
    using arg_cong [OF assms(1), of unat] arg_cong [OF assms(2), of unat] by (simp_all add: unat_mod_distrib)
  ultimately have "unat p = unat q" by (metis div_mult_mod_eq)
  then have "p = q" by (simp add: word_unat_eq_iff)
  with assms(3) show False ..
qed

section \<open>The free list\<close>

definition page_ok :: "addr \<Rightarrow> addr \<Rightarrow> bool" where
  "page_ok e p \<longleftrightarrow> p mod 4096 = 0 \<and> e \<le> p \<and> V2P p < PHYSTOP"

primrec flist :: "memory \<Rightarrow> addr \<Rightarrow> addr list \<Rightarrow> bool" where
  "flist m a [] \<longleftrightarrow> a = 0"
| "flist m a (p # ps) \<longleftrightarrow> a = p \<and> flist m (load32 m p) ps"

definition kmem_inv :: "addr list \<Rightarrow> 'z mst_scheme \<Rightarrow> bool" where
  "kmem_inv ps s \<longleftrightarrow> flist (mem s) (freelist s) ps \<and> distinct ps \<and>
     (\<forall>p \<in> set ps. page_ok (kend s) p) \<and>
     (use_lock s \<longrightarrow> kready s \<and> spin s LKmem = unlocked)"

lemma page_ok_nonzero: "page_ok e p \<Longrightarrow> p \<noteq> 0"
  by (auto simp: page_ok_def page_consts)

lemma flist_cong:
  "(\<And>p. p \<in> set ps \<Longrightarrow> load32 m p = load32 m' p) \<Longrightarrow> flist m a ps = flist m' a ps"
  by (induction ps arbitrary: a) auto

lemma load32_other_page:
  assumes "p mod 4096 = 0" "q mod 4096 = 0" "p \<noteq> q" and "\<And>x. \<not> in_range p 4096 x \<Longrightarrow> m' x = m x"
  shows "load32 m' q = load32 m q"
proof (rule load32_cong)
  fix k :: nat assume "k < 4"
  then have "in_range q 4096 (q + of_nat k)" by (intro in_range_offset) auto
  then have "\<not> in_range p 4096 (q + of_nat k)"
    using page_disjoint [OF assms(2,1) assms(3) [symmetric]] by simp
  then show "m' (q + of_nat k) = m (q + of_nat k)" by (rule assms(4))
qed

text \<open>Both operations in closed form: what they return and what they leave behind.\<close>

definition kfree_mem :: "addr \<Rightarrow> addr \<Rightarrow> memory \<Rightarrow> memory" where
  "kfree_mem v fl m = store32 v fl (memset v 1 PGSIZE m)"

lemma kfree_mem_other: "\<not> in_range v 4096 x \<Longrightarrow> kfree_mem v fl m x = m x"
proof -
  assume x: "\<not> in_range v 4096 x"
  then have "\<not> in_range v 4 x" using in_range_mono [of v 4 x 4096] by auto
  with x show ?thesis by (simp add: kfree_mem_def store32_other memset_spec PGSIZE_def)
qed

lemma kfree_mem_head [simp]: "load32 (kfree_mem v fl m) v = fl"
  by (simp add: kfree_mem_def)

lemma kready_upd [simp]: "kready (s\<lparr>mem := m\<rparr>) = kready s" "kready (s\<lparr>freelist := fl\<rparr>) = kready s"
  "kready (s\<lparr>use_lock := u\<rparr>) = kready s"
  by (simp_all add: kready_def cpu_of_def)

lemma holds_upd [simp]: "holds lk (s\<lparr>mem := m\<rparr>) = holds lk s" "holds lk (s\<lparr>freelist := fl\<rparr>) = holds lk s"
  by (simp_all add: holds_def cpu_of_def)

definition relock :: "lockid \<Rightarrow> 'z kst_scheme \<Rightarrow> 'z kst_scheme" where
  "relock lk s = unlock_st lk (lock_st lk s)"

lemma kfree_Ret:
  assumes "kmem_inv ps s" and "page_ok (kend s) v"
  shows "kfree v s = Ret () ((if use_lock s then relock LKmem s else s)
    \<lparr>mem := kfree_mem v (freelist s) (mem s), freelist := v\<rparr>)"
proof -
  have ok: "\<not> (v mod PGSIZE \<noteq> 0 \<or> v < kend s \<or> V2P v \<ge> PHYSTOP)"
    using assms(2) by (auto simp: page_ok_def PGSIZE_def)
  show ?thesis
  proof (cases "use_lock s")
    case False
    with ok show ?thesis by (simp add: kfree_def kwhen_def kret_def kmod_def kfree_mem_def)
  next
    case True
    let ?s1 = "s\<lparr>mem := memset v 1 PGSIZE (mem s)\<rparr>"
    from True assms have "kready ?s1" "spin ?s1 LKmem = unlocked" by (simp_all add: kmem_inv_def)
    then have a: "acquire LKmem ?s1 = Ret () (lock_st LKmem ?s1)" and h: "holds LKmem (lock_st LKmem ?s1)"
      by (simp_all add: acquire_Ret holds_lock_st)
    let ?s2 = "(lock_st LKmem ?s1)\<lparr>mem := store32 v (freelist s) (mem ?s1), freelist := v\<rparr>"
    have "release LKmem ?s2 = Ret () (unlock_st LKmem ?s2)" using h by (simp add: release_Ret)
    with ok True a show ?thesis
      by (simp add: kfree_def kdefs kfree_mem_def relock_def)
        (simp add: lock_st_def unlock_st_def cpu_of_def)
  qed
qed

lemma relock_simps [simp]:
  "mem (relock lk s) = mem s" "freelist (relock lk s) = freelist s" "use_lock (relock lk s) = use_lock s"
  "kend (relock lk s) = kend s"
  by (simp_all add: relock_def lock_st_def unlock_st_def)

lemma kready_relock: "kready s \<Longrightarrow> kready (relock lk s)"
  by (simp add: relock_def kready_unlock_st holds_lock_st)

lemma spin_relock: "spin s lk = unlocked \<Longrightarrow> spin (relock lk s) = spin s"
  by (auto simp: relock_def lock_st_def unlock_st_def)

lemma kalloc_Ret:
  assumes "kmem_inv ps s"
  shows "kalloc s = Ret (freelist s) ((if use_lock s then relock LKmem s else s)
    \<lparr>freelist := (if freelist s = 0 then 0 else load32 (mem s) (freelist s))\<rparr>)"
proof (cases "use_lock s")
  case False
  then show ?thesis by (simp add: kalloc_def kdefs)
next
  case True
  with assms have "kready s" "spin s LKmem = unlocked" by (simp_all add: kmem_inv_def)
  then have a: "acquire LKmem s = Ret () (lock_st LKmem s)" and h: "holds LKmem (lock_st LKmem s)"
    by (simp_all add: acquire_Ret holds_lock_st)
  have "release LKmem ((lock_st LKmem s)\<lparr>freelist := fl\<rparr>) = Ret () (unlock_st LKmem ((lock_st LKmem s)\<lparr>freelist := fl\<rparr>))"
    for fl using h by (simp add: release_Ret)
  moreover have "release LKmem (lock_st LKmem s) = Ret () (relock LKmem s)"
    using h by (simp add: release_Ret relock_def)
  ultimately show ?thesis using True a
    by (simp add: kalloc_def kdefs) (simp add: relock_def lock_st_def unlock_st_def cpu_of_def)
qed

lemma kmem_inv_kfree:
  assumes "kmem_inv ps s" and "page_ok (kend s) v" and "v \<notin> set ps" and "kfree v s = Ret a t"
  shows "kmem_inv (v # ps) t"
proof -
  have t: "t = (if use_lock s then relock LKmem s else s)
      \<lparr>mem := kfree_mem v (freelist s) (mem s), freelist := v\<rparr>"
    using kfree_Ret [OF assms(1,2)] assms(4) by simp
  have "flist (kfree_mem v (freelist s) (mem s)) (freelist s) ps = flist (mem s) (freelist s) ps"
  proof (rule flist_cong)
    fix p assume "p \<in> set ps"
    then have "p mod 4096 = 0" "v mod 4096 = 0" "v \<noteq> p"
      using assms(1-3) by (auto simp: kmem_inv_def page_ok_def)
    then show "load32 (kfree_mem v (freelist s) (mem s)) p = load32 (mem s) p"
      by (intro load32_other_page) (auto intro: kfree_mem_other)
  qed
  then show ?thesis
    using assms(1-3) by (auto simp: t kmem_inv_def kready_relock spin_relock)
qed

lemma kmem_inv_kalloc:
  assumes "kmem_inv (p # ps) s"
  shows "\<exists>t. kalloc s = Ret p t \<and> kmem_inv ps t \<and> mem t = mem s \<and> kend t = kend s"
proof -
  from assms have p: "freelist s = p" "p \<noteq> 0" by (auto simp: kmem_inv_def dest: page_ok_nonzero)
  with assms show ?thesis
    by (simp add: kalloc_Ret [OF assms]) (auto simp: kmem_inv_def kready_relock spin_relock)
qed

lemma kmem_inv_kalloc_empty:
  assumes "kmem_inv [] s"
  shows "\<exists>t. kalloc s = Ret 0 t \<and> kmem_inv [] t \<and> mem t = mem s \<and> kend t = kend s"
proof -
  from assms have "freelist s = 0" by (simp add: kmem_inv_def)
  with assms show ?thesis
    by (simp add: kalloc_Ret [OF assms]) (auto simp: kmem_inv_def kready_relock spin_relock)
qed

section \<open>The page allocator as an interface\<close>

text \<open>
  A provider of pages: \<open>pages s ps\<close> says that \<open>ps\<close> are the free pages of \<open>s\<close>. A client is a list of
  requests; \<open>Free k\<close> returns the \<open>k\<close>-th page it still holds. \<open>page_client\<close> runs the requests and keeps the
  list of pages the client holds.
\<close>

datatype preq = Alloc | Free nat

primrec page_client :: "('s \<Rightarrow> (addr, 's) kres) \<Rightarrow> (addr \<Rightarrow> 's \<Rightarrow> (unit, 's) kres) \<Rightarrow>
    preq list \<Rightarrow> addr list \<Rightarrow> 's \<Rightarrow> (addr list, 's) kres" where
  "page_client alloc free [] held s = Ret held s"
| "page_client alloc free (r # rs) held s =
     (case r of
        Alloc \<Rightarrow> kbind alloc (\<lambda>p. page_client alloc free rs (if p = 0 then held else p # held)) s
      | Free k \<Rightarrow>
          (if k < length held
           then kseq (free (held ! k)) (page_client alloc free rs (take k held @ drop (Suc k) held)) s
           else page_client alloc free rs held s))"

lemma remove_nth:
  assumes "k < length xs" and "distinct (xs @ ys)"
  shows "distinct ((take k xs @ drop (Suc k) xs) @ (xs ! k) # ys)"
    and "set (take k xs @ drop (Suc k) xs) \<union> {xs ! k} = set xs"
    and "xs ! k \<notin> set ys"
proof -
  have xs: "xs = take k xs @ xs ! k # drop (Suc k) xs" using assms(1) by (rule id_take_nth_drop)
  have "distinct ((take k xs @ xs ! k # drop (Suc k) xs) @ ys)" using assms(2) xs by simp
  then show "distinct ((take k xs @ drop (Suc k) xs) @ (xs ! k) # ys)" by auto
  show "set (take k xs @ drop (Suc k) xs) \<union> {xs ! k} = set xs" by (subst (4) xs) auto
  show "xs ! k \<notin> set ys" using assms nth_mem by fastforce
qed

locale page_allocator =
  fixes alloc :: "'s \<Rightarrow> (addr, 's) kres"
    and free :: "addr \<Rightarrow> 's \<Rightarrow> (unit, 's) kres"
    and pages :: "addr list \<Rightarrow> 's \<Rightarrow> bool"
    and ok :: "'s \<Rightarrow> addr \<Rightarrow> bool"
  assumes alloc_empty: "pages [] s \<Longrightarrow> \<exists>t. alloc s = Ret 0 t \<and> pages [] t \<and> ok t = ok s"
    and alloc_page: "pages (p # ps) s \<Longrightarrow> \<exists>t. alloc s = Ret p t \<and> pages ps t \<and> ok t = ok s"
    and free_page: "pages ps s \<Longrightarrow> ok s p \<Longrightarrow> p \<notin> set ps \<Longrightarrow>
      \<exists>t. free p s = Ret () t \<and> pages (p # ps) t \<and> ok t = ok s"
    and pages_ok: "pages ps s \<Longrightarrow> distinct ps \<and> (\<forall>p \<in> set ps. ok s p \<and> p \<noteq> 0)"
begin

text \<open>No request panics, no page is ever held twice or both held and free, and none is lost.\<close>

lemma client_conserves:
  assumes "pages ps s" and "distinct (held @ ps)" and "\<forall>p \<in> set held. ok s p"
  shows "\<exists>held' ps' t. page_client alloc free rs held s = Ret held' t \<and> pages ps' t \<and> distinct (held' @ ps') \<and>
    set held' \<union> set ps' = set held \<union> set ps"
  using assms
proof (induction rs arbitrary: held ps s)
  case Nil
  then show ?case by auto
next
  case (Cons r rs)
  show ?case
  proof (cases r)
    case Alloc
    show ?thesis
    proof (cases ps)
      case Nil
      with alloc_empty Cons.prems obtain t where "alloc s = Ret 0 t" "pages [] t" "ok t = ok s" by blast
      with Cons.IH [of "[]" t held] Cons.prems Alloc Nil show ?thesis by (simp add: kbind_Ret)
    next
      case (Cons p qs)
      with alloc_page Cons.prems obtain t where t: "alloc s = Ret p t" "pages qs t" "ok t = ok s" by blast
      moreover have "p \<noteq> 0" "ok s p" using pages_ok Cons.prems(1) Cons by auto
      ultimately show ?thesis
        using Cons.IH [of qs t "p # held"] Cons.prems Alloc Cons by (auto simp: kbind_Ret)
    qed
  next
    case (Free k)
    show ?thesis
    proof (cases "k < length held")
      case False
      with Cons.IH [OF Cons.prems] Free show ?thesis by simp
    next
      case True
      let ?rest = "take k held @ drop (Suc k) held"
      note rem = remove_nth [OF True Cons.prems(2)]
      from Cons.prems(3) True have "ok s (held ! k)" by simp
      with free_page [OF Cons.prems(1) _ rem(3)] obtain t
        where t: "free (held ! k) s = Ret () t" "pages (held ! k # ps) t" "ok t = ok s" by blast
      moreover have "\<forall>p \<in> set ?rest. ok t p" using Cons.prems(3) rem(2) t(3) by auto
      ultimately obtain held' ps' u where "page_client alloc free rs ?rest t = Ret held' u" "pages ps' u"
          "distinct (held' @ ps')" "set held' \<union> set ps' = set ?rest \<union> set (held ! k # ps)"
        using Cons.IH [OF t(2) rem(1)] by blast
      moreover have "set ?rest \<union> set (held ! k # ps) = set held \<union> set ps" using rem(2) by auto
      ultimately have "page_client alloc free (r # rs) held s = Ret held' u \<and> pages ps' u \<and> distinct (held' @ ps') \<and>
          set held' \<union> set ps' = set held \<union> set ps"
        using Free True t(1) by (simp add: kseq_Ret)
      then show ?thesis by blast
    qed
  qed
qed

end

interpretation kpages: page_allocator
  "kalloc :: ('z mst_scheme, addr) kop" "kfree" "kmem_inv" "\<lambda>s. page_ok (kend s)"
proof unfold_locales
  fix ps :: "addr list" and s :: "'z mst_scheme" and p
  assume "kmem_inv ps s" "page_ok (kend s) p" "p \<notin> set ps"
  then show "\<exists>t. kfree p s = Ret () t \<and> kmem_inv (p # ps) t \<and> page_ok (kend t) = page_ok (kend s)"
    using kfree_Ret [of ps s p] kmem_inv_kfree [of ps s p] by auto
qed (use kmem_inv_kalloc kmem_inv_kalloc_empty page_ok_nonzero in \<open>fastforce simp: kmem_inv_def\<close>)+


text \<open>C10: A kernel that starts with any well-formed free list and then runs any sequence of
  \<open>kalloc\<close> and \<open>kfree\<close> calls (freeing only pages it holds) never panics, never gets a page it
  already holds or one that is still on the free list, and loses none: held and free pages
  together are always the same set, and the free list in memory stays well formed.\<close>

theorem kalloc_kfree_conserve:
  assumes "kmem_inv ps s"
  shows "\<exists>held' ps' t. page_client kalloc kfree rs [] s = Ret held' t \<and> kmem_inv ps' t \<and>
    distinct (held' @ ps') \<and> set held' \<union> set ps' = set ps"
proof -
  have "distinct ([] @ ps)" using assms by (simp add: kmem_inv_def)
  from kpages.client_conserves [OF assms this, of rs] show ?thesis by simp
qed

definition mst0 :: "addr \<Rightarrow> mst" where
  "mst0 k = kst.extend kst0 (mst.fields (\<lambda>_. 0) False 0 k 0x80108000)"

lemma kmem_inv_mst0: "kmem_inv [] (mst0 k)"
  by (simp add: kmem_inv_def mst0_def mst.defs kst.defs)

theorem kalloc_kfree_conserve_witness:
  "\<exists>(s :: mst) held' ps' t. kmem_inv [0x80400000] s \<and>
    page_client kalloc kfree [Alloc, Alloc, Free 0, Alloc] [] s = Ret held' t \<and> kmem_inv ps' t \<and>
    set held' \<union> set ps' = {0x80400000}"
proof -
  let ?v = "0x80400000 :: addr"
  have ok: "page_ok (kend (mst0 0x80200000)) ?v"
    by (simp add: page_ok_def mst0_def mst.defs kst.defs V2P_def KERNBASE_def PHYSTOP_def)
  obtain s :: mst where "kmem_inv [?v] s"
    using kpages.free_page [OF kmem_inv_mst0 ok] by auto
  with kalloc_kfree_conserve [OF this, of "[Alloc, Alloc, Free 0, Alloc]"] show ?thesis
    by auto
qed


section \<open>Initialisation\<close>

text \<open>The pages of a range, in the order of their addresses.\<close>

definition page_range :: "addr \<Rightarrow> addr \<Rightarrow> addr list" where
  "page_range p vend = map (\<lambda>i. p + of_nat i * PGSIZE) [0..<(unat vend - unat p) div 4096]"

lemma unat_page_next: "p < 0x8E000000 \<Longrightarrow> unat (p + PGSIZE) = unat p + 4096"
  by (simp add: PGSIZE_def unat_word_ariths word_less_nat_alt)

lemma page_range_step:
  assumes "p + PGSIZE \<le> vend" and "p < 0x8E000000"
  shows "page_range p vend = p # page_range (p + PGSIZE) vend"
proof -
  have n: "unat p + 4096 \<le> unat vend"
    using assms by (simp add: word_le_nat_alt unat_page_next)
  define k where "k = (unat vend - unat (p + PGSIZE)) div 4096"
  have "(unat vend - unat p) div 4096 = Suc k"
    using n by (simp add: k_def unat_page_next [OF assms(2)])
  then have "page_range p vend = map (\<lambda>i. p + of_nat i * PGSIZE) (0 # map Suc [0..<k])"
    unfolding page_range_def by (simp only: upt_conv_Cons map_Suc_upt zero_less_Suc)
  moreover have "map ((\<lambda>i. p + of_nat i * PGSIZE) \<circ> Suc) [0..<k] = page_range (p + PGSIZE) vend"
    unfolding page_range_def k_def [symmetric] by (simp add: distrib_right add.assoc)
  ultimately show ?thesis by simp
qed

lemma page_range_empty:
  assumes "\<not> p + PGSIZE \<le> vend" and "p < 0x8E000000"
  shows "page_range p vend = []"
  using assms by (simp add: page_range_def word_le_nat_alt unat_page_next)

lemma page_range_above:
  assumes "q \<in> set (page_range p vend)" and "p < 0x8E000000"
  shows "p \<le> q"
proof -
  from assms(1) obtain i where q: "q = p + of_nat i * PGSIZE" and i: "i < (unat vend - unat p) div 4096"
    by (auto simp: page_range_def)
  have "unat vend < 2 ^ 32" by (rule unat_less_2p32)
  with i have "unat p + i * 4096 < 2 ^ 32" by linarith
  then have "unat q = unat p + i * 4096"
    by (simp add: q PGSIZE_def unat_word_ariths unat_of_nat mod_simps)
  then show ?thesis by (simp add: word_le_nat_alt)
qed

lemma page_ok_interval:
  assumes "v mod PGSIZE = 0" and "e \<le> v" and "KERNBASE \<le> e" and "v < KERNBASE + PHYSTOP"
  shows "page_ok e v"
  using assms by (auto simp: page_ok_def page_consts) unat_arith+


lemma page_next_aligned: "p mod PGSIZE = 0 \<Longrightarrow> p < 0x8E000000 \<Longrightarrow> (p + PGSIZE) mod PGSIZE = 0"
  by (simp add: word_unat_eq_iff unat_mod_distrib unat_page_next) (simp add: PGSIZE_def)

declare freerange_loop.simps [simp del]

lemma freerange_loop_spec:
  assumes "kmem_inv ps s" and "p mod PGSIZE = 0" and "KERNBASE \<le> kend s" and "kend s \<le> p"
    and "p \<le> KERNBASE + PHYSTOP" and "vend \<le> KERNBASE + PHYSTOP"
    and "\<forall>q \<in> set ps. q < p"
  shows "\<exists>t. freerange_loop p vend s = Ret () t \<and> kmem_inv (rev (page_range p vend) @ ps) t \<and>
    use_lock t = use_lock s \<and> kend t = kend s"
  using assms
proof (induction "unat (0xFFFFFFFF - p)" arbitrary: p s ps rule: less_induct)
  case less
  show ?case
  proof (cases "p + PGSIZE \<le> vend")
    case False
    show ?thesis
    proof (cases "p < 0x8E000000")
      case True
      with False less.prems show ?thesis by (simp add: page_range_empty freerange_loop.simps)
    next
      case 2: False
      then have "p = 0x8E000000" using less.prems(5) by (simp add: page_consts)
      moreover have "unat vend \<le> 0x8E000000" using less.prems(6) by (simp add: page_consts word_le_nat_alt)
      ultimately have "page_range p vend = []" by (simp add: page_range_def)
      with False less.prems show ?thesis by (simp add: freerange_loop.simps)
    qed
  next
    case True
    have up: "unat p \<le> 0x8E000000" "unat vend \<le> 0x8E000000"
      using less.prems(5,6) by (simp_all add: page_consts word_le_nat_alt)
    then have "unat (p + 4096) = unat p + 4096" by (simp add: unat_word_ariths)
    with True up have "unat p + 4096 \<le> 0x8E000000" by (simp add: PGSIZE_def word_le_nat_alt)
    then have lt: "p < 0x8E000000" and nx: "p + PGSIZE \<le> 0x8E000000"
      using up by (simp_all add: word_less_nat_alt word_le_nat_alt PGSIZE_def unat_word_ariths)
    have gt: "p < p + PGSIZE" using unat_page_next [OF lt] by (simp add: word_less_nat_alt)
    have "page_ok (kend s) p"
      using page_ok_interval less.prems(2,3,4) lt by (simp add: page_consts)
    moreover have "p \<notin> set ps" using less.prems(7) by auto
    ultimately obtain t where t: "kfree p s = Ret () t" "kmem_inv (p # ps) t"
      and "kend t = kend s" "use_lock t = use_lock s"
      using kfree_Ret [OF less.prems(1)] kmem_inv_kfree [OF less.prems(1)] by simp
    have "unat (0xFFFFFFFF - (p + PGSIZE)) < unat (0xFFFFFFFF - p)"
      using lt unfolding PGSIZE_def by unat_arith
    moreover have "\<forall>q \<in> set (p # ps). q < p + PGSIZE"
      using less.prems(7) gt by (auto intro: order.strict_trans)
    moreover have "p + PGSIZE \<le> KERNBASE + PHYSTOP" using nx by (simp add: page_consts)
    moreover have "kend s \<le> p + PGSIZE" using less.prems(4) gt by simp
    ultimately have "\<exists>u. freerange_loop (p + PGSIZE) vend t = Ret () u \<and>
        kmem_inv (rev (page_range (p + PGSIZE) vend) @ p # ps) u \<and> use_lock u = use_lock t \<and> kend u = kend t"
      using less.hyps [OF _ t(2) page_next_aligned [OF less.prems(2) lt]] less.prems(3,6)
        \<open>kend t = kend s\<close> by metis
    then show ?thesis
      using True t(1) lt \<open>kend t = kend s\<close> \<open>use_lock t = use_lock s\<close>
      by (simp add: page_range_step freerange_loop.simps [of p])
  qed
qed

lemma and_not_4095: "(x :: addr) AND NOT 4095 = push_bit 12 (drop_bit 12 x)"
proof -
  have "(4095 :: addr) = mask 12" by (simp add: mask_eq_exp_minus_1)
  then have "x AND NOT 4095 = x AND NOT (mask 12)" by (simp only:)
  also have "\<dots> = push_bit 12 (drop_bit 12 x)" by (rule bit_word_eqI) (auto simp: bit_simps)
  finally show ?thesis .
qed

lemma PGROUNDUP_spec:
  assumes "v \<le> 0xFFFFF000"
  shows "PGROUNDUP v mod PGSIZE = 0" and "v \<le> PGROUNDUP v" and "unat (PGROUNDUP v) < unat v + 4096"
proof -
  have e: "PGROUNDUP v = push_bit 12 (drop_bit 12 (v + 4095))"
    using and_not_4095 [of "v + 4095"] by (simp add: PGROUNDUP_def PGSIZE_def add.commute)
  have "unat (v + 4095) = unat v + 4095" using assms by (simp add: unat_word_ariths word_le_nat_alt)
  moreover have "unat (PGROUNDUP v) = unat (v + 4095) div 4096 * 4096"
    using unat_less_2p32 [of "v + 4095"]
    by (simp add: e push_bit_eq_mult drop_bit_eq_div unat_word_ariths unat_div)
  ultimately have u: "unat (PGROUNDUP v) = (unat v + 4095) div 4096 * 4096" by simp
  show "PGROUNDUP v mod PGSIZE = 0"
    by (simp add: word_unat_eq_iff unat_mod_distrib u PGSIZE_def)
  have m: "(n + 4095) div 4096 * 4096 = n + 4095 - (n + 4095) mod 4096" "(n + 4095) mod 4096 < 4096" for n :: nat
    by (simp_all add: minus_mod_eq_div_mult)
  show "v \<le> PGROUNDUP v" using m [of "unat v"] by (simp add: word_le_nat_alt u)
  show "unat (PGROUNDUP v) < unat v + 4096" using m [of "unat v"] unfolding u by linarith
qed


text \<open>C38: \<open>kinit1\<close> turns every whole page between \<open>vstart\<close> and \<open>vend\<close> into a free page: it never
  panics, and afterwards the linked list in memory holds exactly these pages, the last one first.\<close>

theorem kinit1_free_list:
  assumes "KERNBASE \<le> kend s" and "kend s \<le> vstart" and "freelist s = 0"
    and "vstart \<le> KERNBASE + PHYSTOP - PGSIZE" and "vend \<le> KERNBASE + PHYSTOP"
  shows "\<exists>t. kinit1 vstart vend s = Ret () t \<and> kmem_inv (rev (page_range (PGROUNDUP vstart) vend)) t"
proof -
  define s1 where "s1 = s\<lparr>spin := (spin s)(LKmem := unlocked), use_lock := False\<rparr>"
  have i: "kmem_inv [] s1" "KERNBASE \<le> kend s1" using assms by (simp_all add: s1_def kmem_inv_def)
  have "vstart \<le> 0x8DFFF000" using assms by (simp add: page_consts)
  then have b: "vstart \<le> 0xFFFFF000" by (simp add: word_le_nat_alt)
  note r = PGROUNDUP_spec [OF b]
  have "unat vstart \<le> 0x8DFFF000" using assms(4) by (simp add: page_consts word_le_nat_alt)
  then have "PGROUNDUP vstart \<le> KERNBASE + PHYSTOP"
    using r(3) by (simp add: page_consts word_le_nat_alt)
  moreover have "kend s1 \<le> PGROUNDUP vstart" using assms(2) r(2) by (simp add: s1_def)
  ultimately have "\<exists>t. freerange_loop (PGROUNDUP vstart) vend s1 = Ret () t \<and>
      kmem_inv (rev (page_range (PGROUNDUP vstart) vend) @ []) t \<and> use_lock t = use_lock s1 \<and> kend t = kend s1"
    by (intro freerange_loop_spec [OF i(1) r(1) i(2) _ _ assms(5)]) simp_all
  moreover have "kinit1 vstart vend s = freerange_loop (PGROUNDUP vstart) vend s1"
    by (simp add: kinit1_def freerange_def kdefs initlock_def s1_def unlocked_def)
  ultimately show ?thesis by auto
qed

theorem kinit1_free_list_witness:
  "\<exists>t. kinit1 0x80200000 0x80202000 (mst0 0x80200000) = Ret () t \<and> kmem_inv [0x80201000, 0x80200000] t"
proof -
  have "PGROUNDUP 0x80200000 = 0x80200000" by (simp add: PGROUNDUP_def PGSIZE_def)
  moreover have "rev (page_range 0x80200000 0x80202000) = [0x80201000, 0x80200000]"
    by (simp add: page_range_def PGSIZE_def upt_rec)
  moreover have "kend (mst0 0x80200000) = 0x80200000" "freelist (mst0 0x80200000) = 0"
    by (simp_all add: mst0_def mst.defs kst.defs)
  ultimately show ?thesis
    using kinit1_free_list [of "mst0 0x80200000" "0x80200000" "0x80202000"] by (simp add: page_consts)
qed

end
