(* ===== verification/Sched.thy ===== *)
theory Sched
  imports Kalloc
begin

text \<open>
  The process table and the scheduling half of \<^verbatim>\<open>proc.c\<close>, with the structures of \<^verbatim>\<open>proc.h\<close>: looking up
  the running process, giving up the processor (\<open>sched\<close>, \<open>yield\<close>, \<open>sleep\<close>), \<open>wakeup\<close>, \<open>kill\<close>, the
  round-robin \<open>scheduler\<close>, and the share accounting of the stride and MLFQ modes (\<open>cpu_share\<close>,
  \<open>run_MLFQ\<close>, \<open>update_strd\<close>, \<open>init_pass\<close>).

  A pointer to a process is its index in \<open>ptable.proc\<close>, a null pointer is \<open>None\<close>. A routine that calls
  \<open>swtch\<close> into the scheduler blocks: its result \<open>Block s\<close> carries the state the scheduler finds.
\<close>

section \<open>Structures\<close>

definition NPROC :: nat where "NPROC = 64"
definition NOFILE :: nat where "NOFILE = 16"
definition KSTACKSIZE :: addr where "KSTACKSIZE = 4096"

datatype procstate = UNUSED | EMBRYO | SLEEPING | RUNNABLE | RUNNING | ZOMBIE

datatype sched_mode = STRD_SCHED | STRD_SET_SCHED | MLFQ_SCHED

datatype mlfq_lev = TOP | MID | LOW

record proc_strd =
  pass :: int
  stride :: int
  share :: int

record proc_mlfq =
  tick :: int
  lev :: mlfq_lev
  priority :: int

record proc_mlfqs =
  mpass :: int
  mstride :: int
  mshare :: int
  totaltick :: int
  topn :: int
  midn :: int
  lown :: int

record proc =
  sz :: addr
  pgdir :: addr
  kstack :: addr
  state :: procstate
  pid :: int
  parent :: "nat option"
  tf :: addr
  ctxt :: addr
  chan :: chan
  killed :: bool
  ofile :: "nat option list"
  cwd :: "nat option"
  name :: "byte list"
  mode :: sched_mode
  strd :: proc_strd
  mlfq :: proc_mlfq
  lwpid :: int
  lwppid :: int
  retval :: addr
  sbase :: addr
  snum :: nat
  forked :: bool

text \<open>
  The globals of \<^verbatim>\<open>proc.c\<close> and the running process \<open>c->proc\<close> of this processor. \<open>trapret\<close> and
  \<open>forkret\<close> are the addresses of the code a new process starts in, \<open>cr3\<close> the page table register and
  \<open>ts_esp0\<close> the kernel stack in the task state of this processor. \<open>sbase\<close> keeps the bits of the C
  \<open>int\<close>, which the code only uses as an address.
\<close>

record pst = mst +
  procs :: "proc list"
  cur :: "nat option"
  initproc :: "nat option"
  nextpid :: int
  nextlwpid :: int
  num_lwp :: int
  stable :: "bool list"
  mlfqs :: proc_mlfqs
  strd_share_sum :: int
  strd_sum :: int
  trapret :: addr
  forkret :: addr
  kpgdir :: addr
  cr3 :: addr
  ts_esp0 :: addr

definition pmod :: "nat \<Rightarrow> (proc \<Rightarrow> proc) \<Rightarrow> 'z pst_scheme \<Rightarrow> 'z pst_scheme" where
  "pmod i f s = s\<lparr>procs := upd i f (procs s)\<rparr>"

section \<open>The running process\<close>

definition pinit :: "('z pst_scheme, unit) kop" where
  "pinit = initlock LPtable"

definition cpuid :: "('z pst_scheme, nat) kop" where
  "cpuid = mycpu"

definition myproc :: "('z pst_scheme, nat option) kop" where
  "myproc =
     kseq pushcli (
     kseq mycpu (
     kbind (kget cur) (\<lambda>p.
     kseq popcli (
     kret p))))"

text \<open>\<open>myproc()->...\<close>: the running process, which must exist.\<close>

definition curproc :: "('z pst_scheme, nat) kop" where
  "curproc = kbind myproc kderef"

section \<open>Giving up the processor\<close>

definition swtch :: "('z pst_scheme, unit) kop" where
  "swtch s = Block s"

definition sched :: "('z pst_scheme, unit) kop" where
  "sched =
     kbind curproc (\<lambda>p.
     kbind (holding LPtable) (\<lambda>h.
     if \<not> h then kpanic ''sched ptable.lock'' else
     kseq mycpu (
     kbind (kget ncli) (\<lambda>n.
     if n \<noteq> 1 then kpanic ''sched locks'' else
     kbind (kget (\<lambda>s. state (procs s ! p))) (\<lambda>st.
     if st = RUNNING then kpanic ''sched running'' else
     kbind (kget ifl) (\<lambda>i.
     if i then kpanic ''sched interruptible'' else swtch))))))"

definition yield :: "('z pst_scheme, unit) kop" where
  "yield =
     kseq (acquire LPtable) (
     kbind curproc (\<lambda>p.
     kseq (kmod (pmod p (\<lambda>q. q\<lparr>state := RUNNABLE\<rparr>))) (
     kseq sched
       (release LPtable))))"

text \<open>The null check on \<open>lk\<close> has no counterpart: a lock identifier always names a lock.\<close>

definition sleep :: "Prelude.chan \<Rightarrow> lockid \<Rightarrow> ('z pst_scheme, unit) kop" where
  "sleep ch lk =
     kbind myproc (\<lambda>mp.
     case mp of None \<Rightarrow> kpanic ''sleep'' | Some p \<Rightarrow>
     kseq (kwhen (lk \<noteq> LPtable) (kseq (acquire LPtable) (release lk))) (
     kseq (kmod (pmod p (\<lambda>q. q\<lparr>chan := ch\<rparr>))) (
     kseq (kmod (pmod p (\<lambda>q. q\<lparr>state := SLEEPING\<rparr>)))
       sched)))"

text \<open>What \<open>sleep\<close> does when the scheduler resumes the process after its call of \<open>sched\<close>.\<close>

definition sleep_resume :: "nat \<Rightarrow> lockid \<Rightarrow> ('z pst_scheme, unit) kop" where
  "sleep_resume p lk =
     kseq (kmod (pmod p (\<lambda>q. q\<lparr>chan := CNone\<rparr>)))
       (kwhen (lk \<noteq> LPtable) (kseq (release LPtable) (acquire lk)))"

definition wakeup1 :: "Prelude.chan \<Rightarrow> ('z pst_scheme, unit) kop" where
  "wakeup1 ch = kmod (\<lambda>s. s\<lparr>procs :=
     map (\<lambda>p. if state p = SLEEPING \<and> chan p = ch then p\<lparr>state := RUNNABLE\<rparr> else p) (procs s)\<rparr>)"

definition wakeup :: "Prelude.chan \<Rightarrow> ('z pst_scheme, unit) kop" where
  "wakeup ch =
     kseq (acquire LPtable) (
     kseq (wakeup1 ch)
       (release LPtable))"

definition kill :: "int \<Rightarrow> ('z pst_scheme, int) kop" where
  "kill n =
     kbind curproc (\<lambda>cp.
     kseq (acquire LPtable) (
     kbind (kget (\<lambda>s. procs s ! cp)) (\<lambda>c.
     if lwpid c > 0 then
       kseq (kmod (\<lambda>s. s\<lparr>procs := map (\<lambda>p. if lwpid p > 0
          then p\<lparr>killed := True, state := (if state p = SLEEPING then RUNNABLE else state p)\<rparr> else p) (procs s)\<rparr>)) (
       kseq (release LPtable)
         (kret 0))
     else
       kbind (kget (\<lambda>s. first_index (\<lambda>p. pid p = n) (procs s))) (\<lambda>r.
       case r of
         Some i \<Rightarrow>
           kseq (kmod (pmod i (\<lambda>p. p\<lparr>killed := True, state := (if state p = SLEEPING then RUNNABLE else state p)\<rparr>))) (
           kseq (release LPtable)
             (kret 0))
       | None \<Rightarrow>
           kseq (release LPtable)
             (kret (- 1))))))"


section \<open>The scheduler\<close>

definition switchkvm :: "('z pst_scheme, unit) kop" where
  "switchkvm = kmod (\<lambda>s. s\<lparr>cr3 := V2P (kpgdir s)\<rparr>)"

text \<open>Of the task state segment only the kernel stack pointer depends on the process.\<close>

definition switchuvm :: "nat option \<Rightarrow> ('z pst_scheme, unit) kop" where
  "switchuvm mp =
     (case mp of None \<Rightarrow> kpanic ''switchuvm: no process'' | Some p \<Rightarrow>
      kbind (kget (\<lambda>s. procs s ! p)) (\<lambda>q.
      if kstack q = 0 then kpanic ''switchuvm: no kstack''
      else if pgdir q = 0 then kpanic ''switchuvm: no pgdir''
      else
        kseq pushcli (
        kseq mycpu (
        kseq (kmod (\<lambda>s. s\<lparr>ts_esp0 := kstack q + KSTACKSIZE\<rparr>)) (
        kseq (kmod (\<lambda>s. s\<lparr>cr3 := V2P (pgdir q)\<rparr>))
          popcli)))))"

text \<open>
  \<open>scheduler\<close> is the loop of the scheduler thread. \<open>sched_scan i\<close> is the table position at which the
  inner loop, started at position \<open>i\<close>, finds the next process to run. \<open>scheduler_for\<close> runs the inner
  loop up to the switch into that process (result \<open>Some j\<close>) or to the end of the table (\<open>None\<close>),
  \<open>scheduler_back\<close> is what follows the switch back, \<open>scheduler_enter\<close> and \<open>scheduler_leave\<close> frame one
  turn of the outer loop.
\<close>

definition sched_scan :: "nat \<Rightarrow> proc list \<Rightarrow> nat option" where
  "sched_scan i ps = map_option (\<lambda>k. i + k) (first_index (\<lambda>p. state p = RUNNABLE) (drop i ps))"

definition scheduler_enter :: "('z pst_scheme, unit) kop" where
  "scheduler_enter =
     kseq (kmod (\<lambda>s. s\<lparr>ifl := True\<rparr>))
       (acquire LPtable)"

definition scheduler_for :: "nat \<Rightarrow> ('z pst_scheme, nat option) kop" where
  "scheduler_for i =
     kbind (kget (\<lambda>s. sched_scan i (procs s))) (\<lambda>r.
     case r of None \<Rightarrow> kret None
     | Some j \<Rightarrow>
         kseq (kmod (\<lambda>s. s\<lparr>cur := Some j\<rparr>)) (
         kseq (switchuvm (Some j)) (
         kseq (kmod (pmod j (\<lambda>p. p\<lparr>state := RUNNING\<rparr>)))
           (kret (Some j)))))"

definition scheduler_back :: "('z pst_scheme, unit) kop" where
  "scheduler_back =
     kseq switchkvm
       (kmod (\<lambda>s. s\<lparr>cur := None\<rparr>))"

definition scheduler_leave :: "('z pst_scheme, unit) kop" where
  "scheduler_leave = release LPtable"

section \<open>Shares, strides and passes\<close>

definition get_num :: "sched_mode \<Rightarrow> proc list \<Rightarrow> int" where
  "get_num sm ps = int (length (filter (\<lambda>p. state p = RUNNABLE \<and> mode p = sm) ps))"

definition set_share :: "int \<Rightarrow> proc \<Rightarrow> proc" where
  "set_share v p = p\<lparr>strd := (strd p)\<lparr>share := v\<rparr>\<rparr>"

definition set_stride :: "int \<Rightarrow> proc \<Rightarrow> proc" where
  "set_stride v p = p\<lparr>strd := (strd p)\<lparr>stride := v\<rparr>\<rparr>"

definition set_pass :: "int \<Rightarrow> proc \<Rightarrow> proc" where
  "set_pass v p = p\<lparr>strd := (strd p)\<lparr>pass := v\<rparr>\<rparr>"

definition update_strd1 :: "int \<Rightarrow> int \<Rightarrow> nat \<Rightarrow> ('z pst_scheme, unit) kop" where
  "update_strd1 n1 n2 i =
     kbind (kget (\<lambda>s. procs s ! i)) (\<lambda>p.
     if state p \<noteq> RUNNABLE then kret ()
     else
       (case mode p of
          STRD_SCHED \<Rightarrow>
            kbind (kget strd_sum) (\<lambda>sum.
            kbind (kdiv sum n1) (\<lambda>sh.
            kseq (kmod (pmod i (set_share sh))) (
            kbind (kdiv 10001 sh) (\<lambda>st.
            kmod (pmod i (set_stride st))))))
        | STRD_SET_SCHED \<Rightarrow>
            kbind (kdiv 10001 (share (strd p))) (\<lambda>st.
            kmod (pmod i (set_stride st)))
        | MLFQ_SCHED \<Rightarrow>
            if n2 \<le> 0 then
              kseq (kmod (pmod i (set_share 0))) (
              kseq (kmod (pmod i (set_stride 0)))
                (kmod (\<lambda>s. s\<lparr>mlfqs := (mlfqs s)\<lparr>mshare := 0\<rparr>\<rparr>)))
            else
              kbind (kget (\<lambda>s. mshare (mlfqs s))) (\<lambda>ms.
              kbind (kdiv ms n2) (\<lambda>sh.
              kseq (kmod (pmod i (set_share sh))) (
              kbind (kdiv 10001 sh) (\<lambda>st.
              kmod (pmod i (set_stride st))))))))"

definition update_strd :: "('z pst_scheme, int) kop" where
  "update_strd =
     kbind (kget (\<lambda>s. get_num STRD_SCHED (procs s))) (\<lambda>n1.
     kbind (kget (\<lambda>s. get_num MLFQ_SCHED (procs s))) (\<lambda>n2.
     kseq (kfor (update_strd1 n1 n2) [0..<NPROC])
       (kret 0)))"

definition getlev :: "('z pst_scheme, mlfq_lev) kop" where
  "getlev = kbind curproc (\<lambda>p. kget (\<lambda>s. lev (mlfq (procs s ! p))))"

definition get_min_pass :: "('z pst_scheme, int) kop" where
  "get_min_pass =
     kseq (acquire LPtable) (
     kbind (kget (\<lambda>s. fold (\<lambda>p m. if state p = RUNNABLE \<and> (mode p = STRD_SCHED \<or> mode p = STRD_SET_SCHED) \<and> m > pass (strd p)
                               then pass (strd p) else m) (procs s) 99999999)) (\<lambda>mn.
     kseq (release LPtable) (
     kbind (kget (\<lambda>s. get_num MLFQ_SCHED (procs s))) (\<lambda>n.
     kbind (kget (\<lambda>s. mpass (mlfqs s))) (\<lambda>mp.
     kret (if n > 0 \<and> mn > mp then mp else mn))))))"

definition init_pass :: "('z pst_scheme, unit) kop" where
  "init_pass =
     kseq (kmod (\<lambda>s. s\<lparr>procs := map (\<lambda>p. if state p = RUNNABLE then set_pass 0 p else p) (procs s)\<rparr>))
       (kmod (\<lambda>s. s\<lparr>mlfqs := (mlfqs s)\<lparr>mpass := 0\<rparr>\<rparr>))"

definition cpu_share :: "int \<Rightarrow> ('z pst_scheme, int) kop" where
  "cpu_share sh =
     kbind curproc (\<lambda>p.
     kseq (acquire LPtable) (
     kbind (kget strd_share_sum) (\<lambda>ss.
     if ss < 0 \<or> sh < 0 then kpanic ''share_sum < 0 || share < 0'' else
     kseq (kmod (\<lambda>s. s\<lparr>strd_share_sum := wrap32 (strd_share_sum s + sh)\<rparr>)) (
     kseq (kmod (\<lambda>s. s\<lparr>strd_sum := wrap32 (strd_sum s - sh)\<rparr>)) (
     kseq (kmod (pmod p (\<lambda>q. q\<lparr>mode := STRD_SET_SCHED\<rparr>))) (
     kseq (kmod (pmod p (set_share sh))) (
     kbind (kget strd_share_sum) (\<lambda>ss1.
     if ss1 > 20 then
       kseq (kmod (\<lambda>s. s\<lparr>strd_share_sum := wrap32 (strd_share_sum s - sh)\<rparr>)) (
       kseq (kmod (\<lambda>s. s\<lparr>strd_sum := wrap32 (strd_sum s + sh)\<rparr>)) (
       kseq (kmod (pmod p (\<lambda>q. q\<lparr>mode := STRD_SCHED\<rparr>))) (
       kbind (kget (\<lambda>s. get_num MLFQ_SCHED (procs s))) (\<lambda>n.
       kbind (kget (\<lambda>s. get_num STRD_SCHED (procs s))) (\<lambda>m.
       kbind (kget strd_share_sum) (\<lambda>ss2.
       kseq (if n > 0 then kbind (kdiv (80 - ss2) m) (\<lambda>v. kmod (pmod p (set_share v)))
             else if n = 0 then kbind (kdiv (100 - ss2) m) (\<lambda>v. kmod (pmod p (set_share v)))
             else kpanic ''# of MLFQ running process < 0\<newline>'') (
       kseq update_strd (
       kseq init_pass (
       kseq (release LPtable)
         (kret 1))))))))))
     else
       kseq update_strd (
       kseq init_pass (
       kseq (release LPtable)
         (kret 0)))))))))))"

definition run_MLFQ :: "('z pst_scheme, int) kop" where
  "run_MLFQ =
     kbind curproc (\<lambda>p.
     kseq (acquire LPtable) (
     kseq (kmod (\<lambda>s. if mshare (mlfqs s) = 0
        then s\<lparr>mlfqs := (mlfqs s)\<lparr>mshare := 20, mstride := 500, mpass := 0\<rparr>, strd_sum := strd_sum s - 20\<rparr>
        else s)) (
     kseq (kmod (\<lambda>s. s\<lparr>mlfqs := (mlfqs s)\<lparr>topn := topn (mlfqs s) + 1\<rparr>\<rparr>)) (
     kseq (kmod (pmod p (\<lambda>q. q\<lparr>mode := MLFQ_SCHED,
             mlfq := (mlfq q)\<lparr>lev := TOP, priority := 0\<rparr>\<rparr>))) (
     kseq update_strd (
     kseq init_pass (
     kseq (release LPtable)
       (kret 0))))))))"

section \<open>Closed forms\<close>

lemma myproc_Ret: "kready s \<Longrightarrow> myproc s = Ret (cur s) (peek_st s)"
  by (auto simp: myproc_def lockdefs kdefs kready_def cpu_of_def peek_st_def)

lemma curproc_Ret: "kready s \<Longrightarrow> cur s = Some p \<Longrightarrow> curproc s = Ret p (peek_st s)"
  by (simp add: curproc_def kbind_Ret [OF myproc_Ret] kret_def)

lemma curproc_null: "kready s \<Longrightarrow> cur s = None \<Longrightarrow> curproc s = Panic ''trap''"
  by (simp add: curproc_def kbind_Ret [OF myproc_Ret] kpanic_def)

lemma peek_st_pst [simp]: "procs (peek_st s) = procs s" "cur (peek_st s) = cur s" "strd_sum (peek_st s) = strd_sum s"
  "strd_share_sum (peek_st s) = strd_share_sum s" "mlfqs (peek_st s) = mlfqs s"
  by (simp_all add: peek_st_def)

lemma lock_st_pst [simp]: "procs (lock_st lk s) = procs s" "cur (lock_st lk s) = cur s" "strd_sum (lock_st lk s) = strd_sum s"
  "strd_share_sum (lock_st lk s) = strd_share_sum s" "mlfqs (lock_st lk s) = mlfqs s"
  "procs (unlock_st lk s) = procs s" "cur (unlock_st lk s) = cur s" "strd_sum (unlock_st lk s) = strd_sum s"
  "strd_share_sum (unlock_st lk s) = strd_share_sum s" "mlfqs (unlock_st lk s) = mlfqs s"
  by (simp_all add: lock_st_def unlock_st_def)

lemma pmod_sel [simp]: "procs (pmod i f s) = upd i f (procs s)" "cur (pmod i f s) = cur s"
  "strd_sum (pmod i f s) = strd_sum s" "strd_share_sum (pmod i f s) = strd_share_sum s" "mlfqs (pmod i f s) = mlfqs s"
  "ifl (pmod i f s) = ifl s" "ncli (pmod i f s) = ncli s" "spin (pmod i f s) = spin s" "intena (pmod i f s) = intena s"
  "cpu_of (pmod i f s) = cpu_of s"
  by (simp_all add: pmod_def cpu_of_def)

text \<open>Running forward through the first operation of a sequence.\<close>

lemma myproc_then: "kready s \<Longrightarrow> kbind myproc f s = f (cur s) (peek_st s)"
  by (simp add: kdefs myproc_Ret)

lemma curproc_then: "kready s \<Longrightarrow> cur s = Some p \<Longrightarrow> kbind curproc f s = f p (peek_st s)"
  by (simp add: kdefs curproc_Ret)

lemmas krun = acquire_then release_then myproc_then curproc_then

lemma sched_Block:
  assumes "holds LPtable s" and "ncli s = 1" and "cur s = Some p" and "state (procs s ! p) \<noteq> RUNNING"
  shows "sched s = Block s"
proof -
  have k: "kready s" using assms(1) by (rule holds_kready)
  moreover have "curproc s = Ret p s" using curproc_Ret [OF k assms(3)] assms(2) by simp
  moreover have "holding LPtable s = Ret True s"
    using holding_Ret [OF k] assms(1,2) by (auto simp: holds_def held_by_def)
  moreover have "mycpu s = Ret (the (cpu_of s)) s" "\<not> ifl s"
    using mycpu_Ret [OF k] assms(1) by (simp_all add: holds_def)
  ultimately show ?thesis using assms by (simp add: sched_def kdefs swtch_def)
qed

lemma pmod_pmod: "pmod i f (pmod i g s) = pmod i (f \<circ> g) s"
  by (cases "i < length (procs s)") (simp_all add: pmod_def upd_def list_update_beyond)

text \<open>The state in which \<open>sleep\<close> leaves the processor to the scheduler.\<close>

definition asleep :: "Prelude.chan \<Rightarrow> proc \<Rightarrow> proc" where
  "asleep ch q = q\<lparr>chan := ch, state := SLEEPING\<rparr>"

definition sleep_st :: "nat \<Rightarrow> Prelude.chan \<Rightarrow> lockid \<Rightarrow> 'z pst_scheme \<Rightarrow> 'z pst_scheme" where
  "sleep_st p ch lk s =
     pmod p (asleep ch) (if lk = LPtable then s else unlock_st lk (lock_st LPtable s))"

lemma asleep_comp: "(\<lambda>q. q\<lparr>state := SLEEPING\<rparr>) \<circ> (\<lambda>q. q\<lparr>chan := ch\<rparr>) = asleep ch"
  by (simp add: fun_eq_iff asleep_def)

lemma sleep_Block:
  assumes "holds lk s" and "ncli s = 1" and "cur s = Some p" and "p < length (procs s)"
    and "lk = LPtable \<or> spin s LPtable = unlocked"
  shows "sleep ch lk s = Block (sleep_st p ch lk s)"
    and "holds LPtable (sleep_st p ch lk s)" and "ncli (sleep_st p ch lk s) = 1"
proof -
  define s1 where "s1 = (if lk = LPtable then s else unlock_st lk (lock_st LPtable s))"
  have k: "kready s" using assms(1) by (rule holds_kready)
  have m: "myproc s = Ret (Some p) s" using myproc_Ret [OF k] assms(2,3) by simp
  have h: "holds LPtable s1"
    using assms(1,2) holds_lock_st [OF k, of LPtable]
    by (cases "lk = LPtable") (auto simp: s1_def intro: holds_unlock_other)
  have r: "kwhen (lk \<noteq> LPtable) (kseq (acquire LPtable) (release lk)) s = Ret () s1"
  proof (cases "lk = LPtable")
    case True
    then show ?thesis by (simp add: s1_def kwhen_def)
  next
    case False
    then have "spin s LPtable = unlocked" using assms(5) by simp
    then have "kseq (acquire LPtable) (release lk) s = release lk (lock_st LPtable s)"
      by (simp add: acquire_then k)
    also have "\<dots> = Ret () s1"
      using False release_Ret [OF holds_lock_other [OF _ k assms(1)]] by (simp add: s1_def)
    finally show ?thesis using False by (simp add: kwhen_def)
  qed
  have n: "ncli s1 = 1" "cur s1 = Some p" "p < length (procs s1)" using assms by (simp_all add: s1_def)
  define t where "t = pmod p (asleep ch) s1"
  have t: "t = sleep_st p ch lk s" by (simp add: t_def s1_def sleep_st_def)
  have ht: "holds LPtable t" using h by (simp add: t_def cong: holds_cong)
  then show "holds LPtable (sleep_st p ch lk s)" by (simp add: t)
  show "ncli (sleep_st p ch lk s) = 1" using n by (simp add: t [symmetric] t_def)
  have "sched t = Block t"
    using ht n by (intro sched_Block [where p = p]) (simp_all add: t_def asleep_def)
  then have "kseq (kmod (pmod p (\<lambda>q. q\<lparr>chan := ch\<rparr>))) (kseq (kmod (pmod p (\<lambda>q. q\<lparr>state := SLEEPING\<rparr>))) sched) s1 = Block t"
    by (simp add: pmod_pmod asleep_comp t_def)
  then show "sleep ch lk s = Block (sleep_st p ch lk s)"
    by (simp add: sleep_def kseq_def [of "kwhen b c" for b c] kbind_def m r t)
qed

lemma wakeup_Ret:
  assumes "kready s" and "spin s LPtable = unlocked"
  shows "wakeup ch s = Ret () ((unlock_st LPtable (lock_st LPtable s))\<lparr>procs :=
     map (\<lambda>p. if state p = SLEEPING \<and> chan p = ch then p\<lparr>state := RUNNABLE\<rparr> else p) (procs s)\<rparr>)"
proof -
  let ?u = "(lock_st LPtable s)\<lparr>procs :=
     map (\<lambda>p. if state p = SLEEPING \<and> chan p = ch then p\<lparr>state := RUNNABLE\<rparr> else p) (procs s)\<rparr>"
  have "holds LPtable (lock_st LPtable s)" using assms(1) by (rule holds_lock_st)
  then have "holds LPtable ?u" by (simp add: holds_def cpu_of_def)
  then show ?thesis
    by (simp add: wakeup_def wakeup1_def acquire_then assms release_Ret)
      (simp add: unlock_st_def)
qed


section \<open>Round robin\<close>

text \<open>
  The processes the scheduler thread switches to, given its position in the table and the table it
  sees at each turn of its inner loop. Between two turns other processes and interrupts may have
  changed any entry.
\<close>

fun dispatches :: "nat \<Rightarrow> proc list list \<Rightarrow> nat list" where
  "dispatches i [] = []"
| "dispatches i (ps # pss) =
     (case sched_scan i ps of Some j \<Rightarrow> j # dispatches (Suc j) pss | None \<Rightarrow> dispatches 0 pss)"

lemma sched_scan_Some:
  "sched_scan i ps = Some j \<longleftrightarrow> i \<le> j \<and> j < length ps \<and> state (ps ! j) = RUNNABLE \<and>
     (\<forall>k. i \<le> k \<and> k < j \<longrightarrow> state (ps ! k) \<noteq> RUNNABLE)"
proof -
  have "sched_scan i ps = Some j \<longleftrightarrow> (i \<le> j \<and> first_index (\<lambda>p. state p = RUNNABLE) (drop i ps) = Some (j - i))"
    by (auto simp: sched_scan_def)
  also have "\<dots> \<longleftrightarrow> i \<le> j \<and> j < length ps \<and> state (ps ! j) = RUNNABLE \<and>
     (\<forall>k < j - i. state (ps ! (i + k)) \<noteq> RUNNABLE)"
    by (auto simp: first_index_Some)
  also have "\<dots> \<longleftrightarrow> i \<le> j \<and> j < length ps \<and> state (ps ! j) = RUNNABLE \<and>
     (\<forall>k. i \<le> k \<and> k < j \<longrightarrow> state (ps ! k) \<noteq> RUNNABLE)"
    by (metis add_diff_inverse_nat add_less_cancel_left le_add1 less_diff_conv2 linorder_not_less)
  finally show ?thesis .
qed

lemma sched_scan_None:
  "sched_scan i ps = None \<longleftrightarrow> (\<forall>k. i \<le> k \<and> k < length ps \<longrightarrow> state (ps ! k) \<noteq> RUNNABLE)"
  by (auto simp: sched_scan_def first_index_None all_set_conv_all_nth less_diff_conv)
    (metis add.commute le_add_diff_inverse)

text \<open>How many turns of the inner loop process \<open>t\<close> can still wait for.\<close>

definition rr_dist :: "nat \<Rightarrow> nat \<Rightarrow> nat" where
  "rr_dist t i = (if i \<le> t then t - i else NPROC + 1 + t - i)"

lemma rr_next:
  assumes "sched_scan i ps = Some j" and "j \<noteq> t" and "state (ps ! t) = RUNNABLE" and "t < NPROC"
    and "length ps = NPROC" and "i \<le> NPROC"
  shows "rr_dist t (Suc j) < rr_dist t i"
proof -
  from assms(1) have j: "i \<le> j" "j < NPROC" "\<forall>k. i \<le> k \<and> k < j \<longrightarrow> state (ps ! k) \<noteq> RUNNABLE"
    by (simp_all add: sched_scan_Some assms(5))
  then have "i \<le> t \<Longrightarrow> j < t" using assms(2,3) by (metis linorder_neqE_nat)
  with j assms(4,6) show ?thesis by (auto simp: rr_dist_def)
qed

lemma rr_wrap:
  assumes "sched_scan i ps = None" and "state (ps ! t) = RUNNABLE" and "t < NPROC"
    and "length ps = NPROC" and "i \<le> NPROC"
  shows "rr_dist t 0 < rr_dist t i"
proof -
  have "t < i" using assms by (metis sched_scan_None linorder_not_less)
  with assms(3,5) show ?thesis by (simp add: rr_dist_def)
qed

lemma rr_dispatched:
  assumes "\<forall>ps \<in> set pss. length ps = NPROC \<and> state (ps ! t) = RUNNABLE" and "t < NPROC" and "i \<le> NPROC"
    and "rr_dist t i < length pss"
  shows "t \<in> set (dispatches i pss)"
  using assms
proof (induction pss arbitrary: i)
  case Nil
  then show ?case by simp
next
  case (Cons ps pss)
  then have ps: "length ps = NPROC" "state (ps ! t) = RUNNABLE" by simp_all
  show ?case
  proof (cases "sched_scan i ps")
    case None
    from rr_wrap [OF None ps(2) Cons.prems(2) ps(1) Cons.prems(3)] Cons.prems None
    show ?thesis by (simp add: Cons.IH)
  next
    case (Some j)
    then have j: "Suc j \<le> NPROC" by (simp add: sched_scan_Some ps)
    show ?thesis
    proof (cases "j = t")
      case True
      with Some show ?thesis by simp
    next
      case False
      from rr_next [OF Some False ps(2) Cons.prems(2) ps(1) Cons.prems(3)] Cons.prems Some j
      show ?thesis by (simp add: Cons.IH)
    qed
  qed
qed

text \<open>C20: Round robin is starvation free. A process that stays \<open>RUNNABLE\<close> is run after at most
  \<open>NPROC + 1\<close> turns of the scheduler's inner loop, from any position of the scheduler and whatever
  happens to the other processes in the meantime.\<close>

theorem round_robin_bounded_wait:
  assumes "t < NPROC" and "i \<le> NPROC" and "NPROC < length pss"
    and "\<forall>ps \<in> set pss. length ps = NPROC \<and> state (ps ! t) = RUNNABLE"
  shows "t \<in> set (dispatches i (take (NPROC + 1) pss))"
proof (rule rr_dispatched)
  show "rr_dist t i < length (take (NPROC + 1) pss)"
    using assms(1-3) by (auto simp: rr_dist_def)
qed (use assms in \<open>auto dest: in_set_takeD\<close>)


section \<open>Share accounting\<close>

text \<open>
  A loop over the table whose body checks and updates one entry: it fails at the first entry that
  fails the check and otherwise updates every entry.
\<close>

lemma kfor_pointwise:
  assumes body: "\<And>i ps. i < length (procs s) \<Longrightarrow> length ps = length (procs s) \<Longrightarrow> ps ! i = procs s ! i \<Longrightarrow>
      body i (s\<lparr>procs := ps\<rparr>) = (if ok (procs s ! i) then Ret () (s\<lparr>procs := ps[i := f (procs s ! i)]\<rparr>) else Panic e)"
    and "n \<le> length (procs s)"
  shows "kfor body [0..<n] s = (if \<forall>p \<in> set (take n (procs s)). ok p
    then Ret () (s\<lparr>procs := map f (take n (procs s)) @ drop n (procs s)\<rparr>) else Panic e)"
  using assms(2)
proof (induction n)
  case 0
  then show ?case by (simp add: kdefs)
next
  case (Suc n)
  let ?ps = "map f (take n (procs s)) @ drop n (procs s)"
  have tk: "take (Suc n) (procs s) = take n (procs s) @ [procs s ! n]"
    using Suc.prems by (simp add: take_Suc_conv_app_nth)
  have d: "drop n (procs s) = procs s ! n # drop (Suc n) (procs s)"
    using Suc.prems by (simp add: Cons_nth_drop_Suc)
  have "body n (s\<lparr>procs := ?ps\<rparr>) = (if ok (procs s ! n) then Ret () (s\<lparr>procs := ?ps[n := f (procs s ! n)]\<rparr>) else Panic e)"
    using Suc.prems by (intro body) (auto simp: nth_append)
  moreover have "?ps[n := f (procs s ! n)] = map f (take (Suc n) (procs s)) @ drop (Suc n) (procs s)"
    using Suc.prems by (simp add: tk d list_update_append)
  ultimately show ?case using Suc by (auto simp: kfor_append kdefs tk)
qed

text \<open>What \<open>update_strd\<close> computes for one process, and when none of its divisions is by zero.\<close>

definition restride :: "int \<Rightarrow> int \<Rightarrow> int \<Rightarrow> int \<Rightarrow> proc \<Rightarrow> proc" where
  "restride n1 n2 sm ms p =
     (if state p \<noteq> RUNNABLE then p
      else case mode p of
        STRD_SCHED \<Rightarrow> set_stride (cquot 10001 (cquot sm n1)) (set_share (cquot sm n1) p)
      | STRD_SET_SCHED \<Rightarrow> set_stride (cquot 10001 (share (strd p))) p
      | MLFQ_SCHED \<Rightarrow> set_stride (cquot 10001 (cquot ms n2)) (set_share (cquot ms n2) p))"

definition strd_ok :: "int \<Rightarrow> int \<Rightarrow> int \<Rightarrow> int \<Rightarrow> proc \<Rightarrow> bool" where
  "strd_ok n1 n2 sm ms p \<longleftrightarrow> state p = RUNNABLE \<longrightarrow>
     (case mode p of
        STRD_SCHED \<Rightarrow> cquot sm n1 \<noteq> 0
      | STRD_SET_SCHED \<Rightarrow> share (strd p) \<noteq> 0
      | MLFQ_SCHED \<Rightarrow> cquot ms n2 \<noteq> 0)"

lemma get_num_pos: "p \<in> set ps \<Longrightarrow> state p = RUNNABLE \<Longrightarrow> 0 < get_num (mode p) ps"
  by (auto simp: get_num_def filter_empty_conv)

lemma update_strd_eq:
  fixes s :: "'z pst_scheme"
  assumes "length (procs s) = NPROC"
  defines "n1 \<equiv> get_num STRD_SCHED (procs s)" and "n2 \<equiv> get_num MLFQ_SCHED (procs s)"
  shows "update_strd s =
    (if \<forall>p \<in> set (procs s). strd_ok n1 n2 (strd_sum s) (mshare (mlfqs s)) p
     then Ret 0 (s\<lparr>procs := map (restride n1 n2 (strd_sum s) (mshare (mlfqs s))) (procs s)\<rparr>)
     else Panic ''trap'')"
proof -
  have "update_strd1 n1 n2 i (s\<lparr>procs := ps\<rparr>) =
      (if strd_ok n1 n2 (strd_sum s) (mshare (mlfqs s)) (procs s ! i)
       then Ret () (s\<lparr>procs := ps[i := restride n1 n2 (strd_sum s) (mshare (mlfqs s)) (procs s ! i)]\<rparr>)
       else Panic ''trap'')"
    if i: "i < length (procs s)" "length ps = length (procs s)" "ps ! i = procs s ! i" for i ps
  proof (cases "state (procs s ! i) = RUNNABLE")
    case False
    moreover have "ps[i := procs s ! i] = ps" using list_update_id [of ps i] i(3) by simp
    ultimately show ?thesis using i by (simp add: update_strd1_def restride_def strd_ok_def kdefs)
  next
    case True
    then have "0 < get_num (mode (procs s ! i)) (procs s)"
      using i(1) by (auto intro: get_num_pos)
    then show ?thesis using i True
      by (cases "mode (procs s ! i)")
        (simp_all add: update_strd1_def restride_def strd_ok_def kdefs n1_def n2_def pmod_def upd_def
          set_share_def set_stride_def)
  qed
  note b = this
  have "kfor (update_strd1 n1 n2) [0..<NPROC] s =
    (if \<forall>p \<in> set (take NPROC (procs s)). strd_ok n1 n2 (strd_sum s) (mshare (mlfqs s)) p
     then Ret () (s\<lparr>procs := map (restride n1 n2 (strd_sum s) (mshare (mlfqs s))) (take NPROC (procs s)) @ drop NPROC (procs s)\<rparr>)
     else Panic ''trap'')" 
    by (rule kfor_pointwise, rule b, assumption+, simp add: assms(1))
  then show ?thesis using assms(1) by (simp add: update_strd_def kdefs n1_def n2_def)
qed

lemma restride_same [simp]:
  "state (restride n1 n2 sm ms p) = state p" "mode (restride n1 n2 sm ms p) = mode p"
  by (auto simp: restride_def set_share_def set_stride_def split: sched_mode.split)

text \<open>
  The same in terms of the shares: a runnable process is starved when the integer division leaves
  it a share of zero.
\<close>

definition starved :: "'z pst_scheme \<Rightarrow> proc \<Rightarrow> bool" where
  "starved s p \<longleftrightarrow> state p = RUNNABLE \<and>
     (case mode p of
        STRD_SCHED \<Rightarrow> strd_sum s < get_num STRD_SCHED (procs s)
      | STRD_SET_SCHED \<Rightarrow> share (strd p) = 0
      | MLFQ_SCHED \<Rightarrow> mshare (mlfqs s) < get_num MLFQ_SCHED (procs s))"

lemma cquot_zero_iff: "0 \<le> a \<Longrightarrow> 0 < b \<Longrightarrow> cquot a b = 0 \<longleftrightarrow> a < b"
  by (simp add: cquot_nonneg) (metis div_pos_pos_trivial linorder_not_less pos_imp_zdiv_pos_iff less_irrefl)

lemma strd_ok_starved:
  assumes "p \<in> set (procs s)" and "0 \<le> strd_sum s" and "0 \<le> mshare (mlfqs s)"
  shows "strd_ok (get_num STRD_SCHED (procs s)) (get_num MLFQ_SCHED (procs s)) (strd_sum s) (mshare (mlfqs s)) p
    = (\<not> starved s p)"
  using get_num_pos [OF assms(1)] assms(2,3)
  by (auto simp: strd_ok_def starved_def cquot_zero_iff split: sched_mode.splits)

definition shares_of :: "sched_mode \<Rightarrow> proc list \<Rightarrow> int" where
  "shares_of m ps = sum_list (map (\<lambda>p. share (strd p)) (filter (\<lambda>p. state p = RUNNABLE \<and> mode p = m) ps))"

lemma shares_of_const:
  assumes "\<And>p. p \<in> set ps \<Longrightarrow> state p = RUNNABLE \<Longrightarrow> mode p = m \<Longrightarrow> share (strd p) = v"
  shows "shares_of m ps = get_num m ps * v"
  using assms by (induction ps) (auto simp: shares_of_def get_num_def algebra_simps)

lemma get_num_restride [simp]: "get_num m (map (restride a b c d) ps) = get_num m ps"
  by (simp add: get_num_def filter_map o_def)

lemma shares_of_restride:
  assumes "0 \<le> v" and "0 \<le> get_num m ps" and "\<And>p. state p = RUNNABLE \<Longrightarrow> mode p = m \<Longrightarrow>
      share (strd (restride a b c d p)) = cquot v (get_num m ps)"
  shows "shares_of m (map (restride a b c d) ps) \<le> v"
proof -
  have "shares_of m (map (restride a b c d) ps) = get_num m ps * cquot v (get_num m ps)"
    using assms(3) by (subst shares_of_const [where v = "cquot v (get_num m ps)"]) auto
  also have "\<dots> \<le> v"
    using assms(1,2) by (cases "get_num m ps = 0") (simp_all add: cquot_nonneg minus_mod_eq_mult_div [symmetric])
  finally show ?thesis .
qed


text \<open>C24: \<open>update_strd\<close> on every branch. It divides by zero, which is a kernel panic, exactly when some
  runnable process would get a share of zero; otherwise every runnable process gets its share
  and the stride that belongs to it, nothing else changes, and the shares given to the processes in
  stride mode and in MLFQ mode never exceed \<open>strd_sum\<close> and \<open>mlfqs.share\<close>.\<close>

theorem update_strd_functional:
  fixes s :: "'z pst_scheme"
  assumes "length (procs s) = NPROC" and "0 \<le> strd_sum s" and "0 \<le> mshare (mlfqs s)"
  shows "update_strd s = Panic ''trap'' \<and> (\<exists>p \<in> set (procs s). starved s p) \<or>
    (\<exists>ps. update_strd s = Ret 0 (s\<lparr>procs := ps\<rparr>) \<and> (\<forall>p \<in> set (procs s). \<not> starved s p) \<and>
      ps = map (restride (get_num STRD_SCHED (procs s)) (get_num MLFQ_SCHED (procs s))
                  (strd_sum s) (mshare (mlfqs s))) (procs s) \<and>
      shares_of STRD_SCHED ps \<le> strd_sum s \<and> shares_of MLFQ_SCHED ps \<le> mshare (mlfqs s))"
proof -
  let ?r = "restride (get_num STRD_SCHED (procs s)) (get_num MLFQ_SCHED (procs s)) (strd_sum s) (mshare (mlfqs s))"
  have "0 \<le> get_num m (procs s)" for m by (simp add: get_num_def)
  then have "shares_of STRD_SCHED (map ?r (procs s)) \<le> strd_sum s"
      "shares_of MLFQ_SCHED (map ?r (procs s)) \<le> mshare (mlfqs s)"
    using assms(2,3) by (auto intro!: shares_of_restride simp: restride_def set_share_def set_stride_def)
  then show ?thesis
    using assms by (cases "\<exists>p \<in> set (procs s). starved s p") (auto simp: update_strd_eq strd_ok_starved)
qed

definition share_inv :: "'z pst_scheme \<Rightarrow> bool" where
  "share_inv s \<longleftrightarrow> strd_sum s + strd_share_sum s + mshare (mlfqs s) = 100 \<and>
     0 \<le> strd_share_sum s \<and> strd_share_sum s \<le> 20 \<and> mshare (mlfqs s) \<in> {0, 20}"

lemma share_inv_cong:
  "strd_sum t = strd_sum s \<Longrightarrow> strd_share_sum t = strd_share_sum s \<Longrightarrow> mshare (mlfqs t) = mshare (mlfqs s) \<Longrightarrow>
     share_inv t = share_inv s"
  by (simp add: share_inv_def)

lemma init_pass_Ret: "init_pass s = Ret () (s\<lparr>procs := map (\<lambda>p. if state p = RUNNABLE then set_pass 0 p else p) (procs s),
    mlfqs := (mlfqs s)\<lparr>mpass := 0\<rparr>\<rparr>)"
  by (simp add: init_pass_def kdefs)

text \<open>The common tail of \<open>cpu_share\<close> and \<open>run_MLFQ\<close>.\<close>

definition rebalance :: "int \<Rightarrow> ('z pst_scheme, int) kop" where
  "rebalance r = kseq update_strd (kseq init_pass (kseq (release LPtable) (kret r)))"

lemma rebalance_Ret:
  assumes "length (procs s) = NPROC" and "holds LPtable s" and "0 \<le> strd_sum s" and "0 \<le> mshare (mlfqs s)"
    and "\<forall>p \<in> set (procs s). \<not> starved s p"
  shows "\<exists>t. rebalance r s = Ret r t \<and> strd_sum t = strd_sum s \<and> strd_share_sum t = strd_share_sum s \<and>
    mshare (mlfqs t) = mshare (mlfqs s) \<and> length (procs t) = NPROC \<and>
    kready t \<and> spin t LPtable = unlocked \<and> cur t = cur s \<and>
    (\<forall>i < NPROC. mode (procs t ! i) = mode (procs s ! i) \<and> state (procs t ! i) = state (procs s ! i) \<and>
      (state (procs s ! i) \<noteq> RUNNABLE \<longrightarrow> procs t ! i = procs s ! i))"
proof -
  define ps where "ps = map (\<lambda>p. if state p = RUNNABLE then set_pass 0 p else p)
     (map (restride (get_num STRD_SCHED (procs s)) (get_num MLFQ_SCHED (procs s)) (strd_sum s) (mshare (mlfqs s))) (procs s))"
  define u where "u = s\<lparr>procs := ps, mlfqs := (mlfqs s)\<lparr>mpass := 0\<rparr>\<rparr>"
  have "holds LPtable u" using assms(2) by (simp add: u_def holds_def cpu_of_def)
  moreover have "update_strd s = Ret 0 (s\<lparr>procs := map (restride (get_num STRD_SCHED (procs s))
      (get_num MLFQ_SCHED (procs s)) (strd_sum s) (mshare (mlfqs s))) (procs s)\<rparr>)"
    using assms by (simp add: update_strd_eq strd_ok_starved)
  ultimately have "rebalance r s = Ret r (unlock_st LPtable u)"
    by (simp add: rebalance_def kdefs init_pass_Ret release_Ret u_def ps_def)
  moreover have "procs u ! i = procs s ! i" if "i < NPROC" "state (procs s ! i) \<noteq> RUNNABLE" for i
    using that assms(1) by (simp add: u_def ps_def restride_def)
  moreover have "mode (procs u ! i) = mode (procs s ! i)" "state (procs u ! i) = state (procs s ! i)" if "i < NPROC" for i
    using that assms(1) by (simp_all add: u_def ps_def set_pass_def)
  moreover have "kready (unlock_st LPtable u)" using \<open>holds LPtable u\<close> by (rule kready_unlock_st)
  ultimately show ?thesis using assms(1) by (simp add: u_def ps_def)
qed


lemma get_num_upd:
  "state (ps ! i) \<noteq> RUNNABLE \<Longrightarrow> state (f (ps ! i)) \<noteq> RUNNABLE \<Longrightarrow> get_num m (upd i f ps) = get_num m ps"
  by (simp add: get_num_def filter_upd)

lemma share_inv_bounds: "share_inv s \<Longrightarrow> 60 \<le> strd_sum s \<and> strd_sum s \<le> 100 \<and> 0 \<le> mshare (mlfqs s)"
  by (auto simp: share_inv_def)

text \<open>The two ends of \<open>cpu_share\<close>, after the reservation was made and after it was rolled back.\<close>

definition reserve_st :: "nat \<Rightarrow> int \<Rightarrow> 'z pst_scheme \<Rightarrow> 'z pst_scheme" where
  "reserve_st p sh s = pmod p (\<lambda>q. set_share sh (q\<lparr>mode := STRD_SET_SCHED\<rparr>))
     ((lock_st LPtable (peek_st s))\<lparr>strd_share_sum := strd_share_sum s + sh, strd_sum := strd_sum s - sh\<rparr>)"

definition rollback_st :: "nat \<Rightarrow> int \<Rightarrow> 'z pst_scheme \<Rightarrow> 'z pst_scheme" where
  "rollback_st p v s = pmod p (\<lambda>q. set_share v (q\<lparr>mode := STRD_SCHED\<rparr>)) (lock_st LPtable (peek_st s))"

lemma pst_upd_sel [simp]:
  "procs (s\<lparr>strd_sum := a\<rparr>) = procs s" "procs (s\<lparr>strd_share_sum := a\<rparr>) = procs s"
  by simp_all

lemma cpu_share_eq:
  fixes s :: "'z pst_scheme"
  assumes "kready s" and "spin s LPtable = unlocked" and "cur s = Some p" and "p < NPROC"
    and "length (procs s) = NPROC" and "state (procs s ! p) \<noteq> RUNNABLE" and "share_inv s"
    and "0 \<le> sh" and "sh < 2 ^ 31 - 20"
  shows "cpu_share sh s =
    (if strd_share_sum s + sh \<le> 20 then rebalance 0 (reserve_st p sh s)
     else let m = get_num STRD_SCHED (procs s); n = get_num MLFQ_SCHED (procs s) in
       if m = 0 then Panic ''trap''
       else rebalance 1 (rollback_st p (cquot ((if n > 0 then 80 else 100) - strd_share_sum s) m) s))"
proof -
  have b: "0 \<le> strd_share_sum s" "strd_share_sum s \<le> 20" "60 \<le> strd_sum s" "strd_sum s \<le> 100"
    using assms(7) share_inv_bounds by (auto simp: share_inv_def)
  have w: "wrap32 (strd_share_sum s + sh) = strd_share_sum s + sh" "wrap32 (strd_sum s - sh) = strd_sum s - sh"
      "wrap32 (strd_share_sum s) = strd_share_sum s" "wrap32 (strd_sum s) = strd_sum s"
    using b assms(8,9) by (simp_all add: wrap32_id)
  define s1 where "s1 = lock_st LPtable (peek_st s)"
  have a: "kseq (acquire LPtable) n (peek_st s) = n s1" for n :: "('z pst_scheme, int) kop"
    using assms(1,2) by (simp add: acquire_then s1_def)
  have s1: "strd_sum s1 = strd_sum s" "strd_share_sum s1 = strd_share_sum s" "procs s1 = procs s" "mlfqs s1 = mlfqs s"
    by (simp_all add: s1_def)
  define s2 where "s2 = reserve_st p sh s"
  have s2: "s2 = pmod p (set_share sh) (pmod p (\<lambda>q. q\<lparr>mode := STRD_SET_SCHED\<rparr>)
      (s1\<lparr>strd_share_sum := strd_share_sum s + sh, strd_sum := strd_sum s - sh\<rparr>))"
    by (simp add: s2_def reserve_st_def s1_def pmod_pmod o_def)
  have s3: "pmod p (set_share v) (pmod p (\<lambda>q. q\<lparr>mode := STRD_SCHED\<rparr>) (s2\<lparr>strd_share_sum := strd_share_sum s, strd_sum := strd_sum s\<rparr>)) =
      rollback_st p v s" for v
    unfolding rollback_st_def s1_def [symmetric] s2 using s1(1,2)
    by (cases s1) (simp add: pmod_def o_def, rule upd_cong, simp add: set_share_def)
  have g: "get_num m (upd p (\<lambda>q. q\<lparr>mode := STRD_SCHED\<rparr>) (procs s2)) = get_num m (procs s)" for m
    using assms(6) by (simp add: s2 s1 o_def set_share_def get_num_upd)
  have s2s: "strd_share_sum s2 = strd_share_sum s + sh" "strd_sum s2 = strd_sum s - sh"
    by (simp_all add: s2)
  have i: "cpu_share sh s = (if strd_share_sum s + sh > 20 then
       kseq (kmod (\<lambda>s. s\<lparr>strd_share_sum := wrap32 (strd_share_sum s - sh)\<rparr>)) (
       kseq (kmod (\<lambda>s. s\<lparr>strd_sum := wrap32 (strd_sum s + sh)\<rparr>)) (
       kseq (kmod (pmod p (\<lambda>q. q\<lparr>mode := STRD_SCHED\<rparr>))) (
       kbind (kget (\<lambda>s. get_num MLFQ_SCHED (procs s))) (\<lambda>n.
       kbind (kget (\<lambda>s. get_num STRD_SCHED (procs s))) (\<lambda>m.
       kbind (kget strd_share_sum) (\<lambda>ss2.
       kseq (if n > 0 then kbind (kdiv (80 - ss2) m) (\<lambda>v. kmod (pmod p (set_share v)))
             else if n = 0 then kbind (kdiv (100 - ss2) m) (\<lambda>v. kmod (pmod p (set_share v)))
             else kpanic ''# of MLFQ running process < 0\<newline>'') (rebalance 1)))))))
     else rebalance 0) s2"
    using assms(8) b(1) w(1,2) unfolding cpu_share_def rebalance_def
    by (simp add: curproc_then assms(1,3) a s1 s2)
  show ?thesis
    using w(3,4) b
    by (simp add: i s2s g Let_def kdiv_def s2_def [symmetric]) (auto simp: kdefs s3 s2s get_num_def)
qed


text \<open>A state in which the running process \<open>p\<close> may enter a system call that takes \<open>ptable.lock\<close>.\<close>

definition in_proc :: "nat \<Rightarrow> 'z pst_scheme \<Rightarrow> bool" where
  "in_proc p s \<longleftrightarrow> kready s \<and> spin s LPtable = unlocked \<and> cur s = Some p \<and> p < NPROC \<and>
     length (procs s) = NPROC \<and> state (procs s ! p) = RUNNING"

lemma starved_upd:
  assumes "state (procs s ! p) \<noteq> RUNNABLE" and "\<And>q. state (f q) = state q"
    and "procs t = upd p f (procs s)" and "strd_sum t = strd_sum s'" and "mlfqs t = mlfqs s'" and "procs s' = procs s"
    and "\<forall>q \<in> set (procs s). \<not> starved s' q"
  shows "\<forall>q \<in> set (procs t). \<not> starved t q"
proof
  fix q assume "q \<in> set (procs t)"
  then have "q \<in> set (procs s) \<or> q = f (procs s ! p)" using set_upd_subset assms(3) by metis
  moreover have "starved t q = starved s' q" for q
    using assms(1-6) by (simp add: starved_def get_num_upd split: sched_mode.split)
  ultimately show "\<not> starved t q" using assms(1,2,7) by (auto simp: starved_def)
qed

lemma reserve_st_sel:
  assumes "in_proc p s"
  shows "procs (reserve_st p sh s) = upd p (\<lambda>q. set_share sh (q\<lparr>mode := STRD_SET_SCHED\<rparr>)) (procs s)"
    "strd_sum (reserve_st p sh s) = strd_sum s - sh" "strd_share_sum (reserve_st p sh s) = strd_share_sum s + sh"
    "mlfqs (reserve_st p sh s) = mlfqs s" "holds LPtable (reserve_st p sh s)"
proof -
  have "holds LPtable (lock_st LPtable (peek_st s))" using assms by (simp add: in_proc_def holds_lock_st)
  then show "holds LPtable (reserve_st p sh s)" by (simp add: reserve_st_def holds_def cpu_of_def pmod_def)
qed (simp_all add: reserve_st_def)

lemma rollback_st_sel:
  assumes "in_proc p s"
  shows "procs (rollback_st p v s) = upd p (\<lambda>q. set_share v (q\<lparr>mode := STRD_SCHED\<rparr>)) (procs s)"
    "strd_sum (rollback_st p v s) = strd_sum s" "strd_share_sum (rollback_st p v s) = strd_share_sum s"
    "mlfqs (rollback_st p v s) = mlfqs s" "holds LPtable (rollback_st p v s)"
proof -
  have "holds LPtable (lock_st LPtable (peek_st s))" using assms by (simp add: in_proc_def holds_lock_st)
  then show "holds LPtable (rollback_st p v s)" by (simp add: rollback_st_def holds_def cpu_of_def pmod_def)
qed (simp_all add: rollback_st_def)

lemma cpu_share_accepts:
  assumes "in_proc p s" and "share_inv s" and "0 \<le> sh" and "strd_share_sum s + sh \<le> 20"
    and "\<forall>q \<in> set (procs s). \<not> starved (s\<lparr>strd_sum := strd_sum s - sh\<rparr>) q"
  shows "\<exists>t. cpu_share sh s = Ret 0 t \<and> share_inv t \<and> strd_share_sum t = strd_share_sum s + sh \<and>
    mode (procs t ! p) = STRD_SET_SCHED \<and> share (strd (procs t ! p)) = sh \<and> in_proc p t \<and>
    (\<forall>i < NPROC. state (procs t ! i) = state (procs s ! i))"
proof -
  let ?u = "reserve_st p sh s"
  note u = reserve_st_sel [OF assms(1), of sh]
  have b: "0 \<le> strd_share_sum s" "strd_sum s \<ge> 60" "0 \<le> mshare (mlfqs s)"
    using assms(2) share_inv_bounds [OF assms(2)] by (auto simp: share_inv_def)
  have "\<forall>q \<in> set (procs ?u). \<not> starved ?u q"
    using assms(1,5) u by (intro starved_upd [where s = s and s' = "s\<lparr>strd_sum := strd_sum s - sh\<rparr>"])
      (auto simp: in_proc_def set_share_def)
  then obtain t where t: "rebalance 0 ?u = Ret 0 t" "strd_sum t = strd_sum ?u" "strd_share_sum t = strd_share_sum ?u"
      "mshare (mlfqs t) = mshare (mlfqs ?u)" "procs t ! p = procs ?u ! p" "length (procs t) = NPROC"
      "kready t" "spin t LPtable = unlocked" "cur t = cur ?u" "\<forall>i < NPROC. state (procs t ! i) = state (procs ?u ! i)"
    using rebalance_Ret [of ?u 0] assms(1,4) b u by (auto simp: in_proc_def set_share_def)
  moreover have "cpu_share sh s = rebalance 0 ?u"
    using assms(1-4) b by (subst cpu_share_eq [where p = p]) (auto simp: in_proc_def)
  moreover have "state (procs ?u ! i) = state (procs s ! i)" if "i < NPROC" for i
    using that assms(1) u(1) by (simp add: nth_upd in_proc_def set_share_def)
  moreover have "cur ?u = cur s" by (simp add: reserve_st_def)
  ultimately show ?thesis using assms(1-4) u
    by (auto simp: in_proc_def share_inv_def set_share_def)
qed


lemma cpu_share_rejects:
  assumes "in_proc p s" and "share_inv s" and "20 < strd_share_sum s + sh" and "sh < 2 ^ 31 - 20"
    and "0 < get_num STRD_SCHED (procs s)" and "\<forall>q \<in> set (procs s). \<not> starved s q"
  shows "\<exists>t. cpu_share sh s = Ret 1 t \<and> share_inv t \<and> strd_share_sum t = strd_share_sum s \<and>
    mode (procs t ! p) = STRD_SCHED"
proof -
  define v where "v = cquot ((if get_num MLFQ_SCHED (procs s) > 0 then 80 else 100) - strd_share_sum s) (get_num STRD_SCHED (procs s))"
  let ?u = "rollback_st p v s"
  note u = rollback_st_sel [OF assms(1), of v]
  have b: "0 \<le> strd_share_sum s" "strd_share_sum s \<le> 20" "strd_sum s \<ge> 60" "0 \<le> mshare (mlfqs s)"
    using assms(2) share_inv_bounds [OF assms(2)] by (auto simp: share_inv_def)
  have "\<forall>q \<in> set (procs ?u). \<not> starved ?u q"
  proof (rule starved_upd [OF _ _ u(1,2,4) refl assms(6)])
    show "state (procs s ! p) \<noteq> RUNNABLE" using assms(1) by (simp add: in_proc_def)
  qed (simp add: set_share_def)
  then obtain t where t: "rebalance 1 ?u = Ret 1 t" "strd_sum t = strd_sum ?u" "strd_share_sum t = strd_share_sum ?u"
      "mshare (mlfqs t) = mshare (mlfqs ?u)" "procs t ! p = procs ?u ! p"
    using rebalance_Ret [of ?u 1] assms(1) b u(1-4) u(5) by (auto simp: in_proc_def set_share_def)
  moreover have "cpu_share sh s = rebalance 1 ?u"
    using assms(1-5) b by (subst cpu_share_eq [where p = p]) (simp_all add: in_proc_def Let_def v_def)
  ultimately show ?thesis using assms(1,2) u
    by (auto simp: in_proc_def share_inv_def set_share_def)
qed


text \<open>C36: Refusing a reservation can crash the kernel. The rejected caller is running, not runnable, so
  it is not counted among the stride processes; when no other stride process is runnable, the
  refusal divides by zero.\<close>

theorem cpu_share_reject_divides_by_zero:
  assumes "in_proc p s" and "share_inv s" and "20 < strd_share_sum s + sh" and "sh < 2 ^ 31 - 20"
    and "\<forall>q \<in> set (procs s). state q = RUNNABLE \<longrightarrow> mode q \<noteq> STRD_SCHED"
  shows "cpu_share sh s = Panic ''trap''"
proof -
  have "0 \<le> sh" using assms(2,3) by (simp add: share_inv_def)
  moreover have "get_num STRD_SCHED (procs s) = 0" using assms(5) by (auto simp: get_num_def filter_empty_conv)
  ultimately show ?thesis
    using assms(1-4) by (subst cpu_share_eq [where p = p]) (auto simp: in_proc_def Let_def)
qed

text \<open>C37: A process that reserves twice keeps only its second reservation, but both are charged to the
  total; \<open>exit\<close> gives back only the recorded one, so the first is lost for good.\<close>

theorem cpu_share_twice_leaks:
  assumes "in_proc p s" and "share_inv s" and "0 \<le> a" and "0 \<le> b" and "strd_share_sum s + a + b \<le> 20"
    and "\<forall>q \<in> set (procs s). state q \<noteq> RUNNABLE"
  shows "\<exists>t u. cpu_share a s = Ret 0 t \<and> cpu_share b t = Ret 0 u \<and>
    strd_share_sum u = strd_share_sum s + a + b \<and> share (strd (procs u ! p)) = b"
proof -
  have "strd_share_sum s + a \<le> 20" using assms(4,5) by simp
  moreover have "\<forall>q \<in> set (procs s). \<not> starved (s\<lparr>strd_sum := strd_sum s - a\<rparr>) q"
    using assms(6) by (simp add: starved_def)
  ultimately obtain t where t: "cpu_share a s = Ret 0 t" "share_inv t" "strd_share_sum t = strd_share_sum s + a"
      "in_proc p t" "\<forall>i < NPROC. state (procs t ! i) = state (procs s ! i)"
    using cpu_share_accepts [OF assms(1-3)] by auto
  have "\<forall>q \<in> set (procs t). state q \<noteq> RUNNABLE"
    using t(4,5) assms(1,6) by (simp add: all_set_conv_all_nth in_proc_def)
  then have "\<forall>q \<in> set (procs t). \<not> starved (t\<lparr>strd_sum := strd_sum t - b\<rparr>) q"
    by (simp add: starved_def)
  with cpu_share_accepts [OF t(4,2) assms(4)] assms(5) t(1,3) show ?thesis by auto
qed

section \<open>A small machine\<close>

text \<open>Process 1 runs, process 2 is runnable in stride mode, process 0 is \<open>init\<close>, the rest is free.\<close>

definition proc0 :: proc where
  "proc0 = \<lparr>sz = 0, pgdir = 0, kstack = 0, state = UNUSED, pid = 0, parent = None, tf = 0, ctxt = 0,
     chan = CNone, killed = False, ofile = replicate 16 None, cwd = None, name = [],
     mode = STRD_SCHED, strd = \<lparr>pass = 0, stride = 0, share = 0\<rparr>, mlfq = \<lparr>tick = 0, lev = TOP, priority = 0\<rparr>,
     lwpid = 0, lwppid = 0, retval = 0, sbase = 0, snum = 0, forked = False\<rparr>"

definition procs0 :: "procstate \<Rightarrow> proc list" where
  "procs0 st = [proc0\<lparr>state := SLEEPING, pid := 1, chan := CProc 0\<rparr>, proc0\<lparr>state := RUNNING, pid := 2, parent := Some 0\<rparr>,
     proc0\<lparr>state := st, pid := 3, parent := Some 0\<rparr>] @ replicate 61 proc0"

definition pst0 :: "procstate \<Rightarrow> pst" where
  "pst0 st = mst.extend (mst0 0x80200000) (pst.fields (procs0 st) (Some 1) (Some 0) 4 1 0 (replicate 3200 False)
     \<lparr>mpass = 0, mstride = 0, mshare = 0, totaltick = 0, topn = 0, midn = 0, lown = 0\<rparr> 0 100 0 0 0 0 0)"

lemma pst0_simps [simp]:
  "procs (pst0 st) = procs0 st" "cur (pst0 st) = Some 1" "strd_sum (pst0 st) = 100" "strd_share_sum (pst0 st) = 0"
  "mshare (mlfqs (pst0 st)) = 0" "spin (pst0 st) lk = unlocked" "ncli (pst0 st) = 0" "ifl (pst0 st)" "cpu_of (pst0 st) = Some 0"
  "procs (pst.more_update g (pst0 st)) = procs0 st"
  by (simp_all add: pst0_def pst.defs mst.defs mst0_def kst.defs kst0_def cpu_of_def)

lemma procs0_simps [simp]:
  "length (procs0 st) = NPROC" "procs0 st ! 1 = proc0\<lparr>state := RUNNING, pid := 2, parent := Some 0\<rparr>"
  "procs0 st ! Suc 0 = proc0\<lparr>state := RUNNING, pid := 2, parent := Some 0\<rparr>"
  "procs0 st ! 2 = proc0\<lparr>state := st, pid := 3, parent := Some 0\<rparr>"
  by (simp_all add: procs0_def NPROC_def numeral_2_eq_2)

lemma in_proc_pst0: "in_proc 1 (pst0 st)"
  by (simp add: in_proc_def kready_def) (simp add: NPROC_def proc0_def)

lemma share_inv_pst0: "share_inv (pst0 st)"
  by (simp add: share_inv_def)

lemma get_num_procs0: "get_num m (procs0 st) = (if st = RUNNABLE \<and> m = STRD_SCHED then 1 else 0)"
  by (auto simp: get_num_def procs0_def proc0_def)

lemma procs0_cases: "q \<in> set (procs0 st) \<Longrightarrow> mode q = STRD_SCHED"
  by (auto simp: procs0_def proc0_def)

lemma starved_pst0: "q \<in> set (procs0 st) \<Longrightarrow> 0 < n \<Longrightarrow> \<not> starved ((pst0 st)\<lparr>strd_sum := n\<rparr>) q"
  by (auto simp: starved_def get_num_procs0 procs0_cases)



theorem round_robin_bounded_wait_witness:
  "2 \<in> set (dispatches 5 (take (NPROC + 1) (replicate 65 (procs0 RUNNABLE))))"
proof (rule round_robin_bounded_wait)
  show "\<forall>ps \<in> set (replicate 65 (procs0 RUNNABLE)). length ps = NPROC \<and> state (ps ! 2) = RUNNABLE"
    by simp
qed (simp_all add: NPROC_def)

theorem update_strd_functional_witness:
  "\<exists>ps. update_strd (pst0 RUNNABLE) = Ret 0 ((pst0 RUNNABLE)\<lparr>procs := ps\<rparr>) \<and> shares_of STRD_SCHED ps \<le> 100"
proof -
  have "\<not> starved (pst0 RUNNABLE) q" if "q \<in> set (procs0 RUNNABLE)" for q
    using that by (auto simp: starved_def get_num_procs0 procs0_cases)
  then show ?thesis using update_strd_functional [of "pst0 RUNNABLE"] by auto
qed


theorem cpu_share_reject_divides_by_zero_witness: "cpu_share 21 (pst0 UNUSED) = Panic ''trap''"
proof -
  have "\<forall>q \<in> set (procs (pst0 UNUSED)). state q = RUNNABLE \<longrightarrow> mode q \<noteq> STRD_SCHED"
    by (auto simp: procs0_def proc0_def)
  then show ?thesis
    using cpu_share_reject_divides_by_zero [OF in_proc_pst0 share_inv_pst0, of UNUSED 21] by simp
qed

theorem cpu_share_twice_leaks_witness:
  "\<exists>t u. cpu_share 10 (pst0 UNUSED) = Ret 0 t \<and> cpu_share 10 t = Ret 0 u \<and> strd_share_sum u = 20 \<and>
     share (strd (procs u ! 1)) = 10"
proof -
  have "\<forall>q \<in> set (procs (pst0 UNUSED)). state q \<noteq> RUNNABLE"
    by (auto simp: procs0_def proc0_def)
  then show ?thesis
    using cpu_share_twice_leaks [OF in_proc_pst0 share_inv_pst0, of 10 10 UNUSED] by simp
qed

end
