(* ===== verification/Sleeplock.thy ===== *)
theory Sleeplock
  imports Sched
begin

text \<open>
  \<^verbatim>\<open>sleeplock.c\<close>: locks that are held across calls of the scheduler. \<open>sleep\<close> does not return in a run of
  one process, it hands the processor to the scheduler; so the loop \<open>while(lk->locked) sleep(...)\<close>
  either does not enter its body or blocks in its first turn, and a process that is woken up runs
  the loop again from its test.
\<close>

record sleeplock =
  slocked :: bool
  spid :: int

record sst = pst +
  sleeplocks :: "sleepid \<Rightarrow> sleeplock"

definition slmod :: "sleepid \<Rightarrow> (sleeplock \<Rightarrow> sleeplock) \<Rightarrow> 'z sst_scheme \<Rightarrow> 'z sst_scheme" where
  "slmod l f s = s\<lparr>sleeplocks := (sleeplocks s)(l := f (sleeplocks s l))\<rparr>"

definition initsleeplock :: "sleepid \<Rightarrow> ('z sst_scheme, unit) kop" where
  "initsleeplock l =
     kseq (initlock (LSleep l))
       (kmod (slmod l (\<lambda>k. k\<lparr>slocked := False, spid := 0\<rparr>)))"

definition acquiresleep :: "sleepid \<Rightarrow> ('z sst_scheme, unit) kop" where
  "acquiresleep l =
     kseq (acquire (LSleep l)) (
     kbind (kget (\<lambda>s. slocked (sleeplocks s l))) (\<lambda>b.
     kseq (kwhen b (sleep (CSleep l) (LSleep l))) (
     kseq (kmod (slmod l (\<lambda>k. k\<lparr>slocked := True\<rparr>))) (
     kbind curproc (\<lambda>p.
     kseq (kmod (\<lambda>s. slmod l (\<lambda>k. k\<lparr>spid := pid (procs s ! p)\<rparr>) s))
       (release (LSleep l)))))))"

definition releasesleep :: "sleepid \<Rightarrow> ('z sst_scheme, unit) kop" where
  "releasesleep l =
     kseq (acquire (LSleep l)) (
     kseq (kmod (slmod l (\<lambda>k. k\<lparr>slocked := False, spid := 0\<rparr>))) (
     kseq (wakeup (CSleep l))
       (release (LSleep l))))"

definition holdingsleep :: "sleepid \<Rightarrow> ('z sst_scheme, bool) kop" where
  "holdingsleep l =
     kseq (acquire (LSleep l)) (
     kbind curproc (\<lambda>p.
     kbind (kget (\<lambda>s. slocked (sleeplocks s l) \<and> spid (sleeplocks s l) = pid (procs s ! p))) (\<lambda>r.
     kseq (release (LSleep l))
       (kret r))))"

section \<open>What the operations leave alone\<close>

text \<open>
  The sleep-lock operations do not touch the components built on top of them (the extension \<open>more\<close> of
  the state record), nor the identity of the running process.
\<close>

lemma kframe_cur: "kframe s t \<Longrightarrow> cur t = cur s" "kframe s t \<Longrightarrow> procs t = procs s" "kframe s t \<Longrightarrow> pst.more t = pst.more s"
  by (erule kframe_sel, simp)+

lemma myproc_same:
  assumes "myproc s = Ret p t"
  shows "kframe s t \<and> p = cur s"
proof -
  from assms obtain a u c v where u: "pushcli s = Ret a u" "mycpu u = Ret c v" and t: "p = cur v" "popcli v = Ret () t"
    by (auto simp: myproc_def kret_inv)
  have su: "kframe s u" using u(1) by (rule kframe_pushcli)
  have vu: "v = u" using u(2) by (rule mycpu_same)
  have "kframe u t" using t(2) unfolding vu by (rule kframe_popcli)
  with su have "kframe s t" by (rule kframe_trans)
  then show ?thesis using t(1) kframe_cur(1) [OF su] vu by simp
qed

lemma curproc_same:
  assumes "curproc s = Ret p t"
  shows "kframe s t \<and> cur s = Some p"
proof -
  from assms obtain q u where u: "myproc s = Ret q u" "kderef q u = Ret p t"
    by (auto simp: curproc_def kret_inv)
  then have "q = Some p" "t = u" by (cases q; simp)+
  then show ?thesis using myproc_same [OF u(1)] by simp
qed

lemma kframe_sst: "kframe s t \<Longrightarrow> sst.more t = sst.more s" "kframe s t \<Longrightarrow> sleeplocks t = sleeplocks s"
  by (erule kframe_sel, simp)+

text \<open>\<open>sleep\<close> never returns in a run of one process.\<close>

lemma sched_no_Ret: "sched s \<noteq> Ret a t"
  by (auto simp: sched_def kret_inv swtch_def split: if_splits)

lemma sleep_no_Ret: "sleep ch lk s \<noteq> Ret a t"
  by (auto simp: sleep_def kret_inv sched_no_Ret split: option.splits)

text \<open>The process that runs, by number: what the sleep locks compare.\<close>

definition mypid :: "'z pst_scheme \<Rightarrow> int" where
  "mypid s = pid (procs s ! the (cur s))"

lemma kframe_mypid: "kframe s t \<Longrightarrow> mypid t = mypid s"
  by (simp add: mypid_def kframe_cur)

lemma acquiresleep_Ret:
  assumes "acquiresleep l s = Ret a t"
  shows "\<not> slocked (sleeplocks s l)"
    and "sleeplocks t = (sleeplocks s)(l := \<lparr>slocked = True, spid = mypid s\<rparr>)"
    and "mypid t = mypid s" and "sst.more t = sst.more s"
proof -
  from assms obtain b u p v where u: "acquire (LSleep l) s = Ret b u" "\<not> slocked (sleeplocks u l)"
      and v: "curproc (slmod l (\<lambda>k. k\<lparr>slocked := True\<rparr>) u) = Ret p v"
      and t: "release (LSleep l) (slmod l (\<lambda>k. k\<lparr>spid := pid (procs v ! p)\<rparr>) v) = Ret () t"
    by (auto simp: acquiresleep_def kret_inv sleep_no_Ret split: if_splits)
  have su: "kframe s u" using u(1) by (rule kframe_acquire)
  have uv: "kframe (slmod l (\<lambda>k. k\<lparr>slocked := True\<rparr>) u) v" "cur (slmod l (\<lambda>k. k\<lparr>slocked := True\<rparr>) u) = Some p"
    using curproc_same [OF v] by auto
  have vt: "kframe (slmod l (\<lambda>k. k\<lparr>spid := pid (procs v ! p)\<rparr>) v) t" using t by (rule kframe_release)
  note f1 = kframe_sst [OF su] kframe_cur [OF su] and f2 = kframe_sst [OF uv(1)] kframe_cur [OF uv(1)]
    and f3 = kframe_sst [OF vt] kframe_cur [OF vt]
  show "\<not> slocked (sleeplocks s l)" using u(2) f1 by simp
  show "sst.more t = sst.more s" using f1(1) f2(1) f3(1) by (simp add: slmod_def)
  have "cur s = Some p" using uv(2) f1 by (simp add: slmod_def)
  then have "pid (procs v ! p) = mypid s" using f1 f2 by (simp add: mypid_def slmod_def)
  then show "sleeplocks t = (sleeplocks s)(l := \<lparr>slocked = True, spid = mypid s\<rparr>)"
    using f1(2) f2(2) f3(2) by (cases "sleeplocks s l") (simp add: slmod_def)
  show "mypid t = mypid s" using f1 f2 f3 by (simp add: mypid_def slmod_def)
qed

lemma holdingsleep_Ret:
  assumes "holdingsleep l s = Ret r t"
  shows "kframe s t" and "r = (slocked (sleeplocks s l) \<and> spid (sleeplocks s l) = mypid s)"
proof -
  from assms obtain b u p v where u: "acquire (LSleep l) s = Ret b u" and v: "curproc u = Ret p v"
      and r: "r = (slocked (sleeplocks v l) \<and> spid (sleeplocks v l) = pid (procs v ! p))"
      and t: "release (LSleep l) v = Ret () t"
    by (auto simp: holdingsleep_def kret_inv)
  have su: "kframe s u" using u by (rule kframe_acquire)
  have uv: "kframe u v" "cur u = Some p" using curproc_same [OF v] by simp_all
  have vt: "kframe v t" using t by (rule kframe_release)
  have "kframe s v" using su uv(1) by (rule kframe_trans)
  then show "kframe s t" using vt by (rule kframe_trans)
  have "cur s = Some p" using uv(2) kframe_cur(1) [OF su] by simp
  show "r = (slocked (sleeplocks s l) \<and> spid (sleeplocks s l) = mypid s)"
    using r \<open>cur s = Some p\<close> kframe_sst [OF \<open>kframe s v\<close>] kframe_cur [OF \<open>kframe s v\<close>] by (simp add: mypid_def)
qed


lemma wakeup_frame:
  assumes "wakeup ch s = Ret a t"
  shows "pst.more t = pst.more s" and "cur t = cur s" and "map pid (procs t) = map pid (procs s)"
proof -
  from assms obtain b u c v where u: "acquire LPtable s = Ret b u" and v: "wakeup1 ch u = Ret c v"
      and t: "release LPtable v = Ret a t"
    by (auto simp: wakeup_def kret_inv)
  note f1 = kframe_cur [OF kframe_acquire [OF u]] and f2 = kframe_cur [OF kframe_release [OF t]]
  have w: "pst.more v = pst.more u" "cur v = cur u" "map pid (procs v) = map pid (procs u)"
    using v by (auto simp: wakeup1_def)
  show "pst.more t = pst.more s" using f1(3) f2(3) w(1) by simp
  show "cur t = cur s" using f1(1) f2(1) w(2) by simp
  show "map pid (procs t) = map pid (procs s)" using f1(2) f2(2) w(3) by simp
qed

lemma sst_of_pst_more: "pst.more t = pst.more s \<Longrightarrow> sst.more t = sst.more s \<and> sleeplocks t = sleeplocks s"
  by (cases s; cases t) simp

lemma releasesleep_Ret:
  assumes "releasesleep l s = Ret a t"
  shows "sleeplocks t = (sleeplocks s)(l := \<lparr>slocked = False, spid = 0\<rparr>)" and "sst.more t = sst.more s"
proof -
  from assms obtain b u c v where u: "acquire (LSleep l) s = Ret b u"
      and v: "wakeup (CSleep l) (slmod l (\<lambda>k. k\<lparr>slocked := False, spid := 0\<rparr>) u) = Ret c v"
      and t: "release (LSleep l) v = Ret a t"
    by (auto simp: releasesleep_def kret_inv)
  note f1 = kframe_sst [OF kframe_acquire [OF u]] and f2 = kframe_sst [OF kframe_release [OF t]]
    and w = sst_of_pst_more [OF wakeup_frame(1) [OF v]]
  show "sst.more t = sst.more s" using f1 f2 w by (simp add: slmod_def)
  show "sleeplocks t = (sleeplocks s)(l := \<lparr>slocked = False, spid = 0\<rparr>)"
    using f1 f2 w by (cases "sleeplocks s l") (simp add: slmod_def)
qed

section \<open>When the operations return\<close>

text \<open>
  \<open>qheld L s\<close>: exactly the spin locks in \<open>L\<close> are held, by this processor, and a process is running.
  Code that takes and drops locks in such a state neither spins nor panics.
\<close>

definition qheld :: "lockid set \<Rightarrow> 'z pst_scheme \<Rightarrow> bool" where
  "qheld L s \<longleftrightarrow> kready s \<and> finite L \<and> int (card L) \<le> ncli s \<and>
     (\<forall>lk. spin s lk = (if lk \<in> L then held_by (the (cpu_of s)) else unlocked)) \<and>
     (\<exists>p. cur s = Some p \<and> p < length (procs s))"

abbreviation quiet :: "'z pst_scheme \<Rightarrow> bool" where
  "quiet \<equiv> qheld {}"

lemma qheld_acquire:
  assumes "qheld L s" and "lk \<notin> L"
  shows "acquire lk s = Ret () (lock_st lk s)" and "qheld (insert lk L) (lock_st lk s)"
proof -
  show "acquire lk s = Ret () (lock_st lk s)" using assms by (intro acquire_Ret) (auto simp: qheld_def)
  show "qheld (insert lk L) (lock_st lk s)"
    using assms by (auto simp: qheld_def lock_st_def cpu_of_def kready_def)
qed

lemma qheld_release:
  assumes "qheld L s" and "lk \<in> L"
  shows "release lk s = Ret () (unlock_st lk s)" and "qheld (L - {lk}) (unlock_st lk s)"
proof -
  have c: "card L = Suc (card (L - {lk}))" using assms card.remove [of L lk] by (auto simp: qheld_def)
  then have "0 < ncli s" using assms(1) by (simp add: qheld_def)
  then have h: "holds lk s" using assms by (auto simp: qheld_def holds_def kready_def)
  then show "release lk s = Ret () (unlock_st lk s)" by (rule release_Ret)
  have "int (card (L - {lk})) \<le> ncli (unlock_st lk s)" using c assms(1) unfolding qheld_def by simp
  moreover have "spin (unlock_st lk s) k = (if k \<in> L - {lk} then held_by (the (cpu_of (unlock_st lk s))) else unlocked)" for k
    using assms(1) unfolding qheld_def by simp
  ultimately show "qheld (L - {lk}) (unlock_st lk s)"
    using assms(1) kready_unlock_st [OF h] unfolding qheld_def by simp
qed

lemma qheld_cong:
  assumes "qheld L s" and "spin t = spin s" and "ncli t = ncli s" and "ifl t = ifl s" and "cpu_of t = cpu_of s"
    and "cur t = cur s" and "length (procs t) = length (procs s)"
  shows "qheld L t"
  using assms by (simp add: qheld_def kready_def)

lemma release_last:
  assumes "qheld {lk} s"
  shows "release lk s = Ret () (unlock_st lk s)" and "kseq (release lk) m s = m (unlock_st lk s)" and "quiet (unlock_st lk s)"
  using qheld_release [OF assms, of lk] by (simp_all add: kseq_Ret)

lemma acquire_first:
  assumes "quiet s"
  shows "acquire lk s = Ret () (lock_st lk s)" and "kseq (acquire lk) m s = m (lock_st lk s)" and "qheld {lk} (lock_st lk s)"
  using qheld_acquire [OF assms, of lk] by (simp_all add: kseq_Ret)

lemma qheld_curproc:
  assumes "qheld L s"
  shows "curproc s = Ret (the (cur s)) (peek_st s)" and "qheld L (peek_st s)"
  using assms curproc_Ret [of s] by (auto simp: qheld_def intro: qheld_cong)

lemma qheld_wakeup:
  assumes "qheld L s" and "LPtable \<notin> L"
  shows "\<exists>t. wakeup ch s = Ret () t \<and> qheld L t"
proof -
  have a: "kready s" "spin s LPtable = unlocked" using assms by (simp_all add: qheld_def)
  let ?t = "unlock_st LPtable (lock_st LPtable s)"
  have "qheld (insert LPtable L - {LPtable}) ?t"
    by (rule qheld_release(2) [OF qheld_acquire(2) [OF assms]]) simp
  moreover have "insert LPtable L - {LPtable} = L" using assms(2) by blast
  ultimately have q: "qheld L ?t" by simp
  have "qheld L (?t\<lparr>procs := map f (procs s)\<rparr>)" for f
    by (rule qheld_cong [OF q]) (simp_all add: cpu_of_def)
  then show ?thesis unfolding wakeup_Ret [OF a] by blast
qed

lemma slmod_keep [simp]:
  "spin (slmod l f s) = spin s" "ncli (slmod l f s) = ncli s" "ifl (slmod l f s) = ifl s" "cur (slmod l f s) = cur s"
  "procs (slmod l f s) = procs s" "cpu_of (slmod l f s) = cpu_of s" "sleeplocks (slmod l f s) = (sleeplocks s)(l := f (sleeplocks s l))"
  by (simp_all add: slmod_def cpu_of_def)

lemma qheld_slmod [simp]: "qheld L (slmod l f s) = qheld L s"
  by (simp add: qheld_def kready_def)

lemma acquiresleep_returns:
  assumes "quiet s" and "\<not> slocked (sleeplocks s l)"
  shows "\<exists>t. acquiresleep l s = Ret () t \<and> quiet t"
proof -
  let ?u = "lock_st (LSleep l) s"
  have a: "acquire (LSleep l) s = Ret () ?u" "qheld {LSleep l} ?u" using qheld_acquire [OF assms(1)] by simp_all
  have n: "sleeplocks ?u = sleeplocks s" by (simp add: lock_st_def)
  let ?v = "slmod l (\<lambda>k. k\<lparr>slocked := True\<rparr>) ?u"
  have c: "curproc ?v = Ret (the (cur ?v)) (peek_st ?v)" "qheld {LSleep l} (peek_st ?v)"
    using qheld_curproc [of "{LSleep l}" ?v] a(2) by simp_all
  let ?w = "slmod l (\<lambda>k. k\<lparr>spid := pid (procs (peek_st ?v) ! the (cur ?v))\<rparr>) (peek_st ?v)"
  have w: "qheld {LSleep l} ?w" using c(2) by simp
  then have "release (LSleep l) ?w = Ret () (unlock_st (LSleep l) ?w)" "quiet (unlock_st (LSleep l) ?w)"
    using qheld_release [OF w] by simp_all
  then show ?thesis using a(1) c(1) assms(2) n
    by (simp add: acquiresleep_def kdefs)
qed

lemma releasesleep_returns:
  assumes "quiet s"
  shows "\<exists>t. releasesleep l s = Ret () t \<and> quiet t"
proof -
  let ?u = "slmod l (\<lambda>k. k\<lparr>slocked := False, spid := 0\<rparr>) (lock_st (LSleep l) s)"
  have a: "acquire (LSleep l) s = Ret () (lock_st (LSleep l) s)" "qheld {LSleep l} ?u"
    using qheld_acquire [OF assms(1)] by simp_all
  obtain v where v: "wakeup (CSleep l) ?u = Ret () v" "qheld {LSleep l} v" using qheld_wakeup [OF a(2)] by auto
  have "release (LSleep l) v = Ret () (unlock_st (LSleep l) v)" "quiet (unlock_st (LSleep l) v)"
    using qheld_release [OF v(2)] by simp_all
  then show ?thesis using a(1) v(1) by (simp add: releasesleep_def kdefs)
qed

lemma holdingsleep_returns:
  assumes "quiet s"
  shows "\<exists>t. holdingsleep l s = Ret (slocked (sleeplocks s l) \<and> spid (sleeplocks s l) = mypid s) t \<and> quiet t"
proof -
  let ?u = "lock_st (LSleep l) s"
  have a: "acquire (LSleep l) s = Ret () ?u" "qheld {LSleep l} ?u" using qheld_acquire [OF assms] by simp_all
  note c = qheld_curproc [OF a(2)]
  have "release (LSleep l) (peek_st ?u) = Ret () (unlock_st (LSleep l) (peek_st ?u))"
    "quiet (unlock_st (LSleep l) (peek_st ?u))" using qheld_release [OF c(2)] by simp_all
  then have "\<exists>r t. holdingsleep l s = Ret r t \<and> quiet t" using a(1) c(1) by (simp add: holdingsleep_def kdefs)
  then show ?thesis using holdingsleep_Ret(2) by blast
qed

lemma sleeplocks_lock [simp]: "sleeplocks (lock_st lk s) = sleeplocks s" "sleeplocks (unlock_st lk s) = sleeplocks s"
  by (simp_all add: lock_st_def unlock_st_def)

lemma wakeup_procs:
  assumes "wakeup ch s = Ret a t"
  shows "procs t = map (\<lambda>p. if state p = SLEEPING \<and> chan p = ch then p\<lparr>state := RUNNABLE\<rparr> else p) (procs s)"
proof -
  from assms obtain b u c v where u: "acquire LPtable s = Ret b u" and v: "wakeup1 ch u = Ret c v"
      and t: "release LPtable v = Ret a t"
    by (auto simp: wakeup_def kret_inv)
  then show ?thesis
    using kframe_cur(2) [OF kframe_acquire [OF u]] kframe_cur(2) [OF kframe_release [OF t]] by (simp add: wakeup1_def)
qed

lemma releasesleep_procs:
  assumes "releasesleep l s = Ret a t"
  shows "procs t = map (\<lambda>p. if state p = SLEEPING \<and> chan p = CSleep l then p\<lparr>state := RUNNABLE\<rparr> else p) (procs s)"
proof -
  from assms obtain b u c v where u: "acquire (LSleep l) s = Ret b u"
      and v: "wakeup (CSleep l) (slmod l (\<lambda>k. k\<lparr>slocked := False, spid := 0\<rparr>) u) = Ret c v"
      and t: "release (LSleep l) v = Ret a t"
    by (auto simp: releasesleep_def kret_inv)
  show ?thesis
    using kframe_cur(2) [OF kframe_acquire [OF u]] kframe_cur(2) [OF kframe_release [OF t]] wakeup_procs [OF v]
    by simp
qed

text \<open>C22: Sleep locks exclude each other. On a free lock \<open>acquiresleep\<close> returns with the lock held by the
  running process; on a lock that is held it puts the process to sleep on the lock and leaves the
  lock as it is. \<open>releasesleep\<close> frees the lock and makes every process that sleeps on it runnable, so
  that it tests the lock again.\<close>

theorem sleeplock_exclusion:
  fixes s :: "'z sst_scheme"
  assumes "quiet s" and "ncli s = 0" and "cur s = Some p"
  shows "(if slocked (sleeplocks s l)
      then \<exists>t. acquiresleep l s = Block t \<and> sleeplocks t = sleeplocks s \<and>
        state (procs t ! p) = SLEEPING \<and> chan (procs t ! p) = CSleep l
      else \<exists>t. acquiresleep l s = Ret () t \<and> quiet t \<and>
        sleeplocks t = (sleeplocks s)(l := \<lparr>slocked = True, spid = mypid s\<rparr>)) \<and>
    (\<exists>t. releasesleep l s = Ret () t \<and> quiet t \<and> \<not> slocked (sleeplocks t l) \<and>
      (\<forall>i < length (procs s). state (procs s ! i) = SLEEPING \<and> chan (procs s ! i) = CSleep l \<longrightarrow>
         state (procs t ! i) = RUNNABLE))"
proof -
  have "\<exists>t. acquiresleep l s = Block t \<and> sleeplocks t = sleeplocks s \<and>
        state (procs t ! p) = SLEEPING \<and> chan (procs t ! p) = CSleep l" if b: "slocked (sleeplocks s l)"
  proof -
    let ?u = "lock_st (LSleep l) s"
    have a: "acquire (LSleep l) s = Ret () ?u" "qheld {LSleep l} ?u" using qheld_acquire [OF assms(1)] by simp_all
    have "kready s" using assms(1) by (simp add: qheld_def)
    then have "holds (LSleep l) ?u" by (rule holds_lock_st)
    moreover have p: "p < length (procs ?u)" using assms(1,3) by (simp add: qheld_def)
    moreover have "spin ?u LPtable = unlocked" using assms(1) by (simp add: qheld_def)
    ultimately have "sleep (CSleep l) (LSleep l) ?u = Block (sleep_st p (CSleep l) (LSleep l) ?u)"
      using assms(2,3) by (intro sleep_Block) simp_all
    moreover have "sleeplocks (sleep_st p (CSleep l) (LSleep l) ?u) = sleeplocks s"
      by (simp add: sleep_st_def pmod_def lock_st_def unlock_st_def)
    ultimately show ?thesis
      using a(1) b p by (simp add: acquiresleep_def kdefs sleeplocks_lock) (simp add: sleep_st_def asleep_def)
  qed
  moreover have "\<exists>t. acquiresleep l s = Ret () t \<and> quiet t \<and>
        sleeplocks t = (sleeplocks s)(l := \<lparr>slocked = True, spid = mypid s\<rparr>)" if "\<not> slocked (sleeplocks s l)"
    using acquiresleep_returns [OF assms(1) that] acquiresleep_Ret(2) by blast
  moreover have "\<exists>t. releasesleep l s = Ret () t \<and> quiet t \<and> \<not> slocked (sleeplocks t l) \<and>
      (\<forall>i < length (procs s). state (procs s ! i) = SLEEPING \<and> chan (procs s ! i) = CSleep l \<longrightarrow>
         state (procs t ! i) = RUNNABLE)"
  proof -
    obtain t where t: "releasesleep l s = Ret () t" "quiet t" using releasesleep_returns [OF assms(1)] by blast
    then show ?thesis using releasesleep_procs [OF t(1)] releasesleep_Ret(1) [OF t(1)] by simp
  qed
  ultimately show ?thesis by simp
qed


definition sst0 :: sst where
  "sst0 = pst.extend (pst0 UNUSED) (sst.fields (\<lambda>_. \<lparr>slocked = False, spid = 0\<rparr>))"

lemma sst0_simps [simp]:
  "ncli sst0 = 0" "cur sst0 = Some 1" "sleeplocks sst0 l = \<lparr>slocked = False, spid = 0\<rparr>"
  by (simp_all add: sst0_def pst.defs sst.defs pst0_def mst.defs mst0_def kst.defs kst0_def)

lemma quiet_sst0: "quiet sst0"
  by (simp add: sst0_def pst.defs sst.defs pst0_def mst.defs mst0_def kst.defs kst0_def qheld_def kready_def cpu_of_def NPROC_def)

theorem sleeplock_exclusion_witness:
  "(\<exists>t. acquiresleep (SBuf 3) sst0 = Ret () t \<and> slocked (sleeplocks t (SBuf 3))) \<and>
   (\<exists>t. acquiresleep (SBuf 3) (slmod (SBuf 3) (\<lambda>k. k\<lparr>slocked := True\<rparr>) sst0) = Block t \<and> state (procs t ! 1) = SLEEPING)"
proof -
  have "quiet (slmod (SBuf 3) (\<lambda>k. k\<lparr>slocked := True\<rparr>) sst0)" using quiet_sst0 by simp
  from sleeplock_exclusion [OF quiet_sst0, of 1 "SBuf 3"] sleeplock_exclusion [OF this, of 1 "SBuf 3"]
  show ?thesis by auto
qed

end
