(* ===== verification/Bio.thy ===== *)
theory Bio
  imports Sleeplock
begin

text \<open>
  \<^verbatim>\<open>bio.c\<close>: the buffer cache, on the disk driver of \<^verbatim>\<open>memide.c\<close>. The buffers form a doubly linked list
  through \<open>prev\<close> and \<open>next\<close>; a pointer to a buffer is its index, and the list head \<open>bcache.head\<close> is the
  entry with index \<open>NBUF\<close>. The flags \<open>B_VALID\<close> and \<open>B_DIRTY\<close> are two booleans. A block of the disk is a
  list of \<open>BSIZE\<close> bytes. \<open>refcnt\<close> counts the processes that use or wait for a buffer, so the increment
  in \<open>bget\<close> cannot wrap around.

  The lemmas show that the pointer operations implement a list in order of last use (\<open>dll\<close>), that no
  block has two buffers, and that the cache is transparent: what \<open>bread\<close> returns and what every
  operation leaves visible is the logical contents \<open>view\<close> of the disk.
\<close>

definition NBUF :: nat where "NBUF = 30"
definition BSIZE :: nat where "BSIZE = 512"

record buf =
  bvalid :: bool
  bdirty :: bool
  bdev :: nat
  blockno :: nat
  refcnt :: nat
  bprev :: nat
  bnext :: nat
  bdata :: "byte list"

record bst = sst +
  bufs :: "buf list"
  disk :: "nat \<Rightarrow> byte list"
  disksize :: nat

definition bmod :: "nat \<Rightarrow> (buf \<Rightarrow> buf) \<Rightarrow> 'z bst_scheme \<Rightarrow> 'z bst_scheme" where
  "bmod i f s = s\<lparr>bufs := upd i f (bufs s)\<rparr>"

section \<open>The disk driver\<close>

definition iderw :: "nat \<Rightarrow> ('z bst_scheme, unit) kop" where
  "iderw i =
     kbind (holdingsleep (SBuf i)) (\<lambda>h.
     if \<not> h then kpanic ''iderw: buf not locked'' else
     kbind (kget (\<lambda>s. bufs s ! i)) (\<lambda>b.
     kbind (kget disksize) (\<lambda>ds.
     if bvalid b \<and> \<not> bdirty b then kpanic ''iderw: nothing to do''
     else if bdev b \<noteq> 1 then kpanic ''iderw: request not for disk 1''
     else if blockno b \<ge> ds then kpanic ''iderw: block out of range''
     else
       kseq (if bdirty b then
               kseq (kmod (bmod i (\<lambda>b. b\<lparr>bdirty := False\<rparr>)))
                 (kmod (\<lambda>s. s\<lparr>disk := (disk s)(blockno b := bdata (bufs s ! i))\<rparr>))
             else
               kmod (\<lambda>s. bmod i (\<lambda>c. c\<lparr>bdata := disk s (blockno b)\<rparr>) s))
         (kmod (bmod i (\<lambda>b. b\<lparr>bvalid := True\<rparr>))))))"

section \<open>The list of buffers\<close>

definition binit_link :: "nat \<Rightarrow> buf list \<Rightarrow> buf list" where
  "binit_link i bs =
     (let n = bnext (bs ! NBUF);
          bs1 = upd i (\<lambda>b. b\<lparr>bnext := n, bprev := NBUF\<rparr>) bs;
          bs2 = upd n (\<lambda>b. b\<lparr>bprev := i\<rparr>) bs1
      in upd NBUF (\<lambda>b. b\<lparr>bnext := i\<rparr>) bs2)"

definition binit :: "('z bst_scheme, unit) kop" where
  "binit =
     kseq (initlock LBcache) (
     kseq (kmod (bmod NBUF (\<lambda>b. b\<lparr>bprev := NBUF, bnext := NBUF\<rparr>)))
       (kfor (\<lambda>i. kseq (initsleeplock (SBuf i)) (kmod (\<lambda>s. s\<lparr>bufs := binit_link i (bufs s)\<rparr>))) [0..<NBUF]))"

text \<open>
  The two loops of \<open>bget\<close>, along \<open>next\<close> and along \<open>prev\<close>: the first buffer with a property, or the head.
  A walk that has not met the head after \<open>NBUF + 1\<close> steps has met some buffer twice and goes on for
  ever; its result is \<open>None\<close>.
\<close>

fun bwalk :: "(buf \<Rightarrow> nat) \<Rightarrow> (buf \<Rightarrow> bool) \<Rightarrow> nat \<Rightarrow> buf list \<Rightarrow> nat \<Rightarrow> nat option option" where
  "bwalk step P 0 bs i = None"
| "bwalk step P (Suc k) bs i =
     (if i = NBUF then Some None
      else if P (bs ! i) then Some (Some i)
      else bwalk step P k bs (step (bs ! i)))"

definition bsearch :: "(buf \<Rightarrow> nat) \<Rightarrow> (buf \<Rightarrow> bool) \<Rightarrow> ('z bst_scheme, nat option) kop" where
  "bsearch step P s =
     (case bwalk step P (Suc NBUF) (bufs s) (step (bufs s ! NBUF)) of
        Some r \<Rightarrow> Ret r s
      | None \<Rightarrow> Block s)"

definition bget :: "nat \<Rightarrow> nat \<Rightarrow> ('z bst_scheme, nat) kop" where
  "bget dev bno =
     kseq (acquire LBcache) (
     kbind (bsearch bnext (\<lambda>b. bdev b = dev \<and> blockno b = bno)) (\<lambda>r.
     case r of
       Some i \<Rightarrow>
         kseq (kmod (bmod i (\<lambda>b. b\<lparr>refcnt := refcnt b + 1\<rparr>))) (
         kseq (release LBcache) (
         kseq (acquiresleep (SBuf i))
           (kret i)))
     | None \<Rightarrow>
         kbind (bsearch bprev (\<lambda>b. refcnt b = 0 \<and> \<not> bdirty b)) (\<lambda>r.
         case r of
           Some i \<Rightarrow>
             kseq (kmod (bmod i (\<lambda>b. b\<lparr>bdev := dev, blockno := bno, bvalid := False, bdirty := False, refcnt := 1\<rparr>))) (
             kseq (release LBcache) (
             kseq (acquiresleep (SBuf i))
               (kret i)))
         | None \<Rightarrow> kpanic ''bget: no buffers'')))"

definition bread :: "nat \<Rightarrow> nat \<Rightarrow> ('z bst_scheme, nat) kop" where
  "bread dev bno =
     kbind (bget dev bno) (\<lambda>i.
     kbind (kget (\<lambda>s. bvalid (bufs s ! i))) (\<lambda>v.
     kseq (kwhen (\<not> v) (iderw i))
       (kret i)))"

definition bwrite :: "nat \<Rightarrow> ('z bst_scheme, unit) kop" where
  "bwrite i =
     kbind (holdingsleep (SBuf i)) (\<lambda>h.
     if \<not> h then kpanic ''bwrite'' else
     kseq (kmod (bmod i (\<lambda>b. b\<lparr>bdirty := True\<rparr>)))
       (iderw i))"

definition bunlink :: "nat \<Rightarrow> buf list \<Rightarrow> buf list" where
  "bunlink i bs =
     (let bs1 = upd (bnext (bs ! i)) (\<lambda>b. b\<lparr>bprev := bprev (bs ! i)\<rparr>) bs
      in upd (bprev (bs1 ! i)) (\<lambda>b. b\<lparr>bnext := bnext (bs1 ! i)\<rparr>) bs1)"

definition bfront :: "nat \<Rightarrow> buf list \<Rightarrow> buf list" where
  "bfront i bs =
     (let bs1 = upd i (\<lambda>b. b\<lparr>bnext := bnext (bs ! NBUF)\<rparr>) bs;
          bs2 = upd i (\<lambda>b. b\<lparr>bprev := NBUF\<rparr>) bs1;
          bs3 = upd (bnext (bs2 ! NBUF)) (\<lambda>b. b\<lparr>bprev := i\<rparr>) bs2
      in upd NBUF (\<lambda>b. b\<lparr>bnext := i\<rparr>) bs3)"

definition bunref :: "nat \<Rightarrow> buf list \<Rightarrow> buf list" where
  "bunref i bs =
     (let bs1 = upd i (\<lambda>b. b\<lparr>refcnt := (if refcnt b = 0 then 2 ^ 32 - 1 else refcnt b - 1)\<rparr>) bs
      in if refcnt (bs1 ! i) = 0 then bfront i (bunlink i bs1) else bs1)"

definition brelse :: "nat \<Rightarrow> ('z bst_scheme, unit) kop" where
  "brelse i =
     kbind (holdingsleep (SBuf i)) (\<lambda>h.
     if \<not> h then kpanic ''brelse'' else
     kseq (releasesleep (SBuf i)) (
     kseq (acquire LBcache) (
     kseq (kmod (\<lambda>s. s\<lparr>bufs := bunref i (bufs s)\<rparr>))
       (release LBcache))))"

section \<open>The pointer structure is a list\<close>

text \<open>
  \<open>seg bs a xs b\<close>: following \<open>next\<close> from \<open>a\<close> one meets the buffers \<open>xs\<close> in order and then \<open>b\<close>, and the
  \<open>prev\<close> pointers lead back. The whole cache is a segment from the head to the head.
\<close>

fun seg :: "buf list \<Rightarrow> nat \<Rightarrow> nat list \<Rightarrow> nat \<Rightarrow> bool" where
  "seg bs a [] b \<longleftrightarrow> bnext (bs ! a) = b \<and> bprev (bs ! b) = a"
| "seg bs a (x # xs) b \<longleftrightarrow> bnext (bs ! a) = x \<and> bprev (bs ! x) = a \<and> seg bs x xs b"

definition dll :: "nat list \<Rightarrow> buf list \<Rightarrow> bool" where
  "dll xs bs \<longleftrightarrow> seg bs NBUF xs NBUF \<and> distinct xs \<and> set xs = {..<NBUF} \<and> length bs = Suc NBUF"

lemma seg_append: "seg bs a (ys @ x # zs) b \<longleftrightarrow> seg bs a ys x \<and> seg bs x zs b"
  by (induction ys arbitrary: a) auto

lemma seg_cong:
  assumes "\<And>i. i \<in> insert a (set xs) \<Longrightarrow> bnext (bs ! i) = bnext (cs ! i)"
    and "\<And>i. i \<in> insert b (set xs) \<Longrightarrow> bprev (bs ! i) = bprev (cs ! i)"
  shows "seg bs a xs b = seg cs a xs b"
  using assms by (induction xs arbitrary: a) auto

lemma seg_last: "seg bs a xs b \<Longrightarrow> bprev (bs ! b) = (if xs = [] then a else last xs)"
  by (induction xs arbitrary: a) auto

lemma seg_first: "seg bs a xs b \<Longrightarrow> bnext (bs ! a) = (if xs = [] then b else hd xs)"
  by (cases xs) auto

text \<open>A segment whose start was moved from \<open>x\<close> to \<open>p\<close>, and whose other pointers were kept.\<close>

lemma seg_redirect:
  assumes "seg bs x zs b" and "n = (if zs = [] then b else hd zs)" and "distinct zs" and "p \<notin> set zs" and "b \<notin> set zs"
    and "bnext (cs ! p) = n" and "bprev (cs ! n) = p"
    and "\<And>i. i \<in> set zs \<Longrightarrow> bnext (cs ! i) = bnext (bs ! i)"
    and "\<And>i. i \<in> insert b (set zs) \<Longrightarrow> i \<noteq> n \<Longrightarrow> bprev (cs ! i) = bprev (bs ! i)"
  shows "seg cs p zs b"
proof (cases zs)
  case Nil
  then show ?thesis using assms by simp
next
  case (Cons z zs')
  then have "seg bs z zs' b" using assms(1) by simp
  moreover have "seg cs z zs' b = seg bs z zs' b"
  proof (rule seg_cong)
    show "bnext (cs ! i) = bnext (bs ! i)" if "i \<in> insert z (set zs')" for i
      using that Cons by (intro assms(8)) simp
    show "bprev (cs ! i) = bprev (bs ! i)" if "i \<in> insert b (set zs')" for i
      using that Cons assms(2,3,5) by (intro assms(9)) auto
  qed
  moreover have "n = z" using assms(2) Cons by simp
  ultimately show ?thesis using assms(6,7) Cons by simp
qed

text \<open>\<open>bunlink\<close> takes a buffer out of the list, \<open>bfront\<close> puts it in front.\<close>

lemma nth_upd_if: "k < length xs \<Longrightarrow> upd k f xs ! j = (if j = k then f (xs ! k) else xs ! j)"
  by (simp add: upd_def nth_list_update)

lemma bunlink_sel:
  assumes "bprev (bs ! x) = p" and "bnext (bs ! x) = n" and "p < length bs" and "n < length bs" and "n \<noteq> x"
  shows "bnext (bunlink x bs ! i) = (if i = p then n else bnext (bs ! i))"
    and "bprev (bunlink x bs ! i) = (if i = n then p else bprev (bs ! i))"
  using assms by (simp_all add: bunlink_def Let_def nth_upd_if)

lemma seg_join:
  assumes "seg bs a ys x" and "seg bs x zs b" and "distinct (ys @ x # zs)"
    and "a \<notin> set (ys @ x # zs)" and "b \<notin> set (ys @ x # zs)"
    and "a < length bs" and "b < length bs" and "\<And>i. i \<in> set (ys @ x # zs) \<Longrightarrow> i < length bs"
  shows "seg (bunlink x bs) a (ys @ zs) b"
proof -
  define p where "p = (if ys = [] then a else last ys)"
  define n where "n = (if zs = [] then b else hd zs)"
  have pn: "bprev (bs ! x) = p" "bnext (bs ! x) = n"
    using seg_last [OF assms(1)] seg_first [OF assms(2)] by (simp_all add: p_def n_def)
  have n_in: "n \<in> insert b (set zs)" and p_in: "p \<in> insert a (set ys)" by (auto simp: n_def p_def)
  have pl: "p < length bs" using p_in assms(6,8) by auto
  have nl: "n < length bs" using n_in assms(7,8) by auto
  have nx: "n \<noteq> x" using n_in assms(3,5) by auto
  have pz: "p \<notin> set zs" using p_in assms(3,4) by auto
  note sel = bunlink_sel [OF pn pl nl nx]
  have tail: "seg (bunlink x bs) p zs b"
  proof (rule seg_redirect [OF assms(2) n_def])
    show "bnext (bunlink x bs ! i) = bnext (bs ! i)" if "i \<in> set zs" for i
      using that pz by (auto simp: sel)
  qed (use assms(3,5) pz in \<open>simp_all add: sel\<close>)
  show ?thesis
  proof (cases ys rule: rev_cases)
    case Nil
    then show ?thesis using tail by (simp add: p_def)
  next
    case (snoc ys' y)
    then have py: "p = y" by (simp add: p_def)
    have "seg bs a ys' y" using assms(1) snoc by (simp add: seg_append)
    moreover have "seg (bunlink x bs) a ys' y = seg bs a ys' y"
    proof (rule seg_cong)
      show "bnext (bunlink x bs ! i) = bnext (bs ! i)" if "i \<in> insert a (set ys')" for i
        using that assms(3,4) snoc py by (auto simp: sel)
      show "bprev (bunlink x bs ! i) = bprev (bs ! i)" if "i \<in> insert y (set ys')" for i
        using that assms(3,5) snoc n_in by (auto simp: sel)
    qed
    ultimately show ?thesis using tail snoc py by (simp add: seg_append)
  qed
qed

lemma bfront_sel:
  assumes "bnext (bs ! NBUF) = n" and "n < length bs" and "x < length bs" and "NBUF < length bs" and "x \<noteq> NBUF" and "n \<noteq> x"
  shows "bnext (bfront x bs ! i) = (if i = NBUF then x else if i = x then n else bnext (bs ! i))"
    and "bprev (bfront x bs ! i) = (if i = n then x else if i = x then NBUF else bprev (bs ! i))"
  using assms by (simp_all add: bfront_def Let_def nth_upd_if)

lemma seg_bfront:
  assumes "seg bs NBUF ws NBUF" and "distinct ws" and "x \<notin> set ws" and "NBUF \<notin> set ws" and "x \<noteq> NBUF"
    and "x < length bs" and "NBUF < length bs" and "\<And>i. i \<in> set ws \<Longrightarrow> i < length bs"
  shows "seg (bfront x bs) NBUF (x # ws) NBUF"
proof -
  define n where "n = (if ws = [] then NBUF else hd ws)"
  have n: "bnext (bs ! NBUF) = n" using seg_first [OF assms(1)] by (simp add: n_def)
  have n_in: "n \<in> insert NBUF (set ws)" by (auto simp: n_def)
  then have "n < length bs" "n \<noteq> x" using assms(3-8) by auto
  note sel = bfront_sel [OF n this(1) assms(6,7,5) this(2)]
  have "seg (bfront x bs) x ws NBUF"
  proof (rule seg_redirect [OF assms(1) n_def])
    show "bnext (bfront x bs ! i) = bnext (bs ! i)" if "i \<in> set ws" for i
      using that assms(3,4) by (auto simp: sel)
    show "bprev (bfront x bs ! i) = bprev (bs ! i)" if "i \<in> insert NBUF (set ws)" "i \<noteq> n" for i
      using that assms(3,5) by (auto simp: sel)
  qed (use assms(2-5) in \<open>simp_all add: sel\<close>)
  moreover have "bprev (bfront x bs ! x) = NBUF" using assms(3,5) n_in by (auto simp: sel)
  ultimately show ?thesis by (simp add: sel)
qed

lemma length_bunlink [simp]: "length (bunlink x bs) = length bs"
  by (simp add: bunlink_def Let_def)

lemma length_bfront [simp]: "length (bfront x bs) = length bs"
  by (simp add: bfront_def Let_def)

lemma dll_move_front:
  assumes "dll (ys @ x # zs) bs"
  shows "dll (x # ys @ zs) (bfront x (bunlink x bs))"
proof -
  from assms have d: "seg bs NBUF (ys @ x # zs) NBUF" "distinct (ys @ x # zs)" "set (ys @ x # zs) = {..<NBUF}"
    "length bs = Suc NBUF" unfolding dll_def by blast+
  have lt: "i < length bs" if "i \<in> set (ys @ x # zs)" for i using that unfolding d(3,4) by simp
  have nb: "NBUF \<notin> set (ys @ x # zs)" "NBUF < length bs" unfolding d(3,4) by simp_all
  have "seg bs NBUF ys x" "seg bs x zs NBUF" using d(1) by (simp_all add: seg_append)
  then have "seg (bunlink x bs) NBUF (ys @ zs) NBUF"
    using seg_join [OF _ _ d(2) nb(1) nb(1) nb(2) nb(2) lt] by blast
  then have "seg (bfront x (bunlink x bs)) NBUF (x # ys @ zs) NBUF"
    using d(2) nb lt by (intro seg_bfront) auto
  moreover have "distinct (x # ys @ zs)" using d(2) by auto
  moreover have "set (x # ys @ zs) = {..<NBUF}" unfolding d(3) [symmetric] by auto
  ultimately show ?thesis using d(4) unfolding dll_def by simp
qed


lemma binit_link_eq: "x < NBUF \<Longrightarrow> binit_link x bs = bfront x bs" if "bnext (bs ! NBUF) \<noteq> x" for x
  using that by (simp add: binit_link_def bfront_def Let_def o_def)

section \<open>Searching the list\<close>

lemma bwalk_next:
  assumes "seg bs a xs NBUF" and "NBUF \<notin> set xs" and "length xs < k"
  shows "bwalk bnext P k bs (bnext (bs ! a)) = Some (find (\<lambda>i. P (bs ! i)) xs)"
  using assms
proof (induction xs arbitrary: a k)
  case Nil
  then show ?case by (cases k) simp_all
next
  case (Cons x xs)
  then show ?case by (cases k) auto
qed

lemma seg_snoc: "seg bs a (xs @ [x]) b \<longleftrightarrow> seg bs a xs x \<and> bnext (bs ! x) = b \<and> bprev (bs ! b) = x"
  by (simp add: seg_append)

lemma bwalk_prev:
  assumes "seg bs NBUF xs b" and "NBUF \<notin> set xs" and "length xs < k"
  shows "bwalk bprev P k bs (bprev (bs ! b)) = Some (find (\<lambda>i. P (bs ! i)) (rev xs))"
  using assms
proof (induction xs arbitrary: b k rule: rev_induct)
  case Nil
  then show ?case by (cases k) simp_all
next
  case (snoc x xs)
  then show ?case by (cases k) (auto simp: seg_snoc)
qed

lemma bsearch_dll:
  assumes "dll xs (bufs s)"
  shows "bsearch bnext P s = Ret (find (\<lambda>i. P (bufs s ! i)) xs) s"
    and "bsearch bprev P s = Ret (find (\<lambda>i. P (bufs s ! i)) (rev xs)) s"
proof -
  from assms have d: "seg (bufs s) NBUF xs NBUF" "distinct xs" "set xs = {..<NBUF}" unfolding dll_def by blast+
  have "NBUF \<notin> set xs" unfolding d(3) by simp
  moreover have "length xs < Suc NBUF" using distinct_card [OF d(2)] by (simp add: d(3))
  ultimately show "bsearch bnext P s = Ret (find (\<lambda>i. P (bufs s ! i)) xs) s"
    and "bsearch bprev P s = Ret (find (\<lambda>i. P (bufs s ! i)) (rev xs)) s"
    using bwalk_next [OF d(1)] bwalk_prev [OF d(1)] by (simp_all add: bsearch_def del: bwalk.simps)
qed

lemma dll_bmod:
  "dll xs bs \<Longrightarrow> (\<And>b. bnext (f b) = bnext b \<and> bprev (f b) = bprev b) \<Longrightarrow> dll xs (upd i f bs)"
proof -
  assume d: "dll xs bs" and f: "\<And>b. bnext (f b) = bnext b \<and> bprev (f b) = bprev b"
  have "bnext (upd i f bs ! j) = bnext (bs ! j)" "bprev (upd i f bs ! j) = bprev (bs ! j)" for j
    by (cases "i < length bs"; cases "i = j"; simp add: f)+
  then have "seg (upd i f bs) NBUF xs NBUF = seg bs NBUF xs NBUF" by (intro seg_cong) simp_all
  with d show ?thesis by (simp add: dll_def)
qed

section \<open>The cache is transparent\<close>

text \<open>
  \<open>view s n\<close> is the logical contents of block \<open>n\<close>: the data of its buffer if it is cached and valid, the
  disk block otherwise. \<open>binv H\<close> is the invariant of the cache while the buffers in \<open>H\<close> are locked by
  the running process, which may have changed their data; a clean buffer that nobody holds agrees
  with the disk.
\<close>

lemma find_SomeD: "find P xs = Some x \<Longrightarrow> x \<in> set xs \<and> P x"
  by (induction xs) (auto split: if_splits)

definition caches :: "'z bst_scheme \<Rightarrow> nat \<Rightarrow> nat \<Rightarrow> bool" where
  "caches s n i \<longleftrightarrow> bvalid (bufs s ! i) \<and> bdev (bufs s ! i) = 1 \<and> blockno (bufs s ! i) = n"

definition view :: "'z bst_scheme \<Rightarrow> nat \<Rightarrow> byte list" where
  "view s n = (case find (caches s n) [0..<NBUF] of Some i \<Rightarrow> bdata (bufs s ! i) | None \<Rightarrow> disk s n)"

definition synced :: "'z bst_scheme \<Rightarrow> nat \<Rightarrow> bool" where
  "synced s i \<longleftrightarrow> bdirty (bufs s ! i) \<or> bdata (bufs s ! i) = disk s (blockno (bufs s ! i))"

definition buf_ok :: "nat set \<Rightarrow> 'z bst_scheme \<Rightarrow> nat \<Rightarrow> bool" where
  "buf_ok H s i \<longleftrightarrow>
     (bvalid (bufs s ! i) \<longrightarrow> length (bdata (bufs s ! i)) = BSIZE \<and> bdev (bufs s ! i) = 1 \<and> blockno (bufs s ! i) < disksize s) \<and>
     (bdirty (bufs s ! i) \<longrightarrow> bvalid (bufs s ! i)) \<and>
     (i \<in> H \<longrightarrow> 0 < refcnt (bufs s ! i) \<and> bvalid (bufs s ! i) \<and> slocked (sleeplocks s (SBuf i))) \<and>
     (i \<notin> H \<longrightarrow> bvalid (bufs s ! i) \<longrightarrow> synced s i)"

definition bufs_unique :: "buf list \<Rightarrow> bool" where
  "bufs_unique bs \<longleftrightarrow> (\<forall>i < NBUF. \<forall>j < NBUF. bdev (bs ! i) \<noteq> 0 \<longrightarrow> bdev (bs ! j) = bdev (bs ! i) \<longrightarrow>
     blockno (bs ! j) = blockno (bs ! i) \<longrightarrow> j = i)"

definition binv :: "nat set \<Rightarrow> 'z bst_scheme \<Rightarrow> bool" where
  "binv H s \<longleftrightarrow> (\<exists>xs. dll xs (bufs s)) \<and> H \<subseteq> {..<NBUF} \<and> (\<forall>i < NBUF. buf_ok H s i) \<and>
     bufs_unique (bufs s) \<and> (\<forall>n. length (disk s n) = BSIZE)"

lemma binv_length: "binv H s \<Longrightarrow> length (bufs s) = Suc NBUF"
  by (auto simp: binv_def dll_def)

lemma caches_unique:
  "bufs_unique (bufs s) \<Longrightarrow> caches s n i \<Longrightarrow> caches s n j \<Longrightarrow> i < NBUF \<Longrightarrow> j < NBUF \<Longrightarrow> i = j"
  unfolding bufs_unique_def caches_def by (metis zero_neq_one)

lemma view_cached:
  assumes "bufs_unique (bufs s)" and "i < NBUF" and "caches s n i"
  shows "view s n = bdata (bufs s ! i)"
proof -
  have "find (caches s n) [0..<NBUF] \<noteq> None" using assms(2,3) by (auto simp: find_None_iff)
  then obtain j where j: "find (caches s n) [0..<NBUF] = Some j" by blast
  then have "caches s n j" "j < NBUF" by (auto simp: find_Some_iff)
  then have "j = i" using caches_unique [OF assms(1)] assms(2,3) by blast
  then show ?thesis using j by (simp add: view_def)
qed

lemma view_uncached: "(\<And>i. i < NBUF \<Longrightarrow> \<not> caches s n i) \<Longrightarrow> view s n = disk s n"
  by (auto simp: view_def find_Some_iff split: option.split)

lemma view_cases:
  assumes "bufs_unique (bufs s)"
  obtains i where "i < NBUF" "caches s n i" "view s n = bdata (bufs s ! i)"
  | "\<And>i. i < NBUF \<Longrightarrow> \<not> caches s n i" "view s n = disk s n"
  using view_cached [OF assms] view_uncached by metis

lemma length_view: "binv H s \<Longrightarrow> length (view s n) = BSIZE"
  by (rule view_cases [of s n]) (auto simp: binv_def buf_ok_def caches_def)

text \<open>Two states with the same contents of the buffers have the same view.\<close>

definition core :: "buf \<Rightarrow> bool \<times> bool \<times> nat \<times> nat \<times> byte list" where
  "core b = (bvalid b, bdirty b, bdev b, blockno b, bdata b)"

lemma view_core:
  assumes "\<And>i. i < NBUF \<Longrightarrow> core (bufs t ! i) = core (bufs s ! i)" and "disk t = disk s"
  shows "view t = view s"
proof
  fix n
  have "caches t n i = caches s n i" "bdata (bufs t ! i) = bdata (bufs s ! i)" if "i < NBUF" for i
    using assms(1) [OF that] by (simp_all add: core_def caches_def)
  note c = this
  have f: "find (caches t n) [0..<NBUF] = find (caches s n) [0..<NBUF]"
    by (rule find_cong) (use c(1) in auto)
  show "view t n = view s n"
  proof (cases "find (caches s n) [0..<NBUF]")
    case None
    then show ?thesis using f assms(2) by (simp add: view_def)
  next
    case (Some i)
    then have "i < NBUF" by (auto simp: find_Some_iff)
    then show ?thesis using f Some c(2) by (simp add: view_def)
  qed
qed

lemma binv_core:
  assumes "binv H s" and "\<And>i. i < NBUF \<Longrightarrow> core (bufs t ! i) = core (bufs s ! i)" and "disk t = disk s"
    and "disksize t = disksize s" and "\<exists>xs. dll xs (bufs t)" and "G \<subseteq> {..<NBUF}"
    and "\<And>i. i \<in> G \<Longrightarrow> 0 < refcnt (bufs t ! i) \<and> bvalid (bufs s ! i) \<and> slocked (sleeplocks t (SBuf i))"
    and "\<And>i. i < NBUF \<Longrightarrow> i \<in> H \<Longrightarrow> i \<notin> G \<Longrightarrow> synced s i"
  shows "binv G t"
proof -
  have c: "bvalid (bufs t ! i) = bvalid (bufs s ! i)" "bdirty (bufs t ! i) = bdirty (bufs s ! i)"
    "bdev (bufs t ! i) = bdev (bufs s ! i)" "blockno (bufs t ! i) = blockno (bufs s ! i)"
    "bdata (bufs t ! i) = bdata (bufs s ! i)" if "i < NBUF" for i
    using assms(2) [OF that] by (simp_all add: core_def)
  have "buf_ok G t i" if i: "i < NBUF" for i
  proof -
    have "buf_ok H s i" using assms(1) i by (simp add: binv_def)
    moreover have "synced t i = synced s i" using c [OF i] assms(3) by (simp add: synced_def)
    ultimately show ?thesis
      using c [OF i] assms(4) assms(7) [of i] assms(8) [OF i] by (auto simp: buf_ok_def)
  qed
  moreover have "bufs_unique (bufs t)" using assms(1) c by (simp add: binv_def bufs_unique_def)
  ultimately show ?thesis using assms(1,3,5,6) by (simp add: binv_def)
qed


lemma more_bst:
  assumes "sst.more t = sst.more s"
  shows "bufs t = bufs s" "disk t = disk s" "disksize t = disksize s" "bst.more t = bst.more s"
  using assms by (cases s; cases t; simp)+

lemma kframe_bst:
  assumes "kframe s t"
  shows "bufs t = bufs s" "disk t = disk s" "disksize t = disksize s" "bst.more t = bst.more s" "sleeplocks t = sleeplocks s"
  by (rule kframe_sel [OF assms], simp)+

lemma bmod_sel [simp]:
  "bufs (bmod i f s) = upd i f (bufs s)" "disk (bmod i f s) = disk s" "disksize (bmod i f s) = disksize s"
  "bst.more (bmod i f s) = bst.more s" "sleeplocks (bmod i f s) = sleeplocks s"
  by (simp_all add: bmod_def)

text \<open>\<open>bget\<close> on its two branches.\<close>

definition brecycle :: "nat \<Rightarrow> nat \<Rightarrow> buf \<Rightarrow> buf" where
  "brecycle dev bno b = b\<lparr>bdev := dev, blockno := bno, bvalid := False, bdirty := False, refcnt := 1\<rparr>"

lemma bget_tail:
  assumes "kseq (kmod (bmod i f)) (kseq (release LBcache) (kseq (acquiresleep (SBuf i)) (kret i))) s = Ret r t"
  shows "r = i" and "bufs t = upd i f (bufs s)" and "disk t = disk s" and "disksize t = disksize s"
    and "bst.more t = bst.more s" and "\<not> slocked (sleeplocks s (SBuf i))"
    and "\<exists>k. slocked k \<and> sleeplocks t = (sleeplocks s)(SBuf i := k)"
proof -
  from assms obtain a u b where u: "release LBcache (bmod i f s) = Ret a u" and t: "acquiresleep (SBuf i) u = Ret b t" "r = i"
    by (auto simp: kret_inv)
  note f1 = kframe_bst [OF kframe_release [OF u]] and f2 = more_bst [OF acquiresleep_Ret(4) [OF t(1)]]
    and g = acquiresleep_Ret(1,2) [OF t(1)]
  show "r = i" by (rule t(2))
  show "bufs t = upd i f (bufs s)" "disk t = disk s" "disksize t = disksize s" "bst.more t = bst.more s"
    using f1 f2 by simp_all
  show "\<not> slocked (sleeplocks s (SBuf i))" using g(1) f1 by simp
  have "sleeplocks t = (sleeplocks s)(SBuf i := \<lparr>slocked = True, spid = mypid u\<rparr>)" using g(2) f1 by simp
  then show "\<exists>k. slocked k \<and> sleeplocks t = (sleeplocks s)(SBuf i := k)" by force
qed

lemma bget_Ret:
  assumes "bget dev n s = Ret i t" and "dll xs (bufs s)"
  shows "i < NBUF" and "disk t = disk s" and "disksize t = disksize s" and "bst.more t = bst.more s"
    and "\<not> slocked (sleeplocks s (SBuf i))" and "\<exists>k. slocked k \<and> sleeplocks t = (sleeplocks s)(SBuf i := k)"
    and "bdev (bufs s ! i) = dev \<and> blockno (bufs s ! i) = n \<and> bufs t = upd i (\<lambda>b. b\<lparr>refcnt := refcnt b + 1\<rparr>) (bufs s) \<or>
      (\<forall>j < NBUF. \<not> (bdev (bufs s ! j) = dev \<and> blockno (bufs s ! j) = n)) \<and> refcnt (bufs s ! i) = 0 \<and>
        \<not> bdirty (bufs s ! i) \<and> bufs t = upd i (brecycle dev n) (bufs s)"
proof -
  let ?P = "\<lambda>b. bdev b = dev \<and> blockno b = n" and ?Q = "\<lambda>b. refcnt b = 0 \<and> \<not> bdirty b"
  from assms(1) obtain a u where u: "acquire LBcache s = Ret a u" and r: "(kbind (bsearch bnext ?P) (\<lambda>r.
     case r of
       Some i \<Rightarrow>
         kseq (kmod (bmod i (\<lambda>b. b\<lparr>refcnt := refcnt b + 1\<rparr>))) (
         kseq (release LBcache) (
         kseq (acquiresleep (SBuf i))
           (kret i)))
     | None \<Rightarrow>
         kbind (bsearch bprev ?Q) (\<lambda>r.
         case r of
           Some i \<Rightarrow>
             kseq (kmod (bmod i (brecycle dev n))) (
             kseq (release LBcache) (
             kseq (acquiresleep (SBuf i))
               (kret i)))
         | None \<Rightarrow> kpanic ''bget: no buffers''))) u = Ret i t"
    unfolding bget_def brecycle_def kseq_Ret_iff by blast
  note f = kframe_bst [OF kframe_acquire [OF u]]
  have dl: "dll xs (bufs u)" using assms(2) f by simp
  have xs: "set xs = {..<NBUF}" using assms(2) by (simp add: dll_def)
  let ?tail = "\<lambda>j f. kseq (kmod (bmod j f)) (kseq (release LBcache) (kseq (acquiresleep (SBuf j)) (kret j)))"
  have "\<exists>j f. j < NBUF \<and> ?tail j f u = Ret i t \<and>
    (?P (bufs u ! j) \<and> f = (\<lambda>b. b\<lparr>refcnt := refcnt b + 1\<rparr>) \<or>
     (\<forall>k < NBUF. \<not> ?P (bufs u ! k)) \<and> ?Q (bufs u ! j) \<and> f = brecycle dev n)"
  proof (cases "find (\<lambda>j. ?P (bufs u ! j)) xs")
    case (Some j)
    then have "j \<in> set xs" "?P (bufs u ! j)" using find_SomeD [OF Some] by auto
    moreover have "?tail j (\<lambda>b. b\<lparr>refcnt := refcnt b + 1\<rparr>) u = Ret i t"
      using r Some by (simp add: kbind_def bsearch_dll [OF dl])
    ultimately show ?thesis unfolding xs by blast
  next
    case None
    then have none: "\<forall>k < NBUF. \<not> ?P (bufs u ! k)" using xs by (auto simp: find_None_iff)
    have r2: "kbind (bsearch bprev ?Q) (\<lambda>r. case r of Some i \<Rightarrow> ?tail i (brecycle dev n)
         | None \<Rightarrow> kpanic ''bget: no buffers'') u = Ret i t"
      using r None by (simp add: kbind_def [of "bsearch bnext P" for P] bsearch_dll [OF dl])
    then obtain j where j: "find (\<lambda>j. ?Q (bufs u ! j)) (rev xs) = Some j" "?tail j (brecycle dev n) u = Ret i t"
      by (auto simp: kbind_def bsearch_dll [OF dl] kpanic_def split: option.splits)
    then have "j \<in> set xs" "?Q (bufs u ! j)" using find_SomeD [OF j(1)] by auto
    with none j(2) show ?thesis unfolding xs by blast
  qed
  then obtain j g where j: "j < NBUF" "?tail j g u = Ret i t"
    and c: "?P (bufs u ! j) \<and> g = (\<lambda>b. b\<lparr>refcnt := refcnt b + 1\<rparr>) \<or>
     (\<forall>k < NBUF. \<not> ?P (bufs u ! k)) \<and> ?Q (bufs u ! j) \<and> g = brecycle dev n" by blast
  note t = bget_tail [OF j(2)]
  show "i < NBUF" and "disk t = disk s" and "disksize t = disksize s" and "bst.more t = bst.more s"
    and "\<not> slocked (sleeplocks s (SBuf i))" and "\<exists>k. slocked k \<and> sleeplocks t = (sleeplocks s)(SBuf i := k)"
    using t j(1) f by simp_all
  show "bdev (bufs s ! i) = dev \<and> blockno (bufs s ! i) = n \<and> bufs t = upd i (\<lambda>b. b\<lparr>refcnt := refcnt b + 1\<rparr>) (bufs s) \<or>
      (\<forall>j < NBUF. \<not> (bdev (bufs s ! j) = dev \<and> blockno (bufs s ! j) = n)) \<and> refcnt (bufs s ! i) = 0 \<and>
        \<not> bdirty (bufs s ! i) \<and> bufs t = upd i (brecycle dev n) (bufs s)"
    using c t(1,2) f(1) by auto
qed

lemma iderw_Ret:
  assumes "iderw i s = Ret a t" and "i < length (bufs s)"
  shows "bdev (bufs s ! i) = 1" and "blockno (bufs s ! i) < disksize s" and "disksize t = disksize s"
    and "bst.more t = bst.more s" and "sleeplocks t = sleeplocks s"
    and "if bdirty (bufs s ! i) then
           bufs t = upd i (\<lambda>b. b\<lparr>bdirty := False, bvalid := True\<rparr>) (bufs s) \<and>
           disk t = (disk s)(blockno (bufs s ! i) := bdata (bufs s ! i))
         else bufs t = upd i (\<lambda>b. b\<lparr>bdata := disk s (blockno (bufs s ! i)), bvalid := True\<rparr>) (bufs s) \<and> disk t = disk s"
proof -
  let ?b = "\<lambda>u. bufs u ! i"
  from assms(1) obtain h u where u: "holdingsleep (SBuf i) s = Ret h u" and
    c: "h" "\<not> (bvalid (?b u) \<and> \<not> bdirty (?b u))" "bdev (?b u) = 1" "blockno (?b u) < disksize u"
    and t: "kseq (if bdirty (?b u) then
               kseq (kmod (bmod i (\<lambda>b. b\<lparr>bdirty := False\<rparr>)))
                 (kmod (\<lambda>s. s\<lparr>disk := (disk s)(blockno (?b u) := bdata (bufs s ! i))\<rparr>))
             else
               kmod (\<lambda>s. bmod i (\<lambda>c. c\<lparr>bdata := disk s (blockno (?b u))\<rparr>) s))
         (kmod (bmod i (\<lambda>b. b\<lparr>bvalid := True\<rparr>))) u = Ret a t"
    unfolding iderw_def kbind_Ret_iff kget_Ret_iff
    by (auto simp: kret_inv not_le split: if_splits)
  note f = kframe_bst [OF holdingsleep_Ret(1) [OF u]]
  show "bdev (bufs s ! i) = 1" "blockno (bufs s ! i) < disksize s" using c f by simp_all
  show "disksize t = disksize s" "bst.more t = bst.more s" "sleeplocks t = sleeplocks s"
    using t f by (auto simp: kret_inv split: if_splits)
  show "if bdirty (bufs s ! i) then
           bufs t = upd i (\<lambda>b. b\<lparr>bdirty := False, bvalid := True\<rparr>) (bufs s) \<and>
           disk t = (disk s)(blockno (bufs s ! i) := bdata (bufs s ! i))
         else bufs t = upd i (\<lambda>b. b\<lparr>bdata := disk s (blockno (bufs s ! i)), bvalid := True\<rparr>) (bufs s) \<and> disk t = disk s"
    using t f assms(2) by (auto simp: kret_inv o_def intro!: upd_cong split: if_splits)
qed


text \<open>Loading block \<open>n\<close> into a clean buffer that nobody holds changes no logical contents.\<close>

definition loadable :: "nat set \<Rightarrow> nat \<Rightarrow> nat \<Rightarrow> 'z bst_scheme \<Rightarrow> bool" where
  "loadable H n i s \<longleftrightarrow> i < NBUF \<and> i \<notin> H \<and> \<not> bdirty (bufs s ! i) \<and> \<not> caches s n i \<and> n < disksize s \<and>
     (\<forall>j < NBUF. j \<noteq> i \<longrightarrow> \<not> (bdev (bufs s ! j) = 1 \<and> blockno (bufs s ! j) = n))"

definition loaded :: "nat \<Rightarrow> nat \<Rightarrow> 'z bst_scheme \<Rightarrow> 'z bst_scheme \<Rightarrow> bool" where
  "loaded n i s t \<longleftrightarrow> (\<forall>j. j \<noteq> i \<longrightarrow> bufs t ! j = bufs s ! j) \<and> (\<exists>xs. dll xs (bufs t)) \<and>
     bvalid (bufs t ! i) \<and> \<not> bdirty (bufs t ! i) \<and> bdev (bufs t ! i) = 1 \<and> blockno (bufs t ! i) = n \<and>
     bdata (bufs t ! i) = disk s n \<and> 0 < refcnt (bufs t ! i) \<and> disk t = disk s \<and> disksize t = disksize s \<and>
     slocked (sleeplocks t (SBuf i)) \<and> (\<forall>j. j \<noteq> i \<longrightarrow> sleeplocks t (SBuf j) = sleeplocks s (SBuf j))"

lemma loaded_unique:
  assumes "bufs_unique (bufs s)" and "loadable H n i s" and "loaded n i s t"
  shows "bufs_unique (bufs t)"
proof -
  have bufs: "bufs t ! j = bufs s ! j" if "j \<noteq> i" for j using assms(3) that by (simp add: loaded_def)
  have "bdev (bufs t ! j) = 1 \<Longrightarrow> blockno (bufs t ! j) = n \<Longrightarrow> j < NBUF \<Longrightarrow> j = i" for j
    using assms(2) bufs by (metis loadable_def)
  then show ?thesis
    using assms(1,3) bufs unfolding bufs_unique_def loaded_def by metis
qed

lemma loaded_binv:
  assumes inv: "binv H s" and l: "loadable H n i s" "loaded n i s t"
  shows "binv (insert i H) t" and "synced t i"
proof -
  have "buf_ok (insert i H) t j" if j: "j < NBUF" for j
  proof (cases "j = i")
    case True
    then show ?thesis using l inv by (simp add: buf_ok_def binv_def loaded_def loadable_def)
  next
    case False
    then have "synced t j = synced s j" using l(2) by (simp add: synced_def loaded_def)
    moreover have "buf_ok H s j" using inv j by (simp add: binv_def)
    ultimately show ?thesis using False l(2) by (simp add: buf_ok_def loaded_def)
  qed
  then show "binv (insert i H) t"
    using inv loaded_unique [OF _ l] l by (simp add: binv_def loaded_def loadable_def)
  show "synced t i" using l(2) by (simp add: synced_def loaded_def)
qed

lemma loaded_view_new:
  assumes "binv H s" and "loadable H n i s" and "loaded n i s t"
  shows "view s n = disk s n" and "view t n = disk s n"
proof -
  have "\<not> caches s n j" if "j < NBUF" for j
    using that assms(2) by (cases "j = i") (auto simp: caches_def loadable_def)
  then show "view s n = disk s n" by (rule view_uncached)
  have "bufs_unique (bufs t)" using loaded_unique [OF _ assms(2,3)] assms(1) by (simp add: binv_def)
  then show "view t n = disk s n"
    using assms(2,3) view_cached [of t i n] by (simp add: loaded_def loadable_def caches_def)
qed

lemma loaded_view_other:
  assumes inv: "binv H s" and l: "loadable H n i s" "loaded n i s t" and "m \<noteq> n"
  shows "view t m = view s m"
proof -
  have us: "bufs_unique (bufs s)" and ok: "buf_ok H s i" using inv l(1) by (simp_all add: binv_def loadable_def)
  have ut: "bufs_unique (bufs t)" using loaded_unique [OF us l] .
  have bufs: "bufs t ! j = bufs s ! j" if "j \<noteq> i" for j using l(2) that by (simp add: loaded_def)
  then have cj: "caches t m j = caches s m j" if "j \<noteq> i" for j using that by (simp add: caches_def)
  have ci: "\<not> caches t m i" using l(2) assms(4) by (simp add: caches_def loaded_def)
  have dk: "disk t = disk s" using l(2) by (simp add: loaded_def)
  show ?thesis
  proof (cases rule: view_cases [OF us, of m])
    case (1 j)
    show ?thesis
    proof (cases "j = i")
      case True
      then have "synced s i" using ok 1(2) l(1) by (simp add: buf_ok_def caches_def loadable_def)
      then have v: "view s m = disk s m" using 1(2,3) l(1) True by (simp add: synced_def caches_def loadable_def)
      have "\<not> caches t m k" if "k < NBUF" for k
        using ci cj [of k] caches_unique [OF us _ 1(2) that 1(1)] True by (cases "k = i") auto
      then show ?thesis using view_uncached [of t m] v dk by simp
    next
      case False
      then show ?thesis using view_cached [OF ut 1(1), of m] cj [OF False] 1(2,3) bufs [OF False] by simp
    qed
  next
    case 2
    have "\<not> caches t m k" if "k < NBUF" for k using 2(1) [OF that] ci cj [of k] by (cases "k = i") auto
    then show ?thesis using view_uncached [of t m] 2(2) dk by simp
  qed
qed

lemma loaded_view: "binv H s \<Longrightarrow> loadable H n i s \<Longrightarrow> loaded n i s t \<Longrightarrow> view t = view s"
  using loaded_view_new loaded_view_other by (metis ext)


text \<open>
  The law of \<open>bread\<close>: the buffer it returns was not held before, holds the logical contents of the
  block and is locked; the contents of the other buffers in use are as before.
\<close>

definition bread_post :: "nat set \<Rightarrow> nat \<Rightarrow> 'z bst_scheme \<Rightarrow> nat \<Rightarrow> 'z bst_scheme \<Rightarrow> bool" where
  "bread_post H n s i t \<longleftrightarrow> i < NBUF \<and> i \<notin> H \<and> binv (insert i H) t \<and> view t = view s \<and> synced t i \<and>
     bdata (bufs t ! i) = view s n \<and> blockno (bufs t ! i) = n \<and> n < disksize s \<and> disk t = disk s \<and> disksize t = disksize s \<and>
     bst.more t = bst.more s \<and> (\<forall>j \<in> H. core (bufs t ! j) = core (bufs s ! j))"

lemma bread_hit:
  assumes inv: "binv H s" and u: "bget dev n s = Ret i u" and v: "bvalid (bufs u ! i)"
  shows "dev = 1 \<and> bread_post H n s i u"
proof -
  obtain xs where xs: "dll xs (bufs s)" using inv by (auto simp: binv_def)
  note g = bget_Ret [OF u xs]
  have il: "i < length (bufs s)" using g(1) binv_length [OF inv] by simp
  have ok: "buf_ok H s i" using inv g(1) by (simp add: binv_def)
  have iH: "i \<notin> H" using ok g(5) by (auto simp: buf_ok_def)
  obtain k where k: "slocked k" "sleeplocks u = (sleeplocks s)(SBuf i := k)" using g(6) by blast
  have m: "bdev (bufs s ! i) = dev" "blockno (bufs s ! i) = n" "bufs u = upd i (\<lambda>b. b\<lparr>refcnt := refcnt b + 1\<rparr>) (bufs s)"
    using g(7) v il by (auto simp: brecycle_def)
  have vs: "bvalid (bufs s ! i)" using v m(3) il by simp
  have c: "core (bufs u ! j) = core (bufs s ! j)" for j
    using il by (simp add: m(3) nth_upd_if core_def)
  have "dll xs (bufs u)" unfolding m(3) by (rule dll_bmod [OF xs]) simp
  moreover have "insert i H \<subseteq> {..<NBUF}" using inv g(1) by (simp add: binv_def)
  moreover have "0 < refcnt (bufs u ! j) \<and> bvalid (bufs s ! j) \<and> slocked (sleeplocks u (SBuf j))" if "j \<in> insert i H" for j
  proof (cases "j = i")
    case False
    then have "buf_ok H s j" "j \<in> H" using that inv by (auto simp: binv_def)
    then show ?thesis using False il k by (auto simp: buf_ok_def m(3) nth_upd_if)
  qed (use vs k il m(3) in simp)
  ultimately have "binv (insert i H) u" by (intro binv_core [OF inv c g(2,3)]) auto
  moreover have "view u = view s" using view_core [OF c g(2)] .
  moreover have dev: "dev = 1" "n < disksize s" using ok vs m by (simp_all add: buf_ok_def)
  moreover have "bdata (bufs u ! i) = view s n"
    using view_cached [of s i n] inv g(1) vs m dev il by (simp add: caches_def binv_def)
  moreover have "synced u i" using ok iH vs c [of i] g(2) by (simp add: buf_ok_def synced_def core_def)
  ultimately show ?thesis using g iH c m il by (simp add: bread_post_def)
qed

text \<open>The buffer that \<open>bget\<close> chooses for a block that is not valid in the cache.\<close>

lemma bget_fresh:
  assumes inv: "binv H s" and u: "bget 1 n s = Ret i u" and v: "\<not> bvalid (bufs u ! i)"
  shows "\<exists>h. bufs u = upd i h (bufs s) \<and> bdev (h (bufs s ! i)) = 1 \<and> blockno (h (bufs s ! i)) = n \<and>
      (\<forall>b. bnext (h b) = bnext b \<and> bprev (h b) = bprev b) \<and> 0 < refcnt (h (bufs s ! i)) \<and> \<not> bdirty (h (bufs s ! i))"
    and "n < disksize s \<Longrightarrow> loadable H n i s"
proof -
  obtain xs where xs: "dll xs (bufs s)" using inv by (auto simp: binv_def)
  note g = bget_Ret [OF u xs]
  have il: "i < length (bufs s)" using g(1) binv_length [OF inv] by simp
  have ok: "buf_ok H s i" and us: "bufs_unique (bufs s)" using inv g(1) by (simp_all add: binv_def)
  have iH: "i \<notin> H" using ok g(5) by (auto simp: buf_ok_def)
  have m: "bdev (bufs s ! i) = 1 \<and> blockno (bufs s ! i) = n \<and> \<not> bvalid (bufs s ! i) \<and>
       bufs u = upd i (\<lambda>b. b\<lparr>refcnt := refcnt b + 1\<rparr>) (bufs s) \<or>
      (\<forall>j < NBUF. \<not> (bdev (bufs s ! j) = 1 \<and> blockno (bufs s ! j) = n)) \<and> \<not> bdirty (bufs s ! i) \<and>
        bufs u = upd i (brecycle 1 n) (bufs s)" (is "?hit \<or> ?new")
    using g(7) v il by auto
  have nd: "\<not> bdirty (bufs s ! i)" using m ok by (auto simp: buf_ok_def)
  show "\<exists>h. bufs u = upd i h (bufs s) \<and> bdev (h (bufs s ! i)) = 1 \<and> blockno (h (bufs s ! i)) = n \<and>
      (\<forall>b. bnext (h b) = bnext b \<and> bprev (h b) = bprev b) \<and> 0 < refcnt (h (bufs s ! i)) \<and> \<not> bdirty (h (bufs s ! i))"
    using m
  proof
    assume ?hit
    then show ?thesis using nd by (intro exI [of _ "\<lambda>b. b\<lparr>refcnt := refcnt b + 1\<rparr>"]) simp
  next
    assume ?new
    then show ?thesis by (intro exI [of _ "brecycle 1 n"]) (simp add: brecycle_def)
  qed
  assume n: "n < disksize s"
  have "\<not> (bdev (bufs s ! j) = 1 \<and> blockno (bufs s ! j) = n)" if "j < NBUF" "j \<noteq> i" for j
    using m us that g(1) unfolding bufs_unique_def by (metis zero_neq_one)
  moreover have "\<not> caches s n i" using m g(1) by (auto simp: caches_def)
  ultimately show "loadable H n i s" using g(1) iH nd n by (simp add: loadable_def)
qed

lemma bread_miss:
  assumes inv: "binv H s" and u: "bget dev n s = Ret i u" and v: "\<not> bvalid (bufs u ! i)" and r: "iderw i u = Ret b t"
  shows "dev = 1 \<and> bread_post H n s i t"
proof -
  obtain xs where xs: "dll xs (bufs s)" using inv by (auto simp: binv_def)
  note g = bget_Ret [OF u xs]
  have il: "i < length (bufs s)" using g(1) binv_length [OF inv] by simp
  then have ul: "i < length (bufs u)" using g(7) by auto
  note w = iderw_Ret [OF r ul]
  have dev: "dev = 1" using w(1) g(7) il by (auto simp: brecycle_def)
  obtain h where h: "bufs u = upd i h (bufs s)" "bdev (h (bufs s ! i)) = 1" "blockno (h (bufs s ! i)) = n"
      "\<And>b. bnext (h b) = bnext b \<and> bprev (h b) = bprev b" "0 < refcnt (h (bufs s ! i))" "\<not> bdirty (h (bufs s ! i))"
    using bget_fresh(1) [OF inv u [unfolded dev] v] by blast
  have n: "n < disksize s" using w(2) h il g(3) by simp
  have lb: "loadable H n i s" using bget_fresh(2) [OF inv u [unfolded dev] v n] .
  obtain k where k: "slocked k" "sleeplocks u = (sleeplocks s)(SBuf i := k)" using g(6) by blast
  have bt: "bufs t = upd i (\<lambda>b. (h b)\<lparr>bdata := disk s n, bvalid := True\<rparr>) (bufs s)" "disk t = disk s"
    using w(6) h il g(2) by (simp_all add: o_def)
  have "dll xs (bufs t)" unfolding bt(1) by (rule dll_bmod [OF xs]) (simp add: h(4))
  then have ld: "loaded n i s t"
    using bt il h w g k by (auto simp: loaded_def nth_upd_if)
  have "core (bufs t ! j) = core (bufs s ! j)" if "j \<in> H" for j
    using that lb ld by (auto simp: loaded_def loadable_def)
  then show ?thesis
    using loaded_binv [OF inv lb ld] loaded_view [OF inv lb ld] loaded_view_new [OF inv lb ld] lb ld g w dev
    by (simp add: bread_post_def loaded_def loadable_def)
qed

lemma bread_law:
  assumes "binv H s" and "bread dev n s = Ret i t"
  shows "bread_post H n s i t" and "dev = 1"
proof -
  from assms(2) obtain u b where u: "bget dev n s = Ret i u"
      and t: "if bvalid (bufs u ! i) then t = u else iderw i u = Ret b t"
    by (auto simp: bread_def kret_inv split: if_splits)
  have "dev = 1 \<and> bread_post H n s i t"
    using bread_hit [OF assms(1) u] bread_miss [OF assms(1) u] t by (cases "bvalid (bufs u ! i)") auto
  then show "bread_post H n s i t" and "dev = 1" by simp_all
qed


text \<open>The law of \<open>brelse\<close>: a buffer that is dirty or agrees with the disk can be given up.\<close>

lemma core_upd:
  assumes "\<And>b. core (f b) = core b"
  shows "core (upd k f cs ! j) = core (cs ! j)"
  using assms by (cases "k < length cs") (auto simp: nth_upd_if)

lemma refcnt_upd:
  assumes "\<And>b. refcnt (f b) = refcnt b"
  shows "refcnt (upd k f cs ! j) = refcnt (cs ! j)"
  using assms by (cases "k < length cs") (auto simp: nth_upd_if)

lemma core_simps [simp]: "core (b\<lparr>bnext := x\<rparr>) = core b" "core (b\<lparr>bprev := x\<rparr>) = core b" "core (b\<lparr>refcnt := y\<rparr>) = core b"
  by (simp_all add: core_def)

lemma links_keep:
  "core (bfront i bs ! j) = core (bs ! j)" "core (bunlink i bs ! j) = core (bs ! j)"
  "refcnt (bfront i bs ! j) = refcnt (bs ! j)" "refcnt (bunlink i bs ! j) = refcnt (bs ! j)"
  by (simp_all add: bfront_def bunlink_def Let_def core_upd refcnt_upd del: upd_upd)

lemma bunref_keep:
  "core (bunref i bs ! j) = core (bs ! j)" "j \<noteq> i \<Longrightarrow> refcnt (bunref i bs ! j) = refcnt (bs ! j)"
  by (simp_all add: bunref_def Let_def links_keep core_upd)

lemma dll_bunref:
  assumes "dll xs bs" and "i < NBUF"
  shows "\<exists>ys. dll ys (bunref i bs)"
proof -
  define cs where "cs = upd i (\<lambda>b. b\<lparr>refcnt := (if refcnt b = 0 then 2 ^ 32 - 1 else refcnt b - 1)\<rparr>) bs"
  have d: "dll xs cs" unfolding cs_def by (rule dll_bmod [OF assms(1)]) simp
  have "i \<in> set xs" using assms by (simp add: dll_def)
  then obtain ys zs where "xs = ys @ i # zs" by (meson split_list)
  with d have "dll (i # ys @ zs) (bfront i (bunlink i cs))" by (auto intro: dll_move_front)
  moreover have "bunref i bs = (if refcnt (cs ! i) = 0 then bfront i (bunlink i cs) else cs)"
    by (simp only: bunref_def cs_def Let_def)
  ultimately show ?thesis using d by auto
qed

lemma brelse_inv:
  assumes "brelse i s = Ret a t"
  shows "bufs t = bunref i (bufs s)" and "disk t = disk s" and "disksize t = disksize s" and "bst.more t = bst.more s"
    and "sleeplocks t = (sleeplocks s)(SBuf i := \<lparr>slocked = False, spid = 0\<rparr>)"
proof -
  from assms obtain h u b v c w where u: "holdingsleep (SBuf i) s = Ret h u" and v: "releasesleep (SBuf i) u = Ret b v"
      and w: "acquire LBcache v = Ret c w" and t: "release LBcache (w\<lparr>bufs := bunref i (bufs w)\<rparr>) = Ret a t"
    by (auto simp: brelse_def kret_inv split: if_splits)
  note f = kframe_bst [OF holdingsleep_Ret(1) [OF u]] and g = more_bst [OF releasesleep_Ret(2) [OF v]] releasesleep_Ret(1) [OF v]
    and k = kframe_bst [OF kframe_acquire [OF w]] and l = kframe_bst [OF kframe_release [OF t]]
  show "bufs t = bunref i (bufs s)" and "disk t = disk s" and "disksize t = disksize s" and "bst.more t = bst.more s"
    and "sleeplocks t = (sleeplocks s)(SBuf i := \<lparr>slocked = False, spid = 0\<rparr>)"
    using f g k l by simp_all
qed

definition brelse_post :: "nat set \<Rightarrow> 'z bst_scheme \<Rightarrow> 'z bst_scheme \<Rightarrow> bool" where
  "brelse_post G s t \<longleftrightarrow> binv G t \<and> view t = view s \<and> disk t = disk s \<and> disksize t = disksize s \<and>
     bst.more t = bst.more s \<and> (\<forall>j. core (bufs t ! j) = core (bufs s ! j))"

lemma brelse_law:
  assumes inv: "binv H s" and i: "i \<in> H" "synced s i" and r: "brelse i s = Ret a t"
  shows "brelse_post (H - {i}) s t"
proof -
  note b = brelse_inv [OF r]
  have c: "core (bufs t ! j) = core (bufs s ! j)" for j by (simp add: b bunref_keep)
  have iN: "i < NBUF" using inv i by (auto simp: binv_def)
  have "binv (H - {i}) t"
  proof (rule binv_core [OF inv c b(2,3)])
    show "\<exists>xs. dll xs (bufs t)" using inv dll_bunref [OF _ iN] b(1) by (auto simp: binv_def)
    show "H - {i} \<subseteq> {..<NBUF}" using inv by (auto simp: binv_def)
    show "0 < refcnt (bufs t ! j) \<and> bvalid (bufs s ! j) \<and> slocked (sleeplocks t (SBuf j))" if "j \<in> H - {i}" for j
    proof -
      have "buf_ok H s j" using that inv by (auto simp: binv_def)
      then show ?thesis using that by (simp add: b bunref_keep buf_ok_def)
    qed
    show "synced s j" if "j < NBUF" "j \<in> H" "j \<notin> H - {i}" for j using that i by simp
  qed
  then show ?thesis using view_core [OF c b(2)] b c by (simp add: brelse_post_def)
qed


text \<open>Changing the data of a buffer one holds changes the contents of its block and of no other.\<close>

lemma bdata_law:
  assumes inv: "binv H s" and i: "i \<in> H" and f: "length (f (bdata (bufs s ! i))) = BSIZE"
  defines "t \<equiv> bmod i (\<lambda>b. b\<lparr>bdata := f (bdata b)\<rparr>) s"
  shows "binv H t" and "view t = (view s)(blockno (bufs s ! i) := f (bdata (bufs s ! i)))"
proof -
  have iN: "i < NBUF" and il: "i < length (bufs s)" using inv i binv_length [OF inv] by (auto simp: binv_def)
  have us: "bufs_unique (bufs s)" using inv by (simp add: binv_def)
  have nth: "bufs t ! j = (if j = i then (bufs s ! i)\<lparr>bdata := f (bdata (bufs s ! i))\<rparr> else bufs s ! j)" for j
    using il by (simp add: t_def nth_upd_if)
  then have "bdev (bufs t ! j) = bdev (bufs s ! j)" "blockno (bufs t ! j) = blockno (bufs s ! j)" for j by simp_all
  then have ut: "bufs_unique (bufs t)" using us by (simp add: bufs_unique_def)
  have ts: "disk t = disk s" "disksize t = disksize s" "sleeplocks t = sleeplocks s" by (simp_all add: t_def)
  have ok: "buf_ok H s i" using inv iN by (simp add: binv_def)
  have "buf_ok H t j" if "j < NBUF" for j
  proof -
    have "buf_ok H s j" using inv that by (simp add: binv_def)
    then show ?thesis using i f by (cases "j = i") (simp_all add: buf_ok_def nth synced_def ts)
  qed
  moreover obtain xs where "dll xs (bufs s)" using inv by (auto simp: binv_def)
  then have "dll xs (bufs t)" unfolding t_def bmod_sel by (rule dll_bmod) simp
  ultimately show "binv H t" using inv ut ts by (auto simp: binv_def)
  have c: "caches t n j = caches s n j" for n j by (simp add: caches_def nth)
  have ci: "caches s (blockno (bufs s ! i)) i" using ok i by (simp add: caches_def buf_ok_def)
  show "view t = (view s)(blockno (bufs s ! i) := f (bdata (bufs s ! i)))"
  proof
    fix n
    show "view t n = ((view s)(blockno (bufs s ! i) := f (bdata (bufs s ! i)))) n"
    proof (cases rule: view_cases [OF us, of n])
      case (1 j)
      then have "view t n = bdata (bufs t ! j)" using view_cached [OF ut] c by simp
      moreover have "j = i \<longleftrightarrow> n = blockno (bufs s ! i)"
        using caches_unique [OF us 1(2) _ 1(1) iN] 1(2) ci by (auto simp: caches_def)
      ultimately show ?thesis using 1 by (simp add: nth)
    next
      case 2
      then have "n \<noteq> blockno (bufs s ! i)" using ci iN by blast
      then show ?thesis using 2 view_uncached [of t n] c by (simp add: t_def)
    qed
  qed
qed

lemma bdirty_law:
  assumes inv: "binv H s" and i: "i \<in> H"
  defines "t \<equiv> bmod i (\<lambda>b. b\<lparr>bdirty := True\<rparr>) s"
  shows "binv H t" and "view t = view s" and "synced t i"
proof -
  have il: "i < length (bufs s)" using inv i binv_length [OF inv] by (auto simp: binv_def)
  have nth: "bufs t ! j = (if j = i then (bufs s ! i)\<lparr>bdirty := True\<rparr> else bufs s ! j)" for j
    using il by (simp add: t_def nth_upd_if)
  have ts: "disk t = disk s" "disksize t = disksize s" "sleeplocks t = sleeplocks s" by (simp_all add: t_def)
  have "buf_ok H t j" if "j < NBUF" for j
  proof -
    have "buf_ok H s j" using inv that by (simp add: binv_def)
    then show ?thesis using i by (cases "j = i") (simp_all add: buf_ok_def nth synced_def ts)
  qed
  moreover obtain xs where "dll xs (bufs s)" using inv by (auto simp: binv_def)
  then have "dll xs (bufs t)" unfolding t_def bmod_sel by (rule dll_bmod) simp
  moreover have "bdev (bufs t ! j) = bdev (bufs s ! j)" "blockno (bufs t ! j) = blockno (bufs s ! j)" for j
    by (simp_all add: nth)
  then have "bufs_unique (bufs t)" using inv by (simp add: bufs_unique_def binv_def)
  ultimately show "binv H t" using inv ts by (auto simp: binv_def)
  show "synced t i" by (simp add: synced_def nth)
  have "caches t = caches s" by (simp add: fun_eq_iff caches_def nth)
  then have "view t n = view s n" for n
    by (cases "find (caches s n) [0..<NBUF]") (simp_all add: view_def nth ts)
  then show "view t = view s" by blast
qed


text \<open>The law of \<open>bwrite\<close>: the disk block becomes what the buffer holds.\<close>

lemma bwrite_inv:
  assumes "bwrite i s = Ret a t" and "i < length (bufs s)" and "bvalid (bufs s ! i)"
  shows "\<And>j. bufs t ! j = (if j = i then (bufs s ! i)\<lparr>bdirty := False\<rparr> else bufs s ! j)"
    and "length (bufs t) = length (bufs s)"
    and "disk t = (disk s)(blockno (bufs s ! i) := bdata (bufs s ! i))"
    and "disksize t = disksize s" and "bst.more t = bst.more s" and "sleeplocks t = sleeplocks s"
proof -
  from assms(1) obtain h u where u: "holdingsleep (SBuf i) s = Ret h u"
      and t: "iderw i (bmod i (\<lambda>b. b\<lparr>bdirty := True\<rparr>) u) = Ret a t"
    by (auto simp: bwrite_def kret_inv split: if_splits)
  note f = kframe_bst [OF holdingsleep_Ret(1) [OF u]]
  have "i < length (bufs (bmod i (\<lambda>b. b\<lparr>bdirty := True\<rparr>) u))" using assms(2) f by simp
  note w = iderw_Ret [OF t this]
  have b: "bufs t = upd i (\<lambda>b. b\<lparr>bdirty := False, bvalid := True\<rparr>) (bufs s)"
    using w(6) f assms(2) by (simp add: o_def)
  show "bufs t ! j = (if j = i then (bufs s ! i)\<lparr>bdirty := False\<rparr> else bufs s ! j)" for j
    using assms(2,3) by (simp add: b nth_upd_if)
  show "length (bufs t) = length (bufs s)" by (simp add: b)
  show "disk t = (disk s)(blockno (bufs s ! i) := bdata (bufs s ! i))"
    and "disksize t = disksize s" and "bst.more t = bst.more s" and "sleeplocks t = sleeplocks s"
    using w f assms(2) by simp_all
qed

definition bwrite_post :: "nat set \<Rightarrow> 'z bst_scheme \<Rightarrow> nat \<Rightarrow> 'z bst_scheme \<Rightarrow> bool" where
  "bwrite_post H s i t \<longleftrightarrow> binv H t \<and> view t = view s \<and> synced t i \<and>
     disk t = (disk s)(blockno (bufs s ! i) := bdata (bufs s ! i)) \<and> disksize t = disksize s \<and>
     bst.more t = bst.more s \<and> (\<forall>j. bufs t ! j = (if j = i then (bufs s ! i)\<lparr>bdirty := False\<rparr> else bufs s ! j))"

lemma bwrite_law:
  assumes inv: "binv H s" and i: "i \<in> H" and r: "bwrite i s = Ret a t"
  shows "bwrite_post H s i t"
proof -
  have iN: "i < NBUF" and il: "i < length (bufs s)" using inv i binv_length [OF inv] by (auto simp: binv_def)
  have ok: "buf_ok H s j" if "j < NBUF" for j using inv that by (simp add: binv_def)
  have us: "bufs_unique (bufs s)" using inv by (simp add: binv_def)
  have v: "bvalid (bufs s ! i)" using ok [OF iN] i by (simp add: buf_ok_def)
  note w = bwrite_inv [OF r il v]
  have sel: "bdev (bufs t ! j) = bdev (bufs s ! j)" "blockno (bufs t ! j) = blockno (bufs s ! j)"
    "bdata (bufs t ! j) = bdata (bufs s ! j)" "bvalid (bufs t ! j) = bvalid (bufs s ! j)"
    "bnext (bufs t ! j) = bnext (bufs s ! j)" "bprev (bufs t ! j) = bprev (bufs s ! j)"
    "refcnt (bufs t ! j) = refcnt (bufs s ! j)" for j by (simp_all add: w(1))
  have other: "blockno (bufs s ! j) \<noteq> blockno (bufs s ! i)" if "j < NBUF" "j \<noteq> i" "bvalid (bufs s ! j)" for j
    using caches_unique [OF us, of "blockno (bufs s ! i)" i j] ok [OF that(1)] ok [OF iN] v that iN
    by (auto simp: caches_def buf_ok_def)
  have si: "synced t i" by (simp add: synced_def sel w(3))
  have "buf_ok H t j" if j: "j < NBUF" for j
  proof (cases "j = i")
    case True
    then show ?thesis using ok [OF iN] si i w(4,6) by (simp add: buf_ok_def sel w(1))
  next
    case False
    then have "bvalid (bufs s ! j) \<Longrightarrow> synced t j = synced s j"
      using other [OF j] by (simp add: synced_def w(1,3))
    then show ?thesis using ok [OF j] False w(4,6) by (auto simp: buf_ok_def w(1))
  qed
  moreover obtain xs where xs: "dll xs (bufs s)" using inv by (auto simp: binv_def)
  then have "dll xs (bufs t)" using w(2) seg_cong [of NBUF xs "bufs t" "bufs s" NBUF] sel by (simp add: dll_def)
  moreover have "bufs_unique (bufs t)" using us by (simp add: bufs_unique_def sel)
  moreover have "length (disk t n) = BSIZE" for n
    using inv ok [OF iN] v by (simp add: w(3) binv_def buf_ok_def)
  ultimately have bt: "binv H t" using inv by (auto simp: binv_def)
  have c: "caches t = caches s" by (simp add: fun_eq_iff caches_def sel)
  have "view t n = view s n" for n
  proof (cases rule: view_cases [OF us, of n])
    case (1 j)
    then show ?thesis using view_cached [of t j n] bt c by (simp add: sel binv_def)
  next
    case 2
    moreover have "n \<noteq> blockno (bufs s ! i)" using 2(1) [OF iN] ok [OF iN] v by (auto simp: caches_def buf_ok_def)
    ultimately show ?thesis using view_uncached [of t n] c by (simp add: w(3))
  qed
  then have "view t = view s" by blast
  then show ?thesis using bt si w by (simp add: bwrite_post_def)
qed

section \<open>When the cache operations return\<close>

definition mine :: "'z sst_scheme \<Rightarrow> sleepid \<Rightarrow> bool" where
  "mine s l \<longleftrightarrow> sleeplocks s l = \<lparr>slocked = True, spid = mypid s\<rparr>"

lemma bmod_keep [simp]:
  "spin (bmod l f s) = spin s" "ncli (bmod l f s) = ncli s" "ifl (bmod l f s) = ifl s" "cur (bmod l f s) = cur s"
  "procs (bmod l f s) = procs s" "cpu_of (bmod l f s) = cpu_of s" "mypid (bmod l f s) = mypid s"
  by (simp_all add: bmod_def cpu_of_def mypid_def)

lemma qheld_bmod [simp]: "qheld L (bmod l f s) = qheld L s"
  by (simp add: qheld_def kready_def)

lemma mypid_lock [simp]: "mypid (lock_st lk s) = mypid s" "mypid (unlock_st lk s) = mypid s"
  by (simp_all add: mypid_def)

lemma bst_lock [simp]: "bufs (lock_st lk s) = bufs s" "bufs (unlock_st lk s) = bufs s"
  by (simp_all add: lock_st_def unlock_st_def)

lemma bget_tail_returns:
  assumes "qheld {LBcache} u" and "\<not> slocked (sleeplocks u (SBuf i))"
  shows "\<exists>t. kseq (kmod (bmod i f)) (kseq (release LBcache) (kseq (acquiresleep (SBuf i)) (kret i))) u = Ret i t \<and>
    quiet t \<and> mine t (SBuf i) \<and> mypid t = mypid u"
proof -
  let ?v = "unlock_st LBcache (bmod i f u)"
  have r: "release LBcache (bmod i f u) = Ret () ?v" "quiet ?v"
    using qheld_release [of "{LBcache}" "bmod i f u"] assms(1) by simp_all
  then obtain t where t: "acquiresleep (SBuf i) ?v = Ret () t" "quiet t"
    using acquiresleep_returns [OF r(2)] assms(2) by auto
  have "mine t (SBuf i)" "mypid t = mypid u" using acquiresleep_Ret [OF t(1)] by (simp_all add: mine_def)
  with r(1) t show ?thesis by (simp add: kdefs)
qed

definition can_get :: "nat \<Rightarrow> nat \<Rightarrow> 'z bst_scheme \<Rightarrow> bool" where
  "can_get dev n s \<longleftrightarrow>
     (\<forall>i < NBUF. bdev (bufs s ! i) = dev \<and> blockno (bufs s ! i) = n \<longrightarrow> \<not> slocked (sleeplocks s (SBuf i))) \<and>
     (\<forall>i < NBUF. refcnt (bufs s ! i) = 0 \<longrightarrow> \<not> slocked (sleeplocks s (SBuf i))) \<and>
     (\<exists>i < NBUF. refcnt (bufs s ! i) = 0 \<and> \<not> bdirty (bufs s ! i))"

lemma bget_returns:
  assumes q: "quiet s" and xs: "dll xs (bufs s)" and g: "can_get dev n s"
  shows "\<exists>i t. bget dev n s = Ret i t \<and> quiet t \<and> mine t (SBuf i) \<and> mypid t = mypid s"
proof -
  let ?P = "\<lambda>b. bdev b = dev \<and> blockno b = n" and ?Q = "\<lambda>b. refcnt b = 0 \<and> \<not> bdirty b"
  let ?u = "lock_st LBcache s"
  have a: "acquire LBcache s = Ret () ?u" "qheld {LBcache} ?u" using qheld_acquire [OF q] by simp_all
  have dl: "dll xs (bufs ?u)" using xs by simp
  have xs': "set xs = {..<NBUF}" using xs by (simp add: dll_def)
  show ?thesis
  proof (cases "find (\<lambda>j. ?P (bufs s ! j)) xs")
    case (Some j)
    then have "j < NBUF" "?P (bufs s ! j)" using find_SomeD [OF Some] xs' by auto
    then have "\<not> slocked (sleeplocks ?u (SBuf j))" using g by (simp add: can_get_def)
    from bget_tail_returns [OF a(2) this, of "\<lambda>b. b\<lparr>refcnt := refcnt b + 1\<rparr>"] show ?thesis
      using Some a(1) unfolding bget_def kseq_def [of "acquire lk" for lk] kbind_def [of "acquire lk" for lk]
        kbind_def [of "bsearch d P" for d P] by (auto simp: bsearch_dll [OF dl])
  next
    case None
    obtain k where "k < NBUF" "?Q (bufs s ! k)" using g by (auto simp: can_get_def)
    then have "find (\<lambda>j. ?Q (bufs s ! j)) (rev xs) \<noteq> None" using xs' by (auto simp: find_None_iff)
    then obtain j where j: "find (\<lambda>j. ?Q (bufs s ! j)) (rev xs) = Some j" by blast
    then have "j < NBUF" "?Q (bufs s ! j)" using find_SomeD [OF j] xs' by auto
    then have "\<not> slocked (sleeplocks ?u (SBuf j))" using g by (simp add: can_get_def)
    from bget_tail_returns [OF a(2) this, of "\<lambda>b. b\<lparr>bdev := dev, blockno := n, bvalid := False, bdirty := False, refcnt := 1\<rparr>"]
    show ?thesis
      using None j a(1) unfolding bget_def kseq_def [of "acquire lk" for lk] kbind_def [of "acquire lk" for lk]
        kbind_def [of "bsearch d P" for d P] by (auto simp: bsearch_dll [OF dl])
  qed
qed


lemma iderw_returns:
  assumes "quiet s" and "mine s (SBuf i)" and "\<not> (bvalid (bufs s ! i) \<and> \<not> bdirty (bufs s ! i))"
    and "bdev (bufs s ! i) = 1" and "blockno (bufs s ! i) < disksize s"
  shows "\<exists>t. iderw i s = Ret () t \<and> quiet t \<and> mypid t = mypid s"
proof -
  obtain u where u: "holdingsleep (SBuf i) s = Ret True u" "quiet u"
    using holdingsleep_returns [OF assms(1), of "SBuf i"] assms(2) by (auto simp: mine_def)
  note f = kframe_bst [OF holdingsleep_Ret(1) [OF u(1)]] and m = kframe_mypid [OF holdingsleep_Ret(1) [OF u(1)]]
  define v where "v = bmod i (\<lambda>b. b\<lparr>bvalid := True\<rparr>) (if bdirty (bufs s ! i)
     then (bmod i (\<lambda>b. b\<lparr>bdirty := False\<rparr>) u)\<lparr>disk := (disk u)(blockno (bufs u ! i) := bdata (bufs (bmod i (\<lambda>b. b\<lparr>bdirty := False\<rparr>) u) ! i))\<rparr>
     else bmod i (\<lambda>c. c\<lparr>bdata := disk u (blockno (bufs u ! i))\<rparr>) u)"
  have "iderw i s = Ret () v"
    using assms(3-5) f by (auto simp: iderw_def kdefs u(1) v_def not_le)
  moreover have "quiet v" by (rule qheld_cong [OF u(2)]) (simp_all add: v_def cpu_of_def bmod_def)
  moreover have "mypid v = mypid s" using m by (simp add: v_def mypid_def)
  ultimately show ?thesis by blast
qed

lemma bread_returns:
  assumes q: "quiet s" and inv: "binv H s" and g: "can_get 1 n s" and n: "n < disksize s"
  shows "\<exists>i t. bread 1 n s = Ret i t \<and> quiet t \<and> mine t (SBuf i) \<and> mypid t = mypid s"
proof -
  obtain xs where xs: "dll xs (bufs s)" using inv by (auto simp: binv_def)
  obtain i u where u: "bget 1 n s = Ret i u" "quiet u" "mine u (SBuf i)" "mypid u = mypid s"
    using bget_returns [OF q xs g] by blast
  note b = bget_Ret [OF u(1) xs]
  have il: "i < length (bufs s)" using b(1) binv_length [OF inv] by simp
  show ?thesis
  proof (cases "bvalid (bufs u ! i)")
    case True
    then show ?thesis using u by (simp add: bread_def kdefs)
  next
    case False
    have "bdev (bufs u ! i) = 1" "blockno (bufs u ! i) < disksize u"
      using b(3,7) il n by (auto simp: brecycle_def)
    then obtain t where t: "iderw i u = Ret () t" "quiet t" "mypid t = mypid u"
      using iderw_returns [OF u(2,3)] False by blast
    have "i < length (bufs u)" using b(7) il by auto
    note w = iderw_Ret [OF t(1) this]
    have "mine t (SBuf i)" using u(3) t(3) w(5) by (simp add: mine_def)
    then show ?thesis using u False t by (simp add: bread_def kdefs)
  qed
qed

lemma brelse_returns:
  assumes "quiet s" and "mine s (SBuf i)"
  shows "\<exists>t. brelse i s = Ret () t \<and> quiet t"
proof -
  obtain u where u: "holdingsleep (SBuf i) s = Ret True u" "quiet u"
    using holdingsleep_returns [OF assms(1), of "SBuf i"] assms(2) by (auto simp: mine_def)
  obtain v where v: "releasesleep (SBuf i) u = Ret () v" "quiet v" using releasesleep_returns [OF u(2)] by blast
  let ?w = "lock_st LBcache v"
  have a: "acquire LBcache v = Ret () ?w" "qheld {LBcache} ?w" using qheld_acquire [OF v(2)] by simp_all
  let ?x = "?w\<lparr>bufs := bunref i (bufs ?w)\<rparr>"
  have "qheld {LBcache} ?x" by (rule qheld_cong [OF a(2)]) (simp_all add: cpu_of_def)
  then have "release LBcache ?x = Ret () (unlock_st LBcache ?x)" "quiet (unlock_st LBcache ?x)"
    using qheld_release [of "{LBcache}" ?x] by simp_all
  then show ?thesis using u(1) v(1) a(1) by (simp add: brelse_def kdefs)
qed

lemma bwrite_returns:
  assumes "quiet s" and "binv H s" and "i \<in> H" and "mine s (SBuf i)"
  shows "\<exists>t. bwrite i s = Ret () t \<and> quiet t"
proof -
  obtain u where u: "holdingsleep (SBuf i) s = Ret True u" "quiet u"
    using holdingsleep_returns [OF assms(1), of "SBuf i"] assms(4) by (auto simp: mine_def)
  note f = kframe_bst [OF holdingsleep_Ret(1) [OF u(1)]] and m = kframe_mypid [OF holdingsleep_Ret(1) [OF u(1)]]
  have ok: "buf_ok H s i" and il: "i < length (bufs s)"
    using assms(2,3) binv_length [OF assms(2)] by (auto simp: binv_def)
  let ?v = "bmod i (\<lambda>b. b\<lparr>bdirty := True\<rparr>) u"
  have "mine ?v (SBuf i)" using assms(4) f m by (simp add: mine_def)
  moreover have "bdirty (bufs ?v ! i)" "bdev (bufs ?v ! i) = 1" "blockno (bufs ?v ! i) < disksize ?v"
    using ok il f assms(3) by (simp_all add: buf_ok_def)
  moreover have "quiet ?v" using u(2) by simp
  ultimately obtain t where "iderw i ?v = Ret () t" "quiet t" using iderw_returns by blast
  then show ?thesis using u(1) by (simp add: bwrite_def kdefs)
qed

section \<open>Total correctness of the cache operations\<close>

text \<open>
  \<open>ready k H s\<close>: the running process holds exactly the buffers in \<open>H\<close>, nobody holds another one, the
  invariant of the cache holds and at least \<open>k\<close> buffers are clean and unused. In such a state the
  cache operations return, and the rules below say what they do. \<open>bframe\<close> lists what they leave
  alone.
\<close>

definition clean_bufs :: "'z bst_scheme \<Rightarrow> nat set" where
  "clean_bufs s = {i. i < NBUF \<and> refcnt (bufs s ! i) = 0 \<and> \<not> bdirty (bufs s ! i)}"

definition calm :: "nat set \<Rightarrow> 'z bst_scheme \<Rightarrow> bool" where
  "calm H s \<longleftrightarrow> (\<forall>i < NBUF. if i \<in> H then refcnt (bufs s ! i) = 1 \<and> mine s (SBuf i)
     else refcnt (bufs s ! i) = 0 \<and> \<not> slocked (sleeplocks s (SBuf i)))"

definition ready :: "nat \<Rightarrow> nat set \<Rightarrow> 'z bst_scheme \<Rightarrow> bool" where
  "ready k H s \<longleftrightarrow> quiet s \<and> binv H s \<and> calm H s \<and> k \<le> card (clean_bufs s)"

definition bframe :: "'z bst_scheme \<Rightarrow> 'z bst_scheme \<Rightarrow> bool" where
  "bframe s t \<longleftrightarrow> disksize t = disksize s \<and> bst.more t = bst.more s \<and> mypid t = mypid s \<and>
     (\<forall>k. sleeplocks t (SInode k) = sleeplocks s (SInode k))"

lemma bframe_refl [simp]: "bframe s s"
  by (simp add: bframe_def)

lemma bframe_trans [trans]: "bframe s t \<Longrightarrow> bframe t u \<Longrightarrow> bframe s u"
  by (simp add: bframe_def)

lemma finite_clean_bufs [simp]: "finite (clean_bufs s)"
  by (simp add: clean_bufs_def)

lemma ready_mono: "ready k H s \<Longrightarrow> j \<le> k \<Longrightarrow> ready j H s"
  by (simp add: ready_def)

lemma ready_binv: "ready k H s \<Longrightarrow> binv H s"
  by (simp add: ready_def)

lemma ready_can_get:
  assumes "ready (Suc k) H s" and "\<And>i. i \<in> H \<Longrightarrow> blockno (bufs s ! i) \<noteq> n"
  shows "can_get 1 n s"
proof -
  have "clean_bufs s \<noteq> {}" using assms(1) by (auto simp: ready_def)
  then show ?thesis using assms by (auto simp: can_get_def ready_def calm_def clean_bufs_def split: if_splits)
qed

lemma wakeup_mypid:
  assumes "quiet s" and "releasesleep l s = Ret a t"
  shows "mypid t = mypid s"
proof -
  from assms obtain b u c v where u: "acquire (LSleep l) s = Ret b u"
      and v: "wakeup (CSleep l) (slmod l (\<lambda>k. k\<lparr>slocked := False, spid := 0\<rparr>) u) = Ret c v"
      and t: "release (LSleep l) v = Ret a t"
    by (auto simp: releasesleep_def kret_inv)
  note f1 = kframe_cur [OF kframe_acquire [OF u]] and f2 = kframe_cur [OF kframe_release [OF t]] and w = wakeup_frame [OF v]
  obtain p where p: "cur s = Some p" "p < length (procs s)" using assms(1) by (auto simp: qheld_def)
  have l: "length (procs v) = length (procs s)" using map_eq_imp_length_eq [OF w(3)] f1 by simp
  have "map pid (procs v) ! p = map pid (procs s) ! p" using w(3) f1 by simp
  then have "pid (procs v ! p) = pid (procs s ! p)" using p l by simp
  moreover have "cur v = Some p" using w(2) f1 p by simp
  ultimately show ?thesis using p f2 by (simp add: mypid_def)
qed

lemma brelse_mypid:
  assumes "quiet s" and "brelse i s = Ret a t"
  shows "mypid t = mypid s"
proof -
  from assms obtain h u b v c w where u: "holdingsleep (SBuf i) s = Ret h u" and v: "releasesleep (SBuf i) u = Ret b v"
      and w: "acquire LBcache v = Ret c w" and t: "release LBcache (w\<lparr>bufs := bunref i (bufs w)\<rparr>) = Ret a t"
    by (auto simp: brelse_def kret_inv split: if_splits)
  have "quiet u" using holdingsleep_returns [OF assms(1), of "SBuf i"] u by auto
  note v' = wakeup_mypid [OF this v]
  have "mypid (w\<lparr>bufs := bunref i (bufs w)\<rparr>) = mypid w" by (simp add: mypid_def)
  then show ?thesis
    using v' kframe_mypid [OF holdingsleep_Ret(1) [OF u]] kframe_mypid [OF kframe_acquire [OF w]]
      kframe_mypid [OF kframe_release [OF t]] by simp
qed

lemma calm_change:
  assumes "calm H s" and "mypid t = mypid s"
    and "\<And>j. j < NBUF \<Longrightarrow> j \<noteq> i \<Longrightarrow> refcnt (bufs t ! j) = refcnt (bufs s ! j)"
    and "\<And>j. j \<noteq> i \<Longrightarrow> sleeplocks t (SBuf j) = sleeplocks s (SBuf j)"
    and "G - {i} = H - {i}"
    and "if i \<in> G then refcnt (bufs t ! i) = 1 \<and> mine t (SBuf i) else refcnt (bufs t ! i) = 0 \<and> \<not> slocked (sleeplocks t (SBuf i))"
  shows "calm G t"
  unfolding calm_def
proof (intro allI impI)
  fix j assume j: "j < NBUF"
  show "if j \<in> G then refcnt (bufs t ! j) = 1 \<and> mine t (SBuf j) else refcnt (bufs t ! j) = 0 \<and> \<not> slocked (sleeplocks t (SBuf j))"
  proof (cases "j = i")
    case True
    then show ?thesis using assms(6) by simp
  next
    case False
    then have "j \<in> G \<longleftrightarrow> j \<in> H" using assms(5) by blast
    then show ?thesis using assms(1,2) assms(3) [OF j False] assms(4) [OF False] j
      by (auto simp: calm_def mine_def)
  qed
qed

lemma bread_refcnt:
  assumes inv: "binv H s" and c: "calm H s" and i: "i \<notin> H" and r: "bread 1 n s = Ret i t"
  shows "refcnt (bufs t ! i) = 1" and "j \<noteq> i \<Longrightarrow> refcnt (bufs t ! j) = refcnt (bufs s ! j)"
    and "j \<noteq> i \<Longrightarrow> bdirty (bufs t ! j) = bdirty (bufs s ! j)" and "bdirty (bufs t ! i) = bdirty (bufs s ! i)"
    and "\<And>l. l \<noteq> SBuf i \<Longrightarrow> sleeplocks t l = sleeplocks s l"
proof -
  obtain xs where xs: "dll xs (bufs s)" using inv by (auto simp: binv_def)
  from r obtain u b where u: "bget 1 n s = Ret i u"
      and t: "if bvalid (bufs u ! i) then t = u else iderw i u = Ret b t"
    by (auto simp: bread_def kret_inv split: if_splits)
  note g = bget_Ret [OF u xs]
  have il: "i < length (bufs s)" using g(1) binv_length [OF inv] by simp
  have ri: "refcnt (bufs s ! i) = 0" using c i g(1) by (simp add: calm_def)
  have U: "refcnt (bufs u ! i) = 1" "j \<noteq> i \<Longrightarrow> bufs u ! j = bufs s ! j" "bdirty (bufs u ! i) = bdirty (bufs s ! i)" "length (bufs u) = length (bufs s)" for j
    using g(7) il ri by (auto simp: brecycle_def)
  have nd: "\<not> bdirty (bufs u ! i)" if "\<not> bvalid (bufs u ! i)"
  proof -
    have "buf_ok H s i" using inv g(1) by (simp add: binv_def)
    then show ?thesis using g(7) il that by (auto simp: brecycle_def buf_ok_def)
  qed
  have T: "refcnt (bufs t ! i) = refcnt (bufs u ! i)" "j \<noteq> i \<Longrightarrow> bufs t ! j = bufs u ! j" "bdirty (bufs t ! i) = bdirty (bufs u ! i)"
      "sleeplocks t = sleeplocks u" for j
    using t iderw_Ret [of i u b t] nd U(4) il by (auto split: if_splits)
  show "refcnt (bufs t ! i) = 1" and "j \<noteq> i \<Longrightarrow> refcnt (bufs t ! j) = refcnt (bufs s ! j)"
    and "j \<noteq> i \<Longrightarrow> bdirty (bufs t ! j) = bdirty (bufs s ! j)" and "bdirty (bufs t ! i) = bdirty (bufs s ! i)"
    and "\<And>l. l \<noteq> SBuf i \<Longrightarrow> sleeplocks t l = sleeplocks s l"
    using U T g(6) by auto
qed

lemma clean_bufs_card:
  assumes "\<And>j. j < NBUF \<Longrightarrow> j \<noteq> i \<Longrightarrow> refcnt (bufs t ! j) = refcnt (bufs s ! j) \<and> bdirty (bufs t ! j) = bdirty (bufs s ! j)"
  shows "card (clean_bufs s) \<le> card (clean_bufs t) + (if i \<in> clean_bufs s then 1 else 0)"
    and "i \<notin> clean_bufs s \<Longrightarrow> i \<in> clean_bufs t \<Longrightarrow> card (clean_bufs t) = Suc (card (clean_bufs s))"
proof -
  have e: "clean_bufs s - {i} = clean_bufs t - {i}" using assms by (auto simp: clean_bufs_def)
  have "card (clean_bufs s - {i}) \<le> card (clean_bufs t)" unfolding e by (rule card_mono) auto
  then show "card (clean_bufs s) \<le> card (clean_bufs t) + (if i \<in> clean_bufs s then 1 else 0)"
    by (cases "i \<in> clean_bufs s") (simp_all add: card_Diff_singleton)
  assume "i \<notin> clean_bufs s" "i \<in> clean_bufs t"
  then show "card (clean_bufs t) = Suc (card (clean_bufs s))"
    using e card.remove [of "clean_bufs t" i] by simp
qed

lemma bread_total:
  assumes r: "ready (Suc k) H s" and n: "n < disksize s" and H: "\<And>i. i \<in> H \<Longrightarrow> blockno (bufs s ! i) \<noteq> n"
  obtains i t where "bread 1 n s = Ret i t" and "ready (if bdirty (bufs t ! i) then Suc k else k) (insert i H) t"
    and "bread_post H n s i t" and "bframe s t"
proof -
  have q: "quiet s" "binv H s" "calm H s" using r by (simp_all add: ready_def)
  obtain i t where t: "bread 1 n s = Ret i t" "quiet t" "mine t (SBuf i)" "mypid t = mypid s"
    using bread_returns [OF q(1,2) ready_can_get [OF r H] n] by blast
  have p: "bread_post H n s i t" using bread_law(1) [OF q(2) t(1)] .
  then have i: "i \<notin> H" "i < NBUF" by (simp_all add: bread_post_def)
  note f = bread_refcnt [OF q(2,3) i(1) t(1)]
  have "calm (insert i H) t"
    by (rule calm_change [OF q(3) t(4), where i = i]) (use f t(3) in auto)
  moreover have "(if bdirty (bufs t ! i) then Suc k else k) \<le> card (clean_bufs t)"
    using clean_bufs_card(1) [of i t s] f r by (auto simp: ready_def clean_bufs_def split: if_splits)
  ultimately have "ready (if bdirty (bufs t ! i) then Suc k else k) (insert i H) t"
    using t(2) p by (simp add: ready_def bread_post_def)
  moreover have "bframe s t" using p t(4) f(5) by (simp add: bframe_def bread_post_def)
  ultimately show ?thesis using that t(1) p by blast
qed

lemma brelse_total:
  assumes r: "ready k H s" and i: "i \<in> H" "synced s i"
  obtains t where "brelse i s = Ret () t" and "ready (if bdirty (bufs s ! i) then k else Suc k) (H - {i}) t"
    and "brelse_post (H - {i}) s t" and "bframe s t"
proof -
  have q: "quiet s" "binv H s" "calm H s" using r by (simp_all add: ready_def)
  have iN: "i < NBUF" using q(2) i by (auto simp: binv_def)
  have m: "mine s (SBuf i)" "refcnt (bufs s ! i) = 1" using q(3) i(1) iN by (simp_all add: calm_def)
  obtain t where t: "brelse i s = Ret () t" "quiet t" using brelse_returns [OF q(1) m(1)] by blast
  have p: "brelse_post (H - {i}) s t" using q(2) i t(1) by (rule brelse_law)
  note f = brelse_inv [OF t(1)] and mp = brelse_mypid [OF q(1) t(1)]
  have ri: "refcnt (bufs t ! i) = 0"
    using m(2) iN binv_length [OF q(2)] by (simp add: f(1) bunref_def Let_def links_keep)
  have c: "refcnt (bufs t ! j) = refcnt (bufs s ! j)" if "j \<noteq> i" for j using that by (simp add: f(1) bunref_keep)
  have d: "bdirty (bufs t ! j) = bdirty (bufs s ! j)" for j using p by (auto simp: brelse_post_def core_def)
  have "calm (H - {i}) t"
    by (rule calm_change [OF q(3) mp, where i = i]) (use ri c f(5) in auto)
  moreover have "(if bdirty (bufs s ! i) then k else Suc k) \<le> card (clean_bufs t)"
    using clean_bufs_card [of i t s] c d ri r m(2) iN by (auto simp: ready_def clean_bufs_def)
  ultimately have "ready (if bdirty (bufs s ! i) then k else Suc k) (H - {i}) t"
    using t(2) p by (simp add: ready_def brelse_post_def)
  moreover have "bframe s t" using p mp f(5) by (simp add: bframe_def brelse_post_def)
  ultimately show ?thesis using that t(1) p by blast
qed

lemma bwrite_mypid:
  assumes "quiet s" and "binv H s" and "i \<in> H" and "mine s (SBuf i)" and "bwrite i s = Ret a t"
  shows "mypid t = mypid s"
proof -
  from assms obtain h u where u: "holdingsleep (SBuf i) s = Ret h u"
      and t: "iderw i (bmod i (\<lambda>b. b\<lparr>bdirty := True\<rparr>) u) = Ret a t"
    by (auto simp: bwrite_def kret_inv split: if_splits)
  have qu: "quiet u" using holdingsleep_returns [OF assms(1), of "SBuf i"] u by auto
  note f = kframe_bst [OF holdingsleep_Ret(1) [OF u]] and m = kframe_mypid [OF holdingsleep_Ret(1) [OF u]]
  have ok: "buf_ok H s i" and il: "i < length (bufs s)"
    using assms(2,3) binv_length [OF assms(2)] by (auto simp: binv_def)
  let ?v = "bmod i (\<lambda>b. b\<lparr>bdirty := True\<rparr>) u"
  have "mine ?v (SBuf i)" using assms(4) f m by (simp add: mine_def)
  moreover have "bdirty (bufs ?v ! i)" "bdev (bufs ?v ! i) = 1" "blockno (bufs ?v ! i) < disksize ?v"
    using ok il f assms(3) by (simp_all add: buf_ok_def)
  moreover have "quiet ?v" using qu by simp
  ultimately show ?thesis using iderw_returns [of ?v i] t m by auto
qed

lemma bwrite_total:
  assumes r: "ready k H s" and i: "i \<in> H"
  obtains t where "bwrite i s = Ret () t" and "ready k H t" and "bwrite_post H s i t" and "bframe s t"
proof -
  have q: "quiet s" "binv H s" "calm H s" using r by (simp_all add: ready_def)
  have iN: "i < NBUF" using q(2) i by (auto simp: binv_def)
  have m: "mine s (SBuf i)" "refcnt (bufs s ! i) = 1" using q(3) i(1) iN by (simp_all add: calm_def)
  have v: "bvalid (bufs s ! i)" "i < length (bufs s)" using q(2) i iN binv_length [OF q(2)] by (auto simp: binv_def buf_ok_def)
  obtain t where t: "bwrite i s = Ret () t" "quiet t" using bwrite_returns [OF q(1,2) i m(1)] by blast
  have p: "bwrite_post H s i t" using q(2) i t(1) by (rule bwrite_law)
  note f = bwrite_inv [OF t(1) v(2,1)] and mp = bwrite_mypid [OF q(1,2) i m(1) t(1)]
  have "calm H t"
    by (rule calm_change [OF q(3) mp, where i = i]) (use f m i mp in \<open>auto simp: mine_def\<close>)
  moreover have "clean_bufs t = clean_bufs s" using f m(2) by (auto simp: clean_bufs_def)
  ultimately have "ready k H t" using t(2) p r by (simp add: ready_def bwrite_post_def)
  moreover have "bframe s t" using p mp f(6) by (simp add: bframe_def bwrite_post_def)
  ultimately show ?thesis using that t(1) p by blast
qed

lemma ready_bmod:
  assumes r: "ready k H s" and i: "i \<in> H" and f: "\<And>b. refcnt (f b) = refcnt b" and inv: "binv H (bmod i f s)"
  shows "ready k H (bmod i f s)"
proof -
  have q: "quiet s" "binv H s" "calm H s" using r by (simp_all add: ready_def)
  have iN: "i < NBUF" and il: "i < length (bufs s)" using q(2) i binv_length [OF q(2)] by (auto simp: binv_def)
  have m: "mine s (SBuf i)" "refcnt (bufs s ! i) = 1" using q(3) i(1) iN by (simp_all add: calm_def)
  have "calm H (bmod i f s)"
    by (rule calm_change [OF q(3), where i = i]) (use m il i f in \<open>auto simp: mine_def\<close>)
  moreover have "clean_bufs (bmod i f s) = clean_bufs s" using il m(2) f by (auto simp: clean_bufs_def nth_upd_if)
  ultimately show ?thesis using q inv r by (simp add: ready_def)
qed

lemma ready_bdata:
  assumes "ready k H s" and "i \<in> H" and "length (f (bdata (bufs s ! i))) = BSIZE"
  shows "ready k H (bmod i (\<lambda>b. b\<lparr>bdata := f (bdata b)\<rparr>) s)"
  using ready_bmod [OF assms(1,2)] bdata_law(1) [where f = f, OF ready_binv [OF assms(1)] assms(2,3)] by simp

lemma ready_bdirty:
  assumes "ready k H s" and "i \<in> H"
  shows "ready k H (bmod i (\<lambda>b. b\<lparr>bdirty := True\<rparr>) s)"
  using ready_bmod [OF assms] bdirty_law(1) [OF ready_binv [OF assms(1)] assms(2)] by simp

lemma bframe_bmod [simp]: "bframe s (bmod i f s)"
  by (simp add: bframe_def bmod_def mypid_def)

section \<open>Blocks as an interface\<close>

text \<open>
  What the log and the file system rely on: \<open>rd\<close> hands out a block in a buffer, \<open>rel\<close> takes a clean
  buffer back, and the contents \<open>blk\<close> of all blocks are as before.
\<close>

locale block_store =
  fixes rd :: "nat \<Rightarrow> 's \<Rightarrow> (nat, 's) kres"
    and rel :: "nat \<Rightarrow> 's \<Rightarrow> (unit, 's) kres"
    and dat :: "nat \<Rightarrow> 's \<Rightarrow> byte list"
    and blk :: "'s \<Rightarrow> nat \<Rightarrow> byte list"
    and inv :: "nat set \<Rightarrow> 's \<Rightarrow> bool"
    and clean :: "nat \<Rightarrow> 's \<Rightarrow> bool"
    and same :: "'s \<Rightarrow> 's \<Rightarrow> bool"
  assumes rd_law: "inv H s \<Longrightarrow> rd n s = Ret i t \<Longrightarrow>
      inv (insert i H) t \<and> i \<notin> H \<and> blk t = blk s \<and> dat i t = blk s n \<and> clean i t \<and> same s t"
    and rel_law: "inv H s \<Longrightarrow> i \<in> H \<Longrightarrow> clean i s \<Longrightarrow> rel i s = Ret a t \<Longrightarrow>
      inv (H - {i}) t \<and> blk t = blk s \<and> same s t"
    and same_trans: "same s t \<Longrightarrow> same t u \<Longrightarrow> same s u"
begin

text \<open>Reading something out of a block: it is a function of the contents of the block.\<close>

lemma read_block:
  assumes "inv H s" and "kbind (rd n) (\<lambda>i. kbind (kget (\<lambda>u. g (dat i u))) (\<lambda>x. kseq (rel i) (kret x))) s = Ret r t"
  shows "r = g (blk s n) \<and> inv H t \<and> blk t = blk s \<and> same s t"
proof -
  from assms(2) obtain i u a where u: "rd n s = Ret i u" and t: "rel i u = Ret a t" and r: "r = g (dat i u)"
    by (auto simp: kret_inv)
  have U: "inv (insert i H) u" "i \<notin> H" "blk u = blk s" "dat i u = blk s n" "clean i u" "same s u"
    using rd_law [OF assms(1) u] by blast+
  have "inv (insert i H - {i}) t \<and> blk t = blk u \<and> same u t"
    by (rule rel_law [OF U(1) insertI1 U(5) t])
  moreover have "insert i H - {i} = H" using U(2) by blast
  ultimately show ?thesis using U r same_trans by metis
qed

text \<open>Reading any number of blocks one after the other.\<close>

primrec reads :: "nat list \<Rightarrow> 's \<Rightarrow> (byte list list, 's) kres" where
  "reads [] = kret []"
| "reads (n # ns) =
     kbind (kbind (rd n) (\<lambda>i. kbind (kget (dat i)) (\<lambda>x. kseq (rel i) (kret x)))) (\<lambda>x.
     kbind (reads ns) (\<lambda>xs. kret (x # xs)))"

lemma reads_view:
  assumes "inv H s" and "reads ns s = Ret r t"
  shows "r = map (blk s) ns \<and> inv H t \<and> blk t = blk s"
  using assms
proof (induction ns arbitrary: s r)
  case Nil
  then show ?case by simp
next
  case (Cons n ns)
  from Cons.prems(2) obtain x u xs where
      u: "kbind (rd n) (\<lambda>i. kbind (kget (dat i)) (\<lambda>x. kseq (rel i) (kret x))) s = Ret x u"
      and t: "reads ns u = Ret xs t" and r: "r = x # xs"
    unfolding reads.simps kbind_Ret_iff [of "kbind (rd n) f" for f] by (auto simp: kret_inv)
  have "x = blk s n \<and> inv H u \<and> blk u = blk s"
    using read_block [OF Cons.prems(1), of n "\<lambda>d. d" x u] u by simp
  with Cons.IH [OF _ t] r show ?case by auto
qed

end

definition bsame :: "'z bst_scheme \<Rightarrow> 'z bst_scheme \<Rightarrow> bool" where
  "bsame s t \<longleftrightarrow> disk t = disk s \<and> disksize t = disksize s \<and> bst.more t = bst.more s"

interpretation cache: block_store "bread dev" brelse "\<lambda>i s. bdata (bufs s ! i)" view binv "\<lambda>i s. synced s i" bsame
  for dev
proof unfold_locales
  fix H and s t :: "'z bst_scheme" and n i
  assume "binv H s" "bread dev n s = Ret i t"
  then show "binv (insert i H) t \<and> i \<notin> H \<and> view t = view s \<and> bdata (bufs t ! i) = view s n \<and> synced t i \<and> bsame s t"
    using bread_law(1) by (fastforce simp: bread_post_def bsame_def)
next
  fix H and s t :: "'z bst_scheme" and i a
  assume "binv H s" "i \<in> H" "synced s i" "brelse i s = Ret a t"
  then show "binv (H - {i}) t \<and> view t = view s \<and> bsame s t"
    using brelse_law by (fastforce simp: brelse_post_def bsame_def)
qed (simp add: bsame_def)

text \<open>C15: The buffer cache is transparent. If the cache has a clean buffer to spare and nobody holds the
  block, \<open>bread\<close> returns a locked buffer that holds the logical contents of the block (the cached
  version if there is one, the disk block otherwise), and neither evicting another block nor
  loading this one changes the contents of any block or the disk; giving the buffer back returns
  and changes nothing either.\<close>

theorem bread_brelse_transparent:
  assumes "quiet s" and "binv H s" and "can_get 1 n s" and "n < disksize s"
  shows "\<exists>i t u. bread 1 n s = Ret i t \<and> i \<notin> H \<and> bdata (bufs t ! i) = view s n \<and> blockno (bufs t ! i) = n \<and>
    view t = view s \<and> brelse i t = Ret () u \<and> view u = view s \<and> disk u = disk s \<and> binv H u \<and> quiet u"
proof -
  obtain i t where t: "bread 1 n s = Ret i t" "quiet t" "mine t (SBuf i)" using bread_returns [OF assms] by blast
  have p: "bread_post H n s i t" using assms(2) t(1) by (rule bread_law)
  obtain u where u: "brelse i t = Ret () u" "quiet u" using brelse_returns [OF t(2,3)] by blast
  have q: "brelse_post (insert i H - {i}) t u"
    using brelse_law [of "insert i H" t i "()" u] u(1) p by (simp add: bread_post_def)
  have "insert i H - {i} = H" using p by (auto simp: bread_post_def)
  with p q t(1) u show ?thesis by (auto simp: bread_post_def brelse_post_def)
qed

text \<open>C16: The pointer surgery of \<open>brelse\<close> implements a list in order of last use. If the \<open>next\<close> and \<open>prev\<close>
  pointers represent the list \<open>xs\<close> of buffers, then afterwards they represent \<open>xs\<close> with the released
  buffer moved to the front when nobody else waits for it, and \<open>xs\<close> itself otherwise.\<close>

theorem brelse_refines_move_to_front:
  assumes "dll xs (bufs s)" and "i < NBUF" and "refcnt (bufs s ! i) \<noteq> 0" and "brelse i s = Ret a t"
  shows "dll (if refcnt (bufs s ! i) = 1 then i # remove1 i xs else xs) (bufs t)"
proof -
  define cs where "cs = upd i (\<lambda>b. b\<lparr>refcnt := (if refcnt b = 0 then 2 ^ 32 - 1 else refcnt b - 1)\<rparr>) (bufs s)"
  have d: "dll xs cs" unfolding cs_def by (rule dll_bmod [OF assms(1)]) simp
  have il: "i < length (bufs s)" and "distinct xs" and "i \<in> set xs" using assms(1,2) by (simp_all add: dll_def)
  then obtain ys zs where xs: "xs = ys @ i # zs" "i \<notin> set ys" by (meson split_list_first)
  with d have "dll (i # remove1 i xs) (bfront i (bunlink i cs))"
    using dll_move_front [of ys i zs cs] by (simp add: remove1_append)
  moreover have "bufs t = (if refcnt (cs ! i) = 0 then bfront i (bunlink i cs) else cs)"
    using brelse_inv(1) [OF assms(4)] by (simp only: bunref_def cs_def Let_def)
  moreover have "refcnt (cs ! i) = 0 \<longleftrightarrow> refcnt (bufs s ! i) = 1"
    using il assms(3) by (auto simp: cs_def)
  ultimately show ?thesis using d by simp
qed


section \<open>A small disk\<close>

definition buf0 :: buf where
  "buf0 = \<lparr>bvalid = False, bdirty = False, bdev = 0, blockno = 0, refcnt = 0, bprev = 0, bnext = 0, bdata = []\<rparr>"

definition bufs0 :: "buf list" where
  "bufs0 = fold binit_link [0..<NBUF] (replicate NBUF buf0 @ [buf0\<lparr>bprev := NBUF, bnext := NBUF\<rparr>])"

definition bst0 :: "(nat \<Rightarrow> byte list) \<Rightarrow> bst" where
  "bst0 dk = sst.extend sst0 (bst.fields bufs0 dk 40000)"

lemma dll_bufs0: "dll (rev [0..<NBUF]) bufs0"
proof -
  have "seg bufs0 NBUF (rev [0..<NBUF]) NBUF" by code_simp
  moreover have "length bufs0 = Suc NBUF" by code_simp
  moreover have "set (rev [0..<NBUF]) = {..<NBUF}" by auto
  ultimately show ?thesis unfolding dll_def by simp
qed

lemma bufs0_fresh: "i < NBUF \<Longrightarrow> \<not> bvalid (bufs0 ! i) \<and> \<not> bdirty (bufs0 ! i) \<and> bdev (bufs0 ! i) = 0 \<and> refcnt (bufs0 ! i) = 0"
proof -
  have "\<forall>b \<in> set bufs0. \<not> bvalid b \<and> \<not> bdirty b \<and> bdev b = 0 \<and> refcnt b = 0" by code_simp
  moreover have "length bufs0 = Suc NBUF" using dll_bufs0 by (simp add: dll_def)
  ultimately show "i < NBUF \<Longrightarrow> ?thesis" by (simp add: all_set_conv_all_nth)
qed

lemma bst0_simps [simp]:
  "bufs (bst0 dk) = bufs0" "disk (bst0 dk) = dk" "disksize (bst0 dk) = 40000" "sleeplocks (bst0 dk) l = \<lparr>slocked = False, spid = 0\<rparr>"
  by (simp_all add: bst0_def bst.defs sst.defs sst0_def pst.defs pst0_def mst.defs mst0_def kst.defs kst0_def)

lemma quiet_bst0: "quiet (bst0 dk)"
  by (simp add: bst0_def bst.defs sst.defs sst0_def pst.defs pst0_def mst.defs mst0_def kst.defs kst0_def
      qheld_def kready_def cpu_of_def NPROC_def)

lemma binv_bst0: "(\<And>n. length (dk n) = BSIZE) \<Longrightarrow> binv {} (bst0 dk)"
  using dll_bufs0 bufs0_fresh by (auto simp: binv_def buf_ok_def bufs_unique_def)

lemma can_get_bst0: "can_get dev n (bst0 dk)"
proof -
  have "0 < NBUF" by (simp add: NBUF_def)
  with bufs0_fresh [OF this] show ?thesis by (auto simp: can_get_def)
qed

lemma ready_bst0:
  assumes "\<And>n. length (dk n) = BSIZE"
  shows "ready NBUF {} (bst0 dk)"
proof -
  have "clean_bufs (bst0 dk) = {..<NBUF}" using bufs0_fresh by (auto simp: clean_bufs_def)
  moreover have "calm {} (bst0 dk)" using bufs0_fresh by (simp add: calm_def)
  ultimately show ?thesis using quiet_bst0 binv_bst0 [of dk] assms by (simp add: ready_def)
qed

theorem bread_brelse_transparent_witness:
  "\<exists>i t u. bread 1 7 (bst0 (\<lambda>n. replicate BSIZE (of_nat n))) = Ret i t \<and> bdata (bufs t ! i) = replicate BSIZE 7 \<and>
     brelse i t = Ret () u \<and> view u 7 = replicate BSIZE 7"
proof -
  let ?s = "bst0 (\<lambda>n. replicate BSIZE (of_nat n))"
  have "view ?s 7 = replicate BSIZE 7"
    using view_uncached [of ?s 7] bufs0_fresh by (simp add: caches_def)
  moreover have "binv {} ?s" by (rule binv_bst0) simp
  ultimately show ?thesis
    using bread_brelse_transparent [OF quiet_bst0 _ can_get_bst0, of "{}" "\<lambda>n. replicate BSIZE (of_nat n)" 7] by auto
qed

theorem brelse_refines_move_to_front_witness:
  "\<exists>(s :: bst) t i xs. dll xs (bufs s) \<and> brelse i s = Ret () t \<and>
     dll (if refcnt (bufs s ! i) = 1 then i # remove1 i xs else xs) (bufs t)"
proof -
  let ?s = "bst0 (\<lambda>_. replicate BSIZE 0)"
  have b: "binv {} ?s" by (rule binv_bst0) simp
  have "(3 :: nat) < disksize ?s" by simp
  then obtain i s where s: "bread 1 3 ?s = Ret i s" "quiet s" "mine s (SBuf i)"
    using bread_returns [OF quiet_bst0 b can_get_bst0] by blast
  obtain t where t: "brelse i s = Ret () t" using brelse_returns [OF s(2,3)] by blast
  have "binv {i} s" "i < NBUF" using bread_law(1) [OF b s(1)] by (auto simp: bread_post_def)
  then obtain xs where xs: "dll xs (bufs s)" and "refcnt (bufs s ! i) \<noteq> 0" by (auto simp: binv_def buf_ok_def)
  from brelse_refines_move_to_front [OF xs \<open>i < NBUF\<close> this(2) t] xs t show ?thesis by blast
qed

end
