(* ===== verification/Log.thy ===== *)
theory Log
  imports Bio
begin

text \<open>
  \<^verbatim>\<open>log.c\<close>: the redo log of the file system, in the version of this repository: \<open>commit\<close> writes the
  modified blocks and the header to the log, but does not install them; only \<open>sync\<close> does, and only when
  the log is exactly full. \<open>readsb\<close> of \<^verbatim>\<open>fs.c\<close> is here because \<open>initlog\<close> needs it.

  Integers on the disk are four bytes, least significant first (\<open>get32\<close>, \<open>put32\<close>).
\<close>

section \<open>Integers in a block\<close>

definition get32 :: "nat \<Rightarrow> byte list \<Rightarrow> 32 word" where
  "get32 off d = ucast (d ! off) OR push_bit 8 (ucast (d ! (off + 1))) OR
     push_bit 16 (ucast (d ! (off + 2))) OR push_bit 24 (ucast (d ! (off + 3)))"

definition put32 :: "nat \<Rightarrow> 32 word \<Rightarrow> byte list \<Rightarrow> byte list" where
  "put32 off v d = d[off := ucast v, off + 1 := ucast (drop_bit 8 v),
     off + 2 := ucast (drop_bit 16 v), off + 3 := ucast (drop_bit 24 v)]"

section \<open>State\<close>

definition LOGSIZE :: nat where "LOGSIZE = 30"

record superblock =
  sb_size :: nat
  sb_nblocks :: nat
  sb_ninodes :: nat
  sb_nlog :: nat
  sb_logstart :: nat
  sb_inodestart :: nat
  sb_bmapstart :: nat

text \<open>\<open>lh.block\<close> has \<open>LOGSIZE\<close> entries; of the log header only the first \<open>lh_n\<close> entries mean anything.\<close>

record lst = bst +
  lg_start :: nat
  lg_size :: nat
  outstanding :: int
  committing :: bool
  lg_dev :: nat
  lg_full :: bool
  lh_n :: nat
  lh_block :: "nat list"

section \<open>The operations\<close>

definition get_sb :: "byte list \<Rightarrow> superblock" where
  "get_sb d = \<lparr>sb_size = unat (get32 0 d), sb_nblocks = unat (get32 4 d), sb_ninodes = unat (get32 8 d),
     sb_nlog = unat (get32 12 d), sb_logstart = unat (get32 16 d), sb_inodestart = unat (get32 20 d),
     sb_bmapstart = unat (get32 24 d)\<rparr>"

definition readsb :: "nat \<Rightarrow> ('z bst_scheme, superblock) kop" where
  "readsb dev =
     kbind (bread dev 1) (\<lambda>bp.
     kbind (kget (\<lambda>s. get_sb (bdata (bufs s ! bp)))) (\<lambda>sb.
     kseq (brelse bp)
       (kret sb)))"

definition install_trans1 :: "nat \<Rightarrow> ('z lst_scheme, unit) kop" where
  "install_trans1 tail =
     kbind (kget (\<lambda>s. s)) (\<lambda>s0.
     kbind (bread (lg_dev s0) (lg_start s0 + tail + 1)) (\<lambda>lbuf.
     kbind (bread (lg_dev s0) (lh_block s0 ! tail)) (\<lambda>dbuf.
     kseq (kmod (\<lambda>s. bmod dbuf (\<lambda>b. b\<lparr>bdata := bdata (bufs s ! lbuf)\<rparr>) s)) (
     kseq (bwrite dbuf) (
     kseq (brelse lbuf)
       (brelse dbuf))))))"

definition install_trans :: "('z lst_scheme, unit) kop" where
  "install_trans = kbind (kget lh_n) (\<lambda>n. kfor install_trans1 [0..<n])"

text \<open>
  The header block read from the disk. Its \<open>n\<close> is not checked against \<open>LOGSIZE\<close> by the code; a larger
  one writes past the end of \<open>log.lh.block\<close>, which is undefined behaviour and a panic here. A negative
  \<open>n\<close> makes every loop over the header empty, as \<open>0\<close> does.
\<close>

definition head_n :: "byte list \<Rightarrow> nat" where
  "head_n d = nat (sint (get32 0 d))"

definition head_block :: "byte list \<Rightarrow> nat \<Rightarrow> nat" where
  "head_block d i = unat (get32 (4 + 4 * i) d)"

definition read_head :: "('z lst_scheme, unit) kop" where
  "read_head =
     kbind (kget (\<lambda>s. s)) (\<lambda>s0.
     kbind (bread (lg_dev s0) (lg_start s0)) (\<lambda>b.
     kbind (kget (\<lambda>s. bdata (bufs s ! b))) (\<lambda>d.
     if head_n d > LOGSIZE then kpanic ''undefined behaviour''
     else
       kseq (kmod (\<lambda>s. s\<lparr>lh_n := head_n d,
               lh_block := map (head_block d) [0..<head_n d] @ drop (head_n d) (lh_block s)\<rparr>))
         (brelse b))))"

definition put_head :: "nat \<Rightarrow> nat list \<Rightarrow> byte list \<Rightarrow> byte list" where
  "put_head n bl d = fold (\<lambda>i. put32 (4 + 4 * i) (of_nat (bl ! i))) [0..<n] (put32 0 (of_nat n) d)"

definition write_head :: "('z lst_scheme, unit) kop" where
  "write_head =
     kbind (kget (\<lambda>s. s)) (\<lambda>s0.
     kbind (bread (lg_dev s0) (lg_start s0)) (\<lambda>b.
     kseq (kmod (\<lambda>s. bmod b (\<lambda>c. c\<lparr>bdata := put_head (lh_n s) (lh_block s) (bdata c)\<rparr>) s)) (
     kseq (bwrite b)
       (brelse b))))"

definition recover_from_log :: "('z lst_scheme, unit) kop" where
  "recover_from_log =
     kseq read_head (
     kseq install_trans (
     kseq (kmod (\<lambda>s. s\<lparr>lh_n := 0\<rparr>))
       write_head))"

text \<open>The size check at the start of \<open>initlog\<close> compares two constants, 124 and 512.\<close>

definition initlog :: "nat \<Rightarrow> ('z lst_scheme, unit) kop" where
  "initlog dev =
     kseq (initlock LLog) (
     kbind (readsb dev) (\<lambda>sb.
     kseq (kmod (\<lambda>s. s\<lparr>lg_start := sb_logstart sb, lg_size := sb_nlog sb, lg_dev := dev\<rparr>))
       recover_from_log))"

text \<open>The loop of \<open>begin_op\<close>: \<open>sleep\<close> blocks, and a process that is woken runs the loop from its start.\<close>

definition begin_op :: "('z lst_scheme, unit) kop" where
  "begin_op =
     kseq (acquire LLog) (
     kbind (kget committing) (\<lambda>c.
     kbind (kget lh_n) (\<lambda>n.
     if c then sleep CLog LLog
     else if n > LOGSIZE - 1 then sleep CLog LLog
     else
       kseq (kmod (\<lambda>s. s\<lparr>outstanding := outstanding s + 1\<rparr>))
         (release LLog))))"

definition write_log1 :: "nat \<Rightarrow> ('z lst_scheme, unit) kop" where
  "write_log1 tail =
     kbind (kget (\<lambda>s. s)) (\<lambda>s0.
     kbind (bread (lg_dev s0) (lg_start s0 + tail + 1)) (\<lambda>tob.
     kbind (bread (lg_dev s0) (lh_block s0 ! tail)) (\<lambda>from.
     kseq (kmod (\<lambda>s. bmod tob (\<lambda>b. b\<lparr>bdata := bdata (bufs s ! from)\<rparr>) s)) (
     kseq (bwrite tob) (
     kseq (brelse from)
       (brelse tob))))))"

definition write_log :: "('z lst_scheme, unit) kop" where
  "write_log = kbind (kget lh_n) (\<lambda>n. kfor write_log1 [0..<n])"

definition commit :: "('z lst_scheme, unit) kop" where
  "commit = kbind (kget lh_n) (\<lambda>n. kwhen (n > 0) (kseq write_log write_head))"

definition sync :: "('z lst_scheme, int) kop" where
  "sync =
     kbind (kget lh_n) (\<lambda>n.
     if n < LOGSIZE - 1 then kret (- 1)
     else if n > LOGSIZE - 1 then kret (- 1)
     else
       kseq install_trans (
       kseq (kmod (\<lambda>s. s\<lparr>lh_n := 0\<rparr>)) (
       kseq write_head
         (kret 0))))"

definition end_op :: "('z lst_scheme, unit) kop" where
  "end_op =
     kseq (acquire LLog) (
     kseq (kmod (\<lambda>s. s\<lparr>outstanding := outstanding s - 1\<rparr>)) (
     kbind (kget committing) (\<lambda>c.
     if c then kpanic ''log.committing'' else
     kbind (kget outstanding) (\<lambda>n.
     kseq (if n = 0 then kmod (\<lambda>s. s\<lparr>committing := True\<rparr>) else wakeup CLog) (
     kseq (release LLog) (
     kwhen (n = 0) (
       kseq commit (
       kbind (kget lg_full) (\<lambda>f.
       kseq (kwhen f (kseq sync (kret ()))) (
       kseq (acquire LLog) (
       kseq (kmod (\<lambda>s. s\<lparr>committing := False\<rparr>)) (
       kseq (wakeup CLog)
         (release LLog)))))))))))))"

text \<open>
  \<open>log_slot\<close> is the position at which the loop over the header stops: that of the block if it is
  already logged, the first free one otherwise.
\<close>

definition log_slot :: "nat \<Rightarrow> nat \<Rightarrow> nat list \<Rightarrow> nat" where
  "log_slot b n bl = (case first_index (\<lambda>x. x = b) (take n bl) of Some i \<Rightarrow> i | None \<Rightarrow> n)"

definition log_write :: "nat \<Rightarrow> ('z lst_scheme, unit) kop" where
  "log_write b =
     kbind (kget lh_n) (\<lambda>n.
     if n \<ge> LOGSIZE then kpanic ''too big a transaction'' else
     kbind (kget outstanding) (\<lambda>os.
     if os < 1 then kpanic ''log_write outside of trans'' else
     kseq (acquire LLog) (
     kseq (kmod (\<lambda>s. let bno = blockno (bufs s ! b); i = log_slot bno (lh_n s) (lh_block s)
                     in s\<lparr>lh_block := (lh_block s)[i := bno],
                         lh_n := (if i = lh_n s then lh_n s + 1 else lh_n s),
                         lg_full := (if i = lh_n s \<and> lh_n s + 1 = LOGSIZE - 1 then True else lg_full s)\<rparr>)) (
     kseq (kmod (bmod b (\<lambda>c. c\<lparr>bdirty := True\<rparr>)))
       (release LLog)))))"

section \<open>Integers in a block: round trips\<close>

lemma bytes_word:
  "ucast (ucast (v :: 32 word) :: byte) OR push_bit 8 (ucast (ucast (drop_bit 8 v) :: byte)) OR
     push_bit 16 (ucast (ucast (drop_bit 16 v) :: byte)) OR push_bit 24 (ucast (ucast (drop_bit 24 v) :: byte)) = v"
proof (rule bit_word_eqI)
  fix n assume "n < LENGTH(32)"
  then consider "n < 8" | "8 \<le> n" "n < 16" | "16 \<le> n" "n < 24" | "24 \<le> n" "n < 32"
    by fastforce
  then show "bit ((ucast (ucast v :: byte) :: 32 word) OR push_bit 8 (ucast (ucast (drop_bit 8 v) :: byte)) OR
     push_bit 16 (ucast (ucast (drop_bit 16 v) :: byte)) OR push_bit 24 (ucast (ucast (drop_bit 24 v) :: byte))) n = bit v n"
    by cases (auto simp: bit_simps)
qed

lemma get32_put32:
  assumes "off + 3 < length d"
  shows "get32 off (put32 off v d) = v"
  using assms bytes_word [of v] by (simp add: get32_def put32_def)

lemma length_put32 [simp]: "length (put32 off v d) = length d"
  by (simp add: put32_def)

lemma get32_put32_other:
  "off' + 3 < off \<or> off + 3 < off' \<Longrightarrow> get32 off' (put32 off v d) = get32 off' d"
  by (auto simp: get32_def put32_def nth_list_update)

text \<open>The log header: what \<open>write_head\<close> stores is what \<open>read_head\<close> finds.\<close>

lemma length_put_head [simp]: "length (put_head n bl d) = length d"
proof -
  have "length (fold (\<lambda>i. put32 (4 + 4 * i) (f i)) xs e) = length e" for f xs e
    by (induction xs arbitrary: e) simp_all
  then show ?thesis by (simp add: put_head_def)
qed

lemma put_head_Suc: "put_head (Suc n) bl d =
    put32 (4 + 4 * n) (of_nat (bl ! n)) (fold (\<lambda>i. put32 (4 + 4 * i) (of_nat (bl ! i))) [0..<n] (put32 0 (of_nat (Suc n)) d))"
  by (simp add: put_head_def)

lemma fold_put32_low:
  "off + 3 < 4 \<Longrightarrow> get32 off (fold (\<lambda>i. put32 (4 + 4 * i) (f i)) xs e) = get32 off e"
  by (induction xs arbitrary: e) (simp_all add: get32_put32_other)

lemma fold_put32_at:
  assumes "4 + 4 * n \<le> length e" and "i < n"
  shows "get32 (4 + 4 * i) (fold (\<lambda>i. put32 (4 + 4 * i) (f i)) [0..<n] e) = f i"
  using assms
proof (induction n)
  case 0
  then show ?case by simp
next
  case (Suc n)
  define e' where "e' = fold (\<lambda>i. put32 (4 + 4 * i) (f i)) [0..<n] e"
  have "length (fold (\<lambda>i. put32 (4 + 4 * i) (f i)) xs e) = length e" for xs e
    by (induction xs arbitrary: e) simp_all
  then have len: "length e' = length e" by (simp add: e'_def)
  show ?case
  proof (cases "i = n")
    case True
    then show ?thesis using Suc.prems len by (simp add: e'_def [symmetric] get32_put32)
  next
    case False
    then have "i < n" using Suc.prems by simp
    then have "get32 (4 + 4 * i) e' = f i" using Suc by (simp add: e'_def)
    then show ?thesis using \<open>i < n\<close> by (simp add: e'_def [symmetric] get32_put32_other)
  qed
qed

lemma head_put_head:
  assumes "n \<le> LOGSIZE" and "length d = BSIZE" and "\<forall>i < n. bl ! i < 2 ^ 32"
  shows "head_n (put_head n bl d) = n" and "map (head_block (put_head n bl d)) [0..<n] = map (\<lambda>i. bl ! i) [0..<n]"
proof -
  have n: "n \<le> 30" "length d = 512" using assms by (simp_all add: LOGSIZE_def BSIZE_def)
  have "get32 0 (put_head n bl d) = of_nat n"
    using n by (simp add: put_head_def fold_put32_low get32_put32)
  moreover have "sint (of_nat n :: 32 word) = int n"
    using n by (simp add: signed_of_nat signed_take_bit_int_eq_self)
  ultimately show "head_n (put_head n bl d) = n" by (simp add: head_n_def)
  have "head_block (put_head n bl d) i = bl ! i" if "i < n" for i
  proof -
    have "get32 (4 + 4 * i) (put_head n bl d) = of_nat (bl ! i)"
      using that n unfolding put_head_def by (intro fold_put32_at) simp_all
    then show ?thesis using that assms(3) by (simp add: head_block_def unat_of_nat)
  qed
  then show "map (head_block (put_head n bl d)) [0..<n] = map (\<lambda>i. bl ! i) [0..<n]" by simp
qed

section \<open>Copying blocks\<close>

text \<open>
  Both loops of the log, installing and logging, read two blocks, copy one to the other and write it.
\<close>

lemma synced_core:
  "core (bufs t ! i) = core (bufs s ! i) \<Longrightarrow> disk t = disk s \<Longrightarrow> synced s i \<Longrightarrow> synced t i"
  by (simp add: synced_def core_def)

lemma bread2_total:
  assumes r: "ready (Suc (Suc k)) {} s" and m: "m < disksize s" and n: "n < disksize s" "m \<noteq> n"
  obtains x y t u where "bread 1 m s = Ret x t" and "bread 1 n t = Ret y u" and "x \<noteq> y"
    and "ready (k + (if bdirty (bufs u ! x) then 1 else 0) + (if bdirty (bufs u ! y) then 1 else 0)) {x, y} u"
    and "synced u x" and "synced u y" and "bdata (bufs u ! x) = view s m" and "bdata (bufs u ! y) = view s n"
    and "blockno (bufs u ! x) = m" and "blockno (bufs u ! y) = n" and "view u = view s" and "disk u = disk s" and "bframe s u"
proof -
  obtain x t where t: "bread 1 m s = Ret x t" "ready (if bdirty (bufs t ! x) then Suc (Suc k) else Suc k) {x} t"
      "bread_post {} m s x t" "bframe s t" using bread_total [OF r m] by auto
  define k' where "k' = k + (if bdirty (bufs t ! x) then 1 else 0)"
  have r': "ready (Suc k') {x} t" using t(2) by (simp add: k'_def split: if_splits)
  have X: "blockno (bufs t ! x) = m" "bdata (bufs t ! x) = view s m" "view t = view s" "disk t = disk s" "disksize t = disksize s" "synced t x"
    using t(3) by (simp_all add: bread_post_def)
  have "n < disksize t" using n(1) X by simp
  then obtain y u where u: "bread 1 n t = Ret y u" "ready (if bdirty (bufs u ! y) then Suc k' else k') {y, x} u"
      "bread_post {x} n t y u" "bframe t u" using bread_total [OF r'] X(1) n(2) by auto
  have c: "core (bufs u ! x) = core (bufs t ! x)" "x \<noteq> y" "disk u = disk t" using u(3) by (auto simp: bread_post_def)
  have "synced u x" using synced_core [OF c(1,3)] X(6) .
  moreover have "ready (k + (if bdirty (bufs u ! x) then 1 else 0) + (if bdirty (bufs u ! y) then 1 else 0)) {x, y} u"
    using u(2) c(1) by (auto simp: k'_def core_def insert_commute split: if_splits)
  ultimately show ?thesis
    using that [OF t(1) u(1)] c X u(3) bframe_trans [OF t(4) u(4)] by (simp add: bread_post_def core_def)
qed

lemma copy_total:
  assumes r: "ready k {x, y} s" and xy: "x \<noteq> y" "synced s x" "blockno (bufs s ! x) \<noteq> blockno (bufs s ! y)"
  obtains t where
    "kseq (kmod (\<lambda>s. bmod y (\<lambda>b. b\<lparr>bdata := bdata (bufs s ! x)\<rparr>) s)) (kseq (bwrite y) (kseq (brelse x) (brelse y))) s = Ret () t"
    and "ready (k + (if bdirty (bufs s ! x) then 1 else 2)) {} t"
    and "view t = (view s)(blockno (bufs s ! y) := bdata (bufs s ! x))"
    and "disk t = (disk s)(blockno (bufs s ! y) := bdata (bufs s ! x))" and "bframe s t"
proof -
  let ?d = "bdata (bufs s ! x)"
  define s1 where "s1 = bmod y (\<lambda>b. b\<lparr>bdata := ?d\<rparr>) s"
  have inv: "binv {x, y} s" using r by (rule ready_binv)
  have l: "length ?d = BSIZE" "y < length (bufs s)" "x < length (bufs s)"
    using inv binv_length [OF inv] by (auto simp: binv_def buf_ok_def)
  have r1: "ready k {x, y} s1" using ready_bdata [OF r, of y "\<lambda>_. ?d"] l by (simp add: s1_def)
  have v1: "view s1 = (view s)(blockno (bufs s ! y) := ?d)" using bdata_law(2) [OF inv, of y "\<lambda>_. ?d"] l by (simp add: s1_def)
  have b1: "bufs s1 ! x = bufs s ! x" "bufs s1 ! y = (bufs s ! y)\<lparr>bdata := ?d\<rparr>" "disk s1 = disk s"
    using l xy by (simp_all add: s1_def)
  obtain s2 where s2: "bwrite y s1 = Ret () s2" "ready k {x, y} s2" "bwrite_post {x, y} s1 y s2" "bframe s1 s2"
    using bwrite_total [OF r1] by auto
  have b2: "bufs s2 ! x = bufs s ! x" "\<not> bdirty (bufs s2 ! y)" "synced s2 y"
      "disk s2 = (disk s)(blockno (bufs s ! y) := ?d)" "view s2 = view s1"
    using s2(3) b1 xy by (simp_all add: bwrite_post_def)
  have "synced s2 x" using xy b2 by (auto simp: synced_def)
  then obtain s3 where s3: "brelse x s2 = Ret () s3" "ready (if bdirty (bufs s2 ! x) then k else Suc k) ({x, y} - {x}) s3"
      "brelse_post ({x, y} - {x}) s2 s3" "bframe s2 s3" using brelse_total [OF s2(2), of x] by auto
  have b3: "core (bufs s3 ! y) = core (bufs s2 ! y)" "disk s3 = disk s2" "view s3 = view s2"
    using s3(3) by (simp_all add: brelse_post_def)
  have "synced s3 y" using synced_core [OF b3(1,2) b2(3)] .
  moreover have "y \<in> {x, y} - {x}" using xy by simp
  ultimately obtain s4 where s4: "brelse y s3 = Ret () s4"
      "ready (if bdirty (bufs s3 ! y) then (if bdirty (bufs s2 ! x) then k else Suc k) else Suc (if bdirty (bufs s2 ! x) then k else Suc k)) ({x, y} - {x} - {y}) s4"
      "brelse_post ({x, y} - {x} - {y}) s3 s4" "bframe s3 s4" using brelse_total [OF s3(2)] by blast
  have e: "{x, y} - {x} - {y} = {}" by blast
  have d3: "\<not> bdirty (bufs s3 ! y)" using b3(1) b2(2) by (simp add: core_def)
  show ?thesis
  proof (rule that)
    show "kseq (kmod (\<lambda>s. bmod y (\<lambda>b. b\<lparr>bdata := bdata (bufs s ! x)\<rparr>) s)) (kseq (bwrite y) (kseq (brelse x) (brelse y))) s = Ret () s4"
      using s2(1) s3(1) s4(1) by (simp add: kseq_Ret s1_def [symmetric])
    show "ready (k + (if bdirty (bufs s ! x) then 1 else 2)) {} s4"
      using s4(2) [unfolded e] d3 b2(1) by (simp split: if_splits)
    show "view s4 = (view s)(blockno (bufs s ! y) := ?d)" "disk s4 = (disk s)(blockno (bufs s ! y) := ?d)"
      using s4(3) b3 b2 v1 by (simp_all add: brelse_post_def)
    have "bframe s s1" by (simp add: s1_def)
    then show "bframe s s4" using s2(4) s3(4) s4(4) bframe_trans by blast
  qed
qed

section \<open>The loops of the log\<close>

lemma bframe_lst:
  assumes "bframe s t"
  shows "lg_start t = lg_start s" "lg_dev t = lg_dev s" "lh_n t = lh_n s" "lh_block t = lh_block s" "lg_full t = lg_full s"
    "outstanding t = outstanding s" "committing t = committing s" "disksize t = disksize s" "lg_size t = lg_size s" "lst.more t = lst.more s"
  using assms by (cases s; cases t; simp add: bframe_def)+

text \<open>
  \<open>log_ok s\<close>: the log is on device 1, the log header lists distinct blocks that exist and are not
  blocks of the log, and the log itself is on the disk.
\<close>

definition log_blocks :: "'z lst_scheme \<Rightarrow> nat list" where
  "log_blocks s = take (lh_n s) (lh_block s)"

definition log_area :: "nat \<Rightarrow> nat \<Rightarrow> nat set" where
  "log_area st n = {st .. st + n}"

definition log_ok :: "'z lst_scheme \<Rightarrow> bool" where
  "log_ok s \<longleftrightarrow> lg_dev s = 1 \<and> lh_n s \<le> LOGSIZE \<and> length (lh_block s) = LOGSIZE \<and> distinct (log_blocks s) \<and>
     lg_start s + LOGSIZE < disksize s \<and> disksize s < 2 ^ 32 \<and>
     set (log_blocks s) \<inter> log_area (lg_start s) LOGSIZE = {} \<and> (\<forall>b \<in> set (log_blocks s). b < disksize s)"

lemma log_ok_frame: "log_ok s \<Longrightarrow> bframe s t \<Longrightarrow> log_ok t"
  by (simp add: log_ok_def log_blocks_def bframe_lst)

lemma log_ok_block:
  assumes "log_ok s" and "i < lh_n s"
  shows "lh_block s ! i < disksize s" and "lh_block s ! i \<notin> log_area (lg_start s) LOGSIZE" and "i < LOGSIZE"
    and "lg_start s + i + 1 < disksize s" and "lg_start s + i + 1 \<in> log_area (lg_start s) LOGSIZE" and "lh_block s ! i \<in> set (log_blocks s)"
proof -
  have l: "i < length (log_blocks s)" using assms by (simp add: log_ok_def log_blocks_def)
  then show m: "lh_block s ! i \<in> set (log_blocks s)" using nth_mem [OF l] by (simp add: log_blocks_def)
  then show "lh_block s ! i < disksize s" and "lh_block s ! i \<notin> log_area (lg_start s) LOGSIZE"
    using assms(1) by (auto simp: log_ok_def)
  show "i < LOGSIZE" using assms by (simp add: log_ok_def)
  then show "lg_start s + i + 1 < disksize s" "lg_start s + i + 1 \<in> log_area (lg_start s) LOGSIZE"
    using assms by (auto simp: log_ok_def log_area_def)
qed

lemma install_trans1_total:
  assumes r: "ready (Suc (Suc k)) {} s" and ok: "log_ok s" and i: "i < lh_n s"
  shows "\<exists>t. install_trans1 i s = Ret () t \<and> ready (Suc (Suc k)) {} t \<and> bframe s t \<and>
    view t = (view s)(lh_block s ! i := view s (lg_start s + i + 1)) \<and>
    disk t = (disk s)(lh_block s ! i := view s (lg_start s + i + 1))"
proof -
  note b = log_ok_block [OF ok i]
  have ne: "lg_start s + i + 1 \<noteq> lh_block s ! i" using b by auto
  show ?thesis
  proof (rule bread2_total [OF r b(4,1) ne])
    fix x y t u
    assume t: "bread 1 (lg_start s + i + 1) s = Ret x t" and u: "bread 1 (lh_block s ! i) t = Ret y u" and xy: "x \<noteq> y"
      and r: "ready (k + (if bdirty (bufs u ! x) then 1 else 0) + (if bdirty (bufs u ! y) then 1 else 0)) {x, y} u"
      and d: "synced u x" "bdata (bufs u ! x) = view s (lg_start s + i + 1)" "blockno (bufs u ! x) = lg_start s + i + 1"
        "blockno (bufs u ! y) = lh_block s ! i" "view u = view s" "disk u = disk s" and f: "bframe s u"
    have "blockno (bufs u ! x) \<noteq> blockno (bufs u ! y)" using d ne by simp
    from copy_total [OF r xy d(1) this] obtain v where
      v: "kseq (kmod (\<lambda>s. bmod y (\<lambda>b. b\<lparr>bdata := bdata (bufs s ! x)\<rparr>) s)) (kseq (bwrite y) (kseq (brelse x) (brelse y))) u = Ret () v"
        "ready (k + (if bdirty (bufs u ! x) then 1 else 0) + (if bdirty (bufs u ! y) then 1 else 0) + (if bdirty (bufs u ! x) then 1 else 2)) {} v"
        "view v = (view u)(blockno (bufs u ! y) := bdata (bufs u ! x))" "disk v = (disk u)(blockno (bufs u ! y) := bdata (bufs u ! x))"
        "bframe u v" .
    have "install_trans1 i s = Ret () v"
      using v(1) ok by (simp add: install_trans1_def kbind_Ret [of "bread d n" for d n] t u log_ok_def del: One_nat_def)
    moreover have "ready (Suc (Suc k)) {} v" by (rule ready_mono [OF v(2)]) simp
    ultimately show ?thesis using v d bframe_trans [OF f v(5)] by simp
  qed
qed

lemma write_log1_total:
  assumes r: "ready (Suc (Suc k)) {} s" and ok: "log_ok s" and i: "i < lh_n s"
  shows "\<exists>t. write_log1 i s = Ret () t \<and> ready (Suc (Suc k)) {} t \<and> bframe s t \<and>
    view t = (view s)(lg_start s + i + 1 := view s (lh_block s ! i)) \<and>
    disk t = (disk s)(lg_start s + i + 1 := view s (lh_block s ! i))"
proof -
  note b = log_ok_block [OF ok i]
  have ne: "lg_start s + i + 1 \<noteq> lh_block s ! i" using b by auto
  show ?thesis
  proof (rule bread2_total [OF r b(4,1) ne])
    fix y x t u
    assume t: "bread 1 (lg_start s + i + 1) s = Ret y t" and u: "bread 1 (lh_block s ! i) t = Ret x u" and xy: "y \<noteq> x"
      and r: "ready (k + (if bdirty (bufs u ! y) then 1 else 0) + (if bdirty (bufs u ! x) then 1 else 0)) {y, x} u"
      and d: "synced u x" "bdata (bufs u ! x) = view s (lh_block s ! i)" "blockno (bufs u ! y) = lg_start s + i + 1"
        "blockno (bufs u ! x) = lh_block s ! i" "view u = view s" "disk u = disk s" and f: "bframe s u"
    have "blockno (bufs u ! x) \<noteq> blockno (bufs u ! y)" using d ne by simp
    from copy_total [OF r [unfolded insert_commute [of y x]] xy [symmetric] d(1) this] obtain v where
      v: "kseq (kmod (\<lambda>s. bmod y (\<lambda>b. b\<lparr>bdata := bdata (bufs s ! x)\<rparr>) s)) (kseq (bwrite y) (kseq (brelse x) (brelse y))) u = Ret () v"
        "ready (k + (if bdirty (bufs u ! y) then 1 else 0) + (if bdirty (bufs u ! x) then 1 else 0) + (if bdirty (bufs u ! x) then 1 else 2)) {} v"
        "view v = (view u)(blockno (bufs u ! y) := bdata (bufs u ! x))" "disk v = (disk u)(blockno (bufs u ! y) := bdata (bufs u ! x))"
        "bframe u v" .
    have "write_log1 i s = Ret () v"
      using v(1) ok by (simp add: write_log1_def kbind_Ret [of "bread d n" for d n] t u log_ok_def del: One_nat_def)
    moreover have "ready (Suc (Suc k)) {} v" by (rule ready_mono [OF v(2)]) simp
    ultimately show ?thesis using v d bframe_trans [OF f v(5)] by simp
  qed
qed


text \<open>
  What the loops do to the disk. \<open>replay st bl v d\<close> is the disk \<open>d\<close> after the blocks \<open>bl\<close> were overwritten
  with the log blocks of \<open>v\<close>; \<open>logged st k bl v d\<close> is \<open>d\<close> after the first \<open>k\<close> of the blocks \<open>bl\<close> of \<open>v\<close> were
  copied to the log.
\<close>

definition replay :: "nat \<Rightarrow> nat list \<Rightarrow> (nat \<Rightarrow> byte list) \<Rightarrow> (nat \<Rightarrow> byte list) \<Rightarrow> nat \<Rightarrow> byte list" where
  "replay st bl v d b = (case first_index (\<lambda>x. x = b) bl of Some i \<Rightarrow> v (st + i + 1) | None \<Rightarrow> d b)"

definition logged :: "nat \<Rightarrow> nat \<Rightarrow> nat list \<Rightarrow> (nat \<Rightarrow> byte list) \<Rightarrow> (nat \<Rightarrow> byte list) \<Rightarrow> nat \<Rightarrow> byte list" where
  "logged st k bl v d b = (if st < b \<and> b \<le> st + k then v (bl ! (b - st - 1)) else d b)"

lemma first_index_snoc:
  "first_index P (xs @ [x]) = (case first_index P xs of Some i \<Rightarrow> Some i | None \<Rightarrow> if P x then Some (length xs) else None)"
  by (induction xs) (auto split: option.split)

lemma replay_Nil [simp]: "replay st [] v d = d"
  by (simp add: replay_def fun_eq_iff)

lemma replay_notin: "b \<notin> set bl \<Longrightarrow> replay st bl v d b = d b"
proof -
  assume "b \<notin> set bl"
  then have "first_index (\<lambda>x. x = b) bl = None" by (auto simp: first_index_None)
  then show ?thesis by (simp add: replay_def)
qed

lemma replay_nth: "distinct bl \<Longrightarrow> i < length bl \<Longrightarrow> replay st bl v d (bl ! i) = v (st + i + 1)"
proof -
  assume "distinct bl" "i < length bl"
  then have "first_index (\<lambda>x. x = bl ! i) bl = Some i" by (auto simp: first_index_Some nth_eq_iff_index_eq)
  then show ?thesis by (simp add: replay_def)
qed

lemma replay_snoc:
  assumes "x \<notin> set bl"
  shows "replay st (bl @ [x]) v d = (replay st bl v d)(x := v (st + length bl + 1))"
proof
  fix b
  have "first_index (\<lambda>y. y = x) bl = None" using assms by (auto simp: first_index_None)
  then show "replay st (bl @ [x]) v d b = ((replay st bl v d)(x := v (st + length bl + 1))) b"
    by (auto simp: replay_def first_index_snoc split: option.split)
qed

lemma logged_0 [simp]: "logged st 0 bl v d = d"
  by (auto simp: logged_def fun_eq_iff)

lemma logged_Suc: "logged st (Suc k) bl v d = (logged st k bl v d)(st + k + 1 := v (bl ! k))"
  by (auto simp: logged_def fun_eq_iff le_Suc_eq)

lemma logged_notin: "b \<notin> log_area st k \<Longrightarrow> logged st k bl v d b = d b"
  by (auto simp: logged_def log_area_def)

lemma install_trans_total:
  assumes r: "ready (Suc (Suc k)) {} s" and ok: "log_ok s"
  shows "\<exists>t. install_trans s = Ret () t \<and> ready (Suc (Suc k)) {} t \<and> bframe s t \<and>
    view t = replay (lg_start s) (log_blocks s) (view s) (view s) \<and>
    disk t = replay (lg_start s) (log_blocks s) (view s) (disk s)"
proof -
  let ?st = "lg_start s" and ?bl = "lh_block s"
  let ?P = "\<lambda>i t. ready (Suc (Suc k)) {} t \<and> bframe s t \<and> view t = replay ?st (take i ?bl) (view s) (view s) \<and>
    disk t = replay ?st (take i ?bl) (view s) (disk s)"
  have "\<exists>t. kfor install_trans1 [0..<lh_n s] s = Ret () t \<and> ?P (lh_n s) t"
  proof (rule kfor_upto)
    fix i t assume i: "i < lh_n s" and P: "?P i t"
    have f: "lh_n t = lh_n s" "lg_start t = ?st" "lh_block t = ?bl" using P by (simp_all add: bframe_lst)
    note b = log_ok_block [OF ok i]
    have il: "i < length ?bl" using b(3) ok by (simp add: log_ok_def)
    have "distinct (take (Suc i) ?bl)" using ok i distinct_take [of "log_blocks s" "Suc i"]
      by (simp add: log_ok_def log_blocks_def min_def)
    then have new: "?bl ! i \<notin> set (take i ?bl)" by (simp add: take_Suc_conv_app_nth [OF il])
    have "?st + i + 1 \<notin> set (take i ?bl)"
    proof
      assume "?st + i + 1 \<in> set (take i ?bl)"
      then have "?st + i + 1 \<in> set (log_blocks s)" using i set_take_subset_set_take [of i "lh_n s" ?bl] by (auto simp: log_blocks_def)
      then show False using ok b(5) by (auto simp: log_ok_def)
    qed
    then have v: "view t (?st + i + 1) = view s (?st + i + 1)" using P by (simp add: replay_notin)
    have i': "i < lh_n t" using i f by simp
    obtain u where u: "install_trans1 i t = Ret () u" "ready (Suc (Suc k)) {} u" "bframe t u"
      "view u = (view t)(?bl ! i := view t (?st + i + 1))" "disk u = (disk t)(?bl ! i := view t (?st + i + 1))"
      using install_trans1_total [OF _ log_ok_frame [OF ok] i', of k] P f by auto
    then show "\<exists>u. install_trans1 i t = Ret () u \<and> ?P (Suc i) u"
      using P v il bframe_trans [of s t u] by (simp add: take_Suc_conv_app_nth replay_snoc [OF new])
  qed (use r in simp)
  then show ?thesis by (simp add: install_trans_def log_blocks_def)
qed

lemma kfor_write_log_total:
  assumes r: "ready (Suc (Suc k)) {} s" and ok: "log_ok s" and n: "n \<le> lh_n s"
  shows "\<exists>t. kfor write_log1 [0..<n] s = Ret () t \<and> ready (Suc (Suc k)) {} t \<and> bframe s t \<and>
    view t = logged (lg_start s) n (lh_block s) (view s) (view s) \<and>
    disk t = logged (lg_start s) n (lh_block s) (view s) (disk s)"
proof (rule kfor_upto)
  let ?st = "lg_start s" and ?bl = "lh_block s"
  let ?P = "\<lambda>i t. ready (Suc (Suc k)) {} t \<and> bframe s t \<and> view t = logged ?st i ?bl (view s) (view s) \<and>
    disk t = logged ?st i ?bl (view s) (disk s)"
  fix i t assume i: "i < n" and P: "?P i t"
  have i': "i < lh_n s" using i n by simp
  have f: "lh_n t = lh_n s" "lg_start t = ?st" "lh_block t = ?bl" using P by (simp_all add: bframe_lst)
  note b = log_ok_block [OF ok i']
  have "?bl ! i \<notin> log_area ?st i" using b(2,3) by (auto simp: log_area_def)
  then have v: "view t (?bl ! i) = view s (?bl ! i)" using P by (simp add: logged_notin)
  have "i < lh_n t" using i' f by simp
  then obtain u where u: "write_log1 i t = Ret () u" "ready (Suc (Suc k)) {} u" "bframe t u"
    "view u = (view t)(?st + i + 1 := view t (?bl ! i))" "disk u = (disk t)(?st + i + 1 := view t (?bl ! i))"
    using write_log1_total [OF _ log_ok_frame [OF ok], of k t i] P f by auto
  then show "\<exists>u. write_log1 i t = Ret () u \<and> ?P (Suc i) u"
    using P v bframe_trans [of s t u] by (simp add: logged_Suc)
qed (use r in simp)

section \<open>The header\<close>

lemma write_head_total:
  assumes r: "ready (Suc k) {} s" and ok: "lg_dev s = 1" "lg_start s < disksize s"
  shows "\<exists>t. write_head s = Ret () t \<and> ready (Suc k) {} t \<and> bframe s t \<and>
    view t = (view s)(lg_start s := put_head (lh_n s) (lh_block s) (view s (lg_start s))) \<and>
    disk t = (disk s)(lg_start s := put_head (lh_n s) (lh_block s) (view s (lg_start s)))"
proof -
  obtain i t where t: "bread 1 (lg_start s) s = Ret i t" "ready (if bdirty (bufs t ! i) then Suc k else k) {i} t"
      "bread_post {} (lg_start s) s i t" "bframe s t" using bread_total [OF r ok(2)] by auto
  define f where "f = put_head (lh_n s) (lh_block s)"
  define u where "u = bmod i (\<lambda>c. c\<lparr>bdata := f (bdata c)\<rparr>) t"
  have T: "bdata (bufs t ! i) = view s (lg_start s)" "blockno (bufs t ! i) = lg_start s" "view t = view s" "disk t = disk s"
    using t(3) by (simp_all add: bread_post_def)
  have inv: "binv {i} t" using ready_binv [OF t(2)] .
  have l: "length (f (bdata (bufs t ! i))) = BSIZE" using length_view [OF ready_binv [OF r]] T by (simp add: f_def)
  have il: "i < length (bufs t)" using inv binv_length [OF inv] by (auto simp: binv_def)
  have u: "ready (if bdirty (bufs t ! i) then Suc k else k) {i} u" "view u = (view t)(lg_start s := f (view s (lg_start s)))"
    using ready_bdata [where f = f, OF t(2) _ l] bdata_law(2) [where f = f, OF inv _ l] T by (simp_all add: u_def)
  obtain v where v: "bwrite i u = Ret () v" "ready (if bdirty (bufs t ! i) then Suc k else k) {i} v" "bwrite_post {i} u i v" "bframe u v"
    using bwrite_total [OF u(1)] by auto
  have V: "\<not> bdirty (bufs v ! i)" "synced v i" "view v = view u" "disk v = (disk s)(lg_start s := f (view s (lg_start s)))"
    using v(3) T il by (simp_all add: bwrite_post_def u_def)
  obtain w where w: "brelse i v = Ret () w" "ready (Suc (if bdirty (bufs t ! i) then Suc k else k)) {} w" "brelse_post {} v w" "bframe v w"
    using brelse_total [OF v(2) _ V(2)] V(1) by auto
  have "write_head s = Ret () w"
    using v(1) w(1) ok bframe_lst [OF t(4)] t(1)
    by (simp add: write_head_def kbind_Ret [of "bread d n" for d n] kseq_Ret u_def f_def del: One_nat_def)
  moreover have "ready (Suc k) {} w" by (rule ready_mono [OF w(2)]) simp
  moreover have "bframe t u" by (simp add: u_def)
  then have "bframe s w" using t(4) v(4) w(4) bframe_trans by blast
  ultimately show ?thesis using w(3) V u(2) T by (simp add: brelse_post_def f_def)
qed

lemma ready_lst [simp]:
  "ready k H (s\<lparr>lh_n := n\<rparr>) = ready k H s" "ready k H (s\<lparr>lh_block := bl\<rparr>) = ready k H s"
  "ready k H (s\<lparr>lg_full := f\<rparr>) = ready k H s" "ready k H (s\<lparr>outstanding := m\<rparr>) = ready k H s" "ready k H (s\<lparr>committing := c\<rparr>) = ready k H s"
  by (simp_all add: ready_def qheld_def kready_def cpu_of_def binv_def buf_ok_def synced_def calm_def mine_def mypid_def clean_bufs_def)

lemma view_lst [simp]:
  "view (s\<lparr>lh_n := n\<rparr>) = view s" "view (s\<lparr>lh_block := bl\<rparr>) = view s"
  "view (s\<lparr>lg_full := f\<rparr>) = view s" "view (s\<lparr>outstanding := m\<rparr>) = view s" "view (s\<lparr>committing := c\<rparr>) = view s"
  by (rule view_core; simp)+

lemma read_head_total:
  assumes r: "ready (Suc k) {} s" and ok: "lg_dev s = 1" "lg_start s < disksize s" "head_n (view s (lg_start s)) \<le> LOGSIZE"
  shows "\<exists>t. read_head s = Ret () t \<and> ready (Suc k) {} t \<and> view t = view s \<and> disk t = disk s \<and> disksize t = disksize s \<and>
    lg_start t = lg_start s \<and> lg_dev t = lg_dev s \<and> lh_n t = head_n (view s (lg_start s)) \<and>
    lh_block t = map (head_block (view s (lg_start s))) [0..<lh_n t] @ drop (lh_n t) (lh_block s)"
proof -
  let ?d = "view s (lg_start s)"
  obtain i t where t: "bread 1 (lg_start s) s = Ret i t" "ready (if bdirty (bufs t ! i) then Suc k else k) {i} t"
      "bread_post {} (lg_start s) s i t" "bframe s t" using bread_total [OF r ok(2)] by auto
  have T: "bdata (bufs t ! i) = ?d" "view t = view s" "disk t = disk s" "synced t i"
    using t(3) by (simp_all add: bread_post_def)
  define u where "u = t\<lparr>lh_n := head_n ?d, lh_block := map (head_block ?d) [0..<head_n ?d] @ drop (head_n ?d) (lh_block t)\<rparr>"
  have U: "ready (if bdirty (bufs u ! i) then Suc k else k) {i} u" "synced u i" "view u = view s" "disk u = disk s"
    using t(2) T by (simp_all add: u_def synced_def)
  obtain w where w: "brelse i u = Ret () w" "ready (if bdirty (bufs u ! i) then (if bdirty (bufs u ! i) then Suc k else k) else Suc (if bdirty (bufs u ! i) then Suc k else k)) {} w"
      "brelse_post {} u w" "bframe u w"
    using brelse_total [OF U(1) _ U(2)] by auto
  have "read_head s = Ret () w"
    using t(1) w(1) ok T by (simp add: read_head_def kbind_Ret [of "bread d n" for d n] u_def del: One_nat_def)
  moreover have "ready (Suc k) {} w" using w(2) by (simp split: if_splits)
  ultimately show ?thesis
    using w(3) U bframe_lst [OF t(4)] bframe_lst [OF w(4)] by (simp add: brelse_post_def u_def)
qed

section \<open>Recovery\<close>

text \<open>
  \<open>disk_head\<close> lists the blocks named by the header on the disk; \<open>recovered\<close> is the disk that recovery
  leaves. \<open>head_ok\<close> is what recovery needs of the header.
\<close>

definition disk_head :: "nat \<Rightarrow> (nat \<Rightarrow> byte list) \<Rightarrow> nat list" where
  "disk_head st d = map (head_block (d st)) [0..<head_n (d st)]"

definition recovered :: "nat \<Rightarrow> (nat \<Rightarrow> byte list) \<Rightarrow> nat \<Rightarrow> byte list" where
  "recovered st d = (replay st (disk_head st d) d d)(st := put_head 0 [] (d st))"

definition head_ok :: "nat \<Rightarrow> nat \<Rightarrow> (nat \<Rightarrow> byte list) \<Rightarrow> bool" where
  "head_ok st nb d \<longleftrightarrow> head_n (d st) \<le> LOGSIZE \<and> distinct (disk_head st d) \<and> st + LOGSIZE < nb \<and> nb < 2 ^ 32 \<and>
     set (disk_head st d) \<inter> log_area st LOGSIZE = {} \<and> (\<forall>b \<in> set (disk_head st d). b < nb)"

lemma recover_total:
  assumes r: "ready (Suc (Suc k)) {} s" and v: "view s = disk s" and dev: "lg_dev s = 1" and l: "length (lh_block s) = LOGSIZE"
    and h: "head_ok (lg_start s) (disksize s) (disk s)"
  shows "\<exists>t. recover_from_log s = Ret () t \<and> ready (Suc (Suc k)) {} t \<and> lh_n t = 0 \<and> view t = disk t \<and>
    disk t = recovered (lg_start s) (disk s)"
proof -
  let ?st = "lg_start s" and ?d = "disk s"
  have st: "?st < disksize s" "head_n (view s ?st) \<le> LOGSIZE" using h v by (simp_all add: head_ok_def)
  obtain t where t: "read_head s = Ret () t" "ready (Suc (Suc k)) {} t" "view t = view s" "disk t = ?d" "disksize t = disksize s"
      "lg_start t = ?st" "lg_dev t = lg_dev s" "lh_n t = head_n (view s ?st)"
      "lh_block t = map (head_block (view s ?st)) [0..<lh_n t] @ drop (lh_n t) (lh_block s)"
    using read_head_total [OF r dev st] by blast
  have bl: "log_blocks t = disk_head ?st ?d" using t(8,9) v by (simp add: log_blocks_def disk_head_def)
  have "length (lh_block t) = LOGSIZE" using t(8,9) v l st by simp
  then have ok: "log_ok t" using h t v dev by (simp add: log_ok_def bl head_ok_def)
  obtain u where u: "install_trans t = Ret () u" "ready (Suc (Suc k)) {} u" "bframe t u"
      "view u = replay ?st (disk_head ?st ?d) ?d ?d" "disk u = replay ?st (disk_head ?st ?d) ?d ?d"
    using install_trans_total [OF t(2) ok] t v bl by auto
  have U: "lg_dev u = 1" "lg_start u = ?st" "disksize u = disksize s" using bframe_lst [OF u(3)] t dev by simp_all
  have "?st \<notin> set (disk_head ?st ?d)" using h by (auto simp: head_ok_def log_area_def)
  then have vst: "view u ?st = ?d ?st" using u(4) by (simp add: replay_notin)
  let ?u = "u\<lparr>lh_n := 0\<rparr>"
  obtain w where w: "write_head ?u = Ret () w" "ready (Suc (Suc k)) {} w" "bframe ?u w"
      "view w = (view u)(?st := put_head 0 (lh_block u) (?d ?st))" "disk w = (disk u)(?st := put_head 0 (lh_block u) (?d ?st))"
    using write_head_total [of "Suc k" ?u] u(2) U st vst by auto
  have "recover_from_log s = Ret () w" using t(1) u(1) w(1) by (simp add: recover_from_log_def kseq_Ret)
  moreover have "lh_n w = 0" using bframe_lst [OF w(3)] by simp
  ultimately show ?thesis using w u by (simp add: recovered_def put_head_def)
qed

section \<open>Commits and crashes\<close>

text \<open>
  The disk is written by \<open>bwrite\<close> only, once per round of the loop of \<open>write_log\<close> and once in
  \<open>write_head\<close>. So the disks a crash inside \<open>commit\<close> can leave are those after \<open>kfor write_log1 [0..<j]\<close>
  for some \<open>j\<close>, and the last one.
\<close>

lemma disk_head_cong: "d st = e st \<Longrightarrow> disk_head st d = disk_head st e"
  by (simp add: disk_head_def)

lemma logged_start [simp]: "logged st k bl v d st = d st"
  by (simp add: logged_def)

lemma commit_total:
  assumes r: "ready (Suc (Suc k)) {} s" and ok: "log_ok s" and n: "0 < lh_n s"
  shows "\<exists>t. commit s = Ret () t \<and> ready (Suc (Suc k)) {} t \<and> bframe s t \<and>
    disk t = (logged (lg_start s) (lh_n s) (lh_block s) (view s) (disk s))
      (lg_start s := put_head (lh_n s) (lh_block s) (view s (lg_start s)))"
proof -
  obtain u where u: "kfor write_log1 [0..<lh_n s] s = Ret () u" "ready (Suc (Suc k)) {} u" "bframe s u"
      "view u = logged (lg_start s) (lh_n s) (lh_block s) (view s) (view s)"
      "disk u = logged (lg_start s) (lh_n s) (lh_block s) (view s) (disk s)"
    using kfor_write_log_total [OF r ok le_refl] by blast
  have f: "lg_dev u = 1" "lg_start u = lg_start s" "lh_n u = lh_n s" "lh_block u = lh_block s" "lg_start u < disksize u"
    using ok bframe_lst [OF u(3)] by (simp_all add: log_ok_def)
  obtain t where t: "write_head u = Ret () t" "ready (Suc (Suc k)) {} t" "bframe u t"
      "disk t = (disk u)(lg_start u := put_head (lh_n u) (lh_block u) (view u (lg_start u)))"
    using write_head_total [OF u(2) f(1,5)] by blast
  have "commit s = Ret () t" using n u(1) t(1) by (simp add: commit_def write_log_def kwhen_def kseq_Ret)
  then show ?thesis using t u f bframe_trans [OF u(3) t(3)] by simp
qed

lemma commit_recovered:
  assumes r: "ready (Suc (Suc k)) {} s" and ok: "log_ok s" and n: "0 < lh_n s"
    and d: "\<And>b. b \<notin> set (log_blocks s) \<Longrightarrow> b \<notin> log_area (lg_start s) LOGSIZE \<Longrightarrow> view s b = disk s b"
    and c: "commit s = Ret () t" and b: "b \<notin> log_area (lg_start s) LOGSIZE"
  shows "recovered (lg_start s) (disk t) b = view s b"
proof -
  let ?st = "lg_start s" and ?n = "lh_n s" and ?bl = "lh_block s"
  have e: "disk t = (logged ?st ?n ?bl (view s) (disk s))(?st := put_head ?n ?bl (view s ?st))"
    using commit_total [OF r ok n] c by auto
  have "length (view s ?st) = BSIZE" using length_view [OF ready_binv [OF r]] .
  moreover have "\<forall>i < ?n. ?bl ! i < 2 ^ 32"
    using log_ok_block(1) [OF ok] ok unfolding log_ok_def by (meson less_trans)
  moreover have "?n \<le> LOGSIZE" using ok by (simp add: log_ok_def)
  ultimately have h: "head_n (put_head ?n ?bl (view s ?st)) = ?n" "map (head_block (put_head ?n ?bl (view s ?st))) [0..<?n] = map (\<lambda>i. ?bl ! i) [0..<?n]"
    by (blast intro: head_put_head)+
  have l: "length (log_blocks s) = ?n" using ok by (simp add: log_ok_def log_blocks_def)
  have hd: "disk_head ?st (disk t) = log_blocks s"
    using h e l by (simp add: disk_head_def list_eq_iff_nth_eq log_blocks_def)
  have bst: "b \<noteq> ?st" using b by (auto simp: log_area_def)
  show ?thesis
  proof (cases "b \<in> set (log_blocks s)")
    case True
    then obtain i where i: "i < ?n" "log_blocks s ! i = b" using l by (auto simp: in_set_conv_nth)
    have "distinct (log_blocks s)" using ok by (simp add: log_ok_def)
    then have "recovered ?st (disk t) b = disk t (?st + i + 1)"
      using replay_nth [of "log_blocks s" i ?st "disk t" "disk t"] i l bst by (simp add: recovered_def hd)
    also have "\<dots> = view s b" using i e by (simp add: logged_def log_blocks_def)
    finally show ?thesis .
  next
    case False
    have "b \<notin> log_area ?st ?n" using b ok by (auto simp: log_area_def log_ok_def)
    then have "disk t b = disk s b" using e bst by (simp add: logged_notin)
    then show ?thesis using False bst d [OF False b] by (simp add: recovered_def hd replay_notin)
  qed
qed


lemma ready_cong:
  assumes "ready k H s" and "quiet t" and "bufs t = bufs s" and "disk t = disk s" and "disksize t = disksize s"
    and "sleeplocks t = sleeplocks s" and "mypid t = mypid s"
  shows "ready k H t"
proof -
  have "mine t = mine s" using assms(6,7) by (simp add: mine_def fun_eq_iff)
  then show ?thesis using assms by (simp add: ready_def binv_def buf_ok_def synced_def calm_def clean_bufs_def)
qed

lemma lst_lock [simp]:
  "disk (lock_st lk s) = disk s" "disk (unlock_st lk s) = disk s"
  "disksize (lock_st lk s) = disksize s" "disksize (unlock_st lk s) = disksize s"
  "lh_n (lock_st lk u) = lh_n u" "lh_n (unlock_st lk u) = lh_n u" "lh_block (lock_st lk u) = lh_block u" "lh_block (unlock_st lk u) = lh_block u"
  "lg_full (lock_st lk u) = lg_full u" "lg_full (unlock_st lk u) = lg_full u" "outstanding (lock_st lk u) = outstanding u" "outstanding (unlock_st lk u) = outstanding u"
  "committing (lock_st lk u) = committing u" "committing (unlock_st lk u) = committing u"
  "lg_start (lock_st lk u) = lg_start u" "lg_start (unlock_st lk u) = lg_start u" "lg_dev (lock_st lk u) = lg_dev u" "lg_dev (unlock_st lk u) = lg_dev u"
  by (simp_all add: lock_st_def unlock_st_def)

lemma view_lock [simp]: "view (lock_st lk s) = view s" "view (unlock_st lk s) = view s"
  by (rule view_core; simp)+

section \<open>Logging a block\<close>

lemma log_slot_old: "b \<in> set (take n bl) \<Longrightarrow> n \<le> length bl \<Longrightarrow> log_slot b n bl < n \<and> bl ! log_slot b n bl = b"
proof -
  assume b: "b \<in> set (take n bl)" "n \<le> length bl"
  then have "first_index (\<lambda>x. x = b) (take n bl) \<noteq> None" by (simp add: first_index_None)
  then obtain i where i: "first_index (\<lambda>x. x = b) (take n bl) = Some i" by blast
  then have "i < n" "take n bl ! i = b" using first_index_less [OF i] first_index_holds [OF i] b(2) by simp_all
  then show ?thesis using i by (simp add: log_slot_def)
qed

lemma log_slot_new: "b \<notin> set (take n bl) \<Longrightarrow> log_slot b n bl = n"
proof -
  assume "b \<notin> set (take n bl)"
  then have "first_index (\<lambda>x. x = b) (take n bl) = None" by (auto simp: first_index_None)
  then show ?thesis by (simp add: log_slot_def)
qed

lemma log_write_total:
  assumes r: "ready k H s" and b: "b \<in> H" and n: "lh_n s < LOGSIZE" and os: "1 \<le> outstanding s"
    and l: "length (lh_block s) = LOGSIZE"
  defines "bno \<equiv> blockno (bufs s ! b)"
  shows "\<exists>t. log_write b s = Ret () t \<and> ready k H t \<and> view t = view s \<and> disk t = disk s \<and> synced t b \<and>
    bufs t = upd b (\<lambda>c. c\<lparr>bdirty := True\<rparr>) (bufs s) \<and> length (lh_block t) = LOGSIZE \<and>
    log_blocks t = (if bno \<in> set (log_blocks s) then log_blocks s else log_blocks s @ [bno]) \<and>
    lh_n t = (if bno \<in> set (log_blocks s) then lh_n s else lh_n s + 1) \<and> outstanding t = outstanding s \<and>
    lg_full t = (lg_full s \<or> bno \<notin> set (log_blocks s) \<and> lh_n s = LOGSIZE - 2) \<and> lg_start t = lg_start s \<and> lg_dev t = lg_dev s \<and>
    committing t = committing s \<and> disksize t = disksize s \<and> sleeplocks t = sleeplocks s \<and> mypid t = mypid s \<and> lst.more t = lst.more s"
proof -
  let ?i = "log_slot bno (lh_n s) (lh_block s)"
  let ?u = "lock_st LLog s"
  have q: "quiet s" using r by (simp add: ready_def)
  have a: "acquire LLog s = Ret () ?u" "qheld {LLog} ?u" using qheld_acquire [OF q] by simp_all
  define v where "v = ?u\<lparr>lh_block := (lh_block s)[?i := bno], lh_n := (if ?i = lh_n s then lh_n s + 1 else lh_n s),
    lg_full := (if ?i = lh_n s \<and> lh_n s + 1 = LOGSIZE - 1 then True else lg_full s)\<rparr>"
  define w where "w = bmod b (\<lambda>c. c\<lparr>bdirty := True\<rparr>) v"
  define t where "t = unlock_st LLog w"
  have "qheld {LLog} v" by (rule qheld_cong [OF a(2)]) (simp_all add: v_def cpu_of_def)
  then have qw: "qheld {LLog} w" by (simp add: w_def)
  have rel: "release LLog w = Ret () t" "quiet t" using qheld_release [OF qw] by (simp_all add: t_def)
  have run: "log_write b s = Ret () t"
    using a(1) rel n os unfolding log_write_def
    by (simp add: kseq_Ret v_def w_def bno_def Let_def split del: if_split cong: if_cong)
  have keep: "bufs t = upd b (\<lambda>c. c\<lparr>bdirty := True\<rparr>) (bufs s)" "disk t = disk s" "disksize t = disksize s" "sleeplocks t = sleeplocks s"
    "mypid t = mypid s" "lst.more t = lst.more s" "lg_start t = lg_start s" "lg_dev t = lg_dev s" "committing t = committing s" "outstanding t = outstanding s"
    by (simp_all add: t_def w_def v_def bmod_def mypid_def unlock_st_def lock_st_def cpu_of_def)
  have bd: "bmod b (\<lambda>c. c\<lparr>bdirty := True\<rparr>) s = s\<lparr>bufs := bufs t\<rparr>" by (simp add: keep bmod_def)
  have inv: "binv H s" using r by (rule ready_binv)
  have "ready k H (bmod b (\<lambda>c. c\<lparr>bdirty := True\<rparr>) s)" using r b by (rule ready_bdirty)
  then have R: "ready k H t"
    by (rule ready_cong) (use rel(2) keep in \<open>simp_all add: mypid_def\<close>)
  have V: "view t = view s" "synced t b"
  proof -
    have "view t = view (bmod b (\<lambda>c. c\<lparr>bdirty := True\<rparr>) s)" by (rule view_core) (simp_all add: keep)
    then show "view t = view s" using bdirty_law(2) [OF inv b] by simp
    show "synced t b" using bdirty_law(3) [OF inv b] by (simp add: synced_def keep)
  qed
  have L: "length (lh_block t) = LOGSIZE" "lh_block t = (lh_block s)[?i := bno]" "lh_n t = (if ?i = lh_n s then lh_n s + 1 else lh_n s)"
      "lg_full t = (if ?i = lh_n s \<and> lh_n s + 1 = LOGSIZE - 1 then True else lg_full s)"
    using l by (simp_all add: t_def w_def v_def bmod_def)
  show ?thesis
  proof (cases "bno \<in> set (log_blocks s)")
    case True
    then have "?i < lh_n s" "lh_block s ! ?i = bno" using log_slot_old [of bno "lh_n s" "lh_block s"] n l by (simp_all add: log_blocks_def)
    then have "lh_block t = lh_block s" "lh_n t = lh_n s" "lg_full t = lg_full s" using L by (simp_all add: list_update_same_conv l n less_trans)
    then show ?thesis using True run R V keep L by (simp add: log_blocks_def)
  next
    case False
    then have "?i = lh_n s" by (simp add: log_slot_new log_blocks_def)
    then have "lh_block t = (lh_block s)[lh_n s := bno]" "lh_n t = lh_n s + 1" "lg_full t = (lh_n s = LOGSIZE - 2 \<or> lg_full s)"
      using L by (auto simp: LOGSIZE_def)
    moreover have "take (lh_n s + 1) ((lh_block s)[lh_n s := bno]) = take (lh_n s) (lh_block s) @ [bno]"
      using n l by (simp add: take_Suc_conv_app_nth)
    ultimately show ?thesis using False run R V keep L by (auto simp: log_blocks_def)
  qed
qed

section \<open>Going to sleep with a lock held\<close>

lemma sleep_locked:
  assumes "qheld {lk} s" and "ncli s = 1" and "cur s = Some p" and "lk \<noteq> LPtable"
  shows "sleep ch lk s = Block (sleep_st p ch lk s)"
proof (rule sleep_Block)
  show "holds lk s" using assms(1,2) by (auto simp: qheld_def holds_def kready_def)
qed (use assms in \<open>auto simp: qheld_def\<close>)

lemma sleep_st_lst [simp]:
  "disk (sleep_st p ch lk s) = disk s" "bufs (sleep_st p ch lk s) = bufs s"
  "lh_n (sleep_st p ch lk u) = lh_n u" "lh_block (sleep_st p ch lk u) = lh_block u" "committing (sleep_st p ch lk u) = committing u" "outstanding (sleep_st p ch lk u) = outstanding u"
  by (simp_all add: sleep_st_def pmod_def lock_st_def unlock_st_def)

section \<open>Theorems\<close>

text \<open>C34: The log header survives the trip to the disk. Whatever the header in memory is changed to after
  \<open>write_head\<close> (a crash forgets it), \<open>read_head\<close> returns and brings back the number of logged blocks and
  their block numbers.\<close>

theorem log_header_roundtrip:
  assumes "ready (Suc k) {} s" and "log_ok s"
  shows "\<exists>t u. write_head s = Ret () t \<and> read_head (t\<lparr>lh_n := m, lh_block := bl\<rparr>) = Ret () u \<and>
    lh_n u = lh_n s \<and> log_blocks u = log_blocks s"
proof -
  let ?d = "put_head (lh_n s) (lh_block s) (view s (lg_start s))"
  have st: "lg_dev s = 1" "lg_start s < disksize s" using assms(2) by (simp_all add: log_ok_def)
  obtain t where t: "write_head s = Ret () t" "ready (Suc k) {} t" "bframe s t" "view t (lg_start s) = ?d"
    using write_head_total [OF assms(1) st] by auto
  have "length (view s (lg_start s)) = BSIZE" using length_view [OF ready_binv [OF assms(1)]] .
  moreover have "\<forall>i < lh_n s. lh_block s ! i < 2 ^ 32"
    using log_ok_block(1) [OF assms(2)] assms(2) unfolding log_ok_def by (meson less_trans)
  moreover have n: "lh_n s \<le> LOGSIZE" using assms(2) by (simp add: log_ok_def)
  ultimately have h: "head_n ?d = lh_n s" "map (head_block ?d) [0..<lh_n s] = map (\<lambda>i. lh_block s ! i) [0..<lh_n s]"
    by (blast intro: head_put_head)+
  let ?t = "t\<lparr>lh_n := m, lh_block := bl\<rparr>"
  have f: "lg_start ?t = lg_start s" "lg_dev ?t = 1" "lg_start ?t < disksize ?t" "view ?t (lg_start ?t) = ?d" "ready (Suc k) {} ?t"
    using bframe_lst [OF t(3)] st t by simp_all
  obtain u where u: "read_head ?t = Ret () u" "lh_n u = lh_n s" "lh_block u = map (head_block ?d) [0..<lh_n s] @ drop (lh_n s) bl"
    using read_head_total [OF f(5,2,3)] f(1,4) h(1) n by auto
  have "log_blocks u = map (\<lambda>i. lh_block s ! i) [0..<lh_n s]" using u h(2) by (simp add: log_blocks_def)
  also have "\<dots> = log_blocks s" using assms(2) unfolding log_blocks_def log_ok_def by (intro nth_equalityI) simp_all
  finally have "log_blocks u = log_blocks s" .
  then show ?thesis using t(1) u by blast
qed

text \<open>C17: Recovery implements its specification. On a machine that has just booted (no block differs from
  the disk) and whose log header is well formed, \<open>recover_from_log\<close> returns, and the disk it leaves is
  \<open>recovered\<close>: every block named by the header holds the contents of its log block, every other block
  but the header is as it was, and the header is empty, in memory as on the disk.\<close>

theorem recover_from_log_refines:
  assumes "ready 2 {} s" and "view s = disk s" and "lg_dev s = 1" and "length (lh_block s) = LOGSIZE"
    and "head_ok (lg_start s) (disksize s) (disk s)"
  shows "\<exists>t. recover_from_log s = Ret () t \<and> view t = disk t \<and> lh_n t = 0 \<and> disk t = recovered (lg_start s) (disk s)"
  using recover_total [of 0 s] assms by (auto simp: numeral_2_eq_2)


text \<open>C18: Commits after the first are not atomic. The header in memory is kept after a commit, so the next
  commit writes its blocks over the log blocks that the header on the disk still describes. If the
  header on the disk lists the first \<open>m\<close> logged blocks, the first of them was changed again and a
  further block was added, then a crash after the first round of \<open>write_log\<close> recovers to a disk with
  the new contents of the one block and the old contents of the other: neither the state before nor
  the state after the transaction.\<close>

theorem second_commit_torn:
  assumes "ready 2 {} s" and "log_ok s" and "0 < m" and "m < lh_n s"
    and "disk_head (lg_start s) (disk s) = take m (lh_block s)"
    and "disk s (lg_start s + 1) \<noteq> view s (lh_block s ! 0)" and "disk s (lh_block s ! m) \<noteq> view s (lh_block s ! m)"
  shows "\<exists>t. kfor write_log1 [0..<1] s = Ret () t \<and>
    recovered (lg_start s) (disk t) (lh_block s ! 0) = view s (lh_block s ! 0) \<and>
    recovered (lg_start s) (disk t) (lh_block s ! 0) \<noteq> recovered (lg_start s) (disk s) (lh_block s ! 0) \<and>
    recovered (lg_start s) (disk t) (lh_block s ! m) = recovered (lg_start s) (disk s) (lh_block s ! m) \<and>
    recovered (lg_start s) (disk t) (lh_block s ! m) \<noteq> view s (lh_block s ! m)"
proof -
  let ?st = "lg_start s" and ?bl = "lh_block s"
  have r: "ready (Suc (Suc 0)) {} s" using assms(1) by (simp add: numeral_2_eq_2)
  have n: "1 \<le> lh_n s" using assms(3,4) by simp
  obtain t where t: "kfor write_log1 [0..<1] s = Ret () t" "disk t = logged ?st 1 ?bl (view s) (disk s)"
    using kfor_write_log_total [OF r assms(2) n] by blast
  have hd: "disk_head ?st (disk t) = take m ?bl" using assms(5) disk_head_cong [of "disk t" ?st "disk s"] t(2) by simp
  have l: "length ?bl = LOGSIZE" "m < LOGSIZE" "distinct (take (lh_n s) ?bl)" "lh_n s \<le> LOGSIZE"
    using assms(2,4) by (auto simp: log_ok_def log_blocks_def)
  have d: "distinct (take m ?bl)" using distinct_take [OF l(3), of m] assms(4) by (simp add: min_def)
  have "distinct (take (Suc m) ?bl)" using distinct_take [OF l(3), of "Suc m"] assms(4) by (simp add: min_def)
  then have new: "?bl ! m \<notin> set (take m ?bl)" using l(1,2) by (simp add: take_Suc_conv_app_nth)
  have "0 < lh_n s" using n by simp
  note b0 = log_ok_block(2) [OF assms(2) this] and bm = log_ok_block(2) [OF assms(2,4)]
  have ne: "?bl ! 0 \<noteq> ?st" "?bl ! m \<noteq> ?st" "?bl ! m \<notin> log_area ?st 1"
    using b0 bm by (auto simp: log_area_def LOGSIZE_def)
  have R: "recovered ?st e (?bl ! 0) = e (?st + 1)" "recovered ?st e (?bl ! m) = e (?bl ! m)"
    if "disk_head ?st e = take m ?bl" for e
    using replay_nth [OF d, of 0 ?st e e] l assms(3) ne replay_notin [OF new, of ?st e e] by (simp_all add: recovered_def that)
  have "disk t (?st + 1) = view s (?bl ! 0)" "disk t (?bl ! m) = disk s (?bl ! m)"
    using t(2) logged_notin [OF ne(3)] by (simp_all add: logged_def)
  then show ?thesis using t(1) R [OF hd] R [OF assms(5)] assms(6,7) by auto
qed


text \<open>C25: Logging a block. Inside a transaction and with room in the log, \<open>log_write\<close> returns: the buffer is
  pinned, the contents of all blocks are as before, a block that is already in the log is not added a
  second time, another one is added at the end, so the header stays free of duplicates and within its
  array. Outside a transaction or with a full log it panics.\<close>

theorem log_write_absorbs:
  assumes "ready k H s" and "b \<in> H" and "length (lh_block s) = LOGSIZE" and "distinct (log_blocks s)" and "lh_n s \<le> LOGSIZE"
  shows "if lh_n s = LOGSIZE then log_write b s = Panic ''too big a transaction''
    else if outstanding s < 1 then log_write b s = Panic ''log_write outside of trans''
    else \<exists>t. log_write b s = Ret () t \<and> bdirty (bufs t ! b) \<and> view t = view s \<and> disk t = disk s \<and> ready k H t \<and>
      log_blocks t = (if blockno (bufs s ! b) \<in> set (log_blocks s) then log_blocks s else log_blocks s @ [blockno (bufs s ! b)]) \<and>
      distinct (log_blocks t) \<and> lh_n t \<le> LOGSIZE \<and> length (lh_block t) = LOGSIZE"
proof -
  have il: "b < length (bufs s)" using assms(2) ready_binv [OF assms(1)] binv_length [of H s] by (auto simp: binv_def)
  have "\<exists>t. log_write b s = Ret () t \<and> bdirty (bufs t ! b) \<and> view t = view s \<and> disk t = disk s \<and> ready k H t \<and>
      log_blocks t = (if blockno (bufs s ! b) \<in> set (log_blocks s) then log_blocks s else log_blocks s @ [blockno (bufs s ! b)]) \<and>
      distinct (log_blocks t) \<and> lh_n t \<le> LOGSIZE \<and> length (lh_block t) = LOGSIZE"
    if "lh_n s < LOGSIZE" "1 \<le> outstanding s"
    using log_write_total [OF assms(1,2) that assms(3)] assms(4) that(1) il by (elim exE conjE, intro exI conjI) (auto split: if_splits)
  then show ?thesis using assms(5) by (auto simp: log_write_def kpanic_def)
qed

lemma sync_total:
  assumes r: "ready (Suc (Suc k)) {} s" and ok: "log_ok s" and n: "lh_n s = LOGSIZE - 1"
  shows "\<exists>t. sync s = Ret 0 t \<and> ready (Suc (Suc k)) {} t \<and> lh_n t = 0 \<and> lg_start t = lg_start s \<and>
    disk t = (replay (lg_start s) (log_blocks s) (view s) (disk s))(lg_start s := put_head 0 [] (view s (lg_start s)))"
proof -
  let ?st = "lg_start s"
  obtain t where t: "install_trans s = Ret () t" "ready (Suc (Suc k)) {} t" "bframe s t"
      "view t = replay ?st (log_blocks s) (view s) (view s)" "disk t = replay ?st (log_blocks s) (view s) (disk s)"
    using install_trans_total [OF r ok] by blast
  have "?st \<notin> set (log_blocks s)" using ok by (auto simp: log_ok_def log_area_def)
  then have v: "view t ?st = view s ?st" using t(4) by (simp add: replay_notin)
  let ?t = "t\<lparr>lh_n := 0\<rparr>"
  have "lg_dev ?t = 1" "lg_start ?t < disksize ?t" "lg_start ?t = ?st" "ready (Suc (Suc k)) {} ?t"
    using ok t bframe_lst [OF t(3)] by (simp_all add: log_ok_def)
  then obtain u where u: "write_head ?t = Ret () u" "ready (Suc (Suc k)) {} u" "bframe ?t u"
      "disk u = (disk t)(?st := put_head 0 (lh_block t) (view s ?st))"
    using write_head_total [of "Suc k" ?t] v by auto
  have "sync s = Ret 0 u" using n t(1) u(1) by (simp add: sync_def kseq_Ret kret_def)
  moreover have "put_head 0 (lh_block t) = put_head 0 []" by (simp add: put_head_def fun_eq_iff)
  ultimately show ?thesis using u t(5) bframe_lst [OF u(3)] bframe_lst [OF t(3)] by simp
qed

text \<open>C26: With exactly 29 logged blocks, the only number for which \<open>sync\<close> does anything, committing and then
  calling \<open>sync\<close> returns 0 and makes the transaction durable without the log: every block outside the
  log holds on the disk what the file system sees, and the log is empty.\<close>

theorem commit_sync_durable:
  assumes "ready 2 {} s" and "log_ok s" and "lh_n s = 29"
    and "\<forall>b. b \<notin> set (log_blocks s) \<union> log_area (lg_start s) LOGSIZE \<longrightarrow> view s b = disk s b"
  shows "\<exists>t u. commit s = Ret () t \<and> sync t = Ret 0 u \<and> lh_n u = 0 \<and>
    (\<forall>b. b \<notin> log_area (lg_start s) LOGSIZE \<longrightarrow> disk u b = view s b)"
proof -
  let ?st = "lg_start s" and ?bl = "lh_block s"
  have r: "ready (Suc (Suc 0)) {} s" using assms(1) by (simp add: numeral_2_eq_2)
  have n: "0 < lh_n s" "lh_n s \<le> lh_n s" using assms(3) by simp_all
  obtain u where u: "kfor write_log1 [0..<lh_n s] s = Ret () u" "ready (Suc (Suc 0)) {} u" "bframe s u"
      "view u = logged ?st (lh_n s) ?bl (view s) (view s)" "disk u = logged ?st (lh_n s) ?bl (view s) (disk s)"
    using kfor_write_log_total [OF r assms(2) n(2)] by blast
  have st: "lg_dev u = 1" "lg_start u < disksize u" using assms(2) bframe_lst [OF u(3)] by (simp_all add: log_ok_def)
  obtain t where t: "write_head u = Ret () t" "ready (Suc (Suc 0)) {} t" "bframe u t"
      "view t = (view u)(lg_start u := put_head (lh_n u) (lh_block u) (view u (lg_start u)))"
      "disk t = (disk u)(lg_start u := put_head (lh_n u) (lh_block u) (view u (lg_start u)))"
    using write_head_total [OF u(2) st] by blast
  have c: "commit s = Ret () t" using n u(1) t(1) by (simp add: commit_def write_log_def kwhen_def kseq_Ret)
  have f: "bframe s t" using bframe_trans [OF u(3) t(3)] .
  have bl: "log_blocks t = log_blocks s" "lg_start t = ?st" "lg_start u = ?st" "lh_n t = LOGSIZE - 1"
    using bframe_lst [OF f] bframe_lst [OF u(3)] assms(3) by (simp_all add: log_blocks_def LOGSIZE_def)
  obtain w where w: "sync t = Ret 0 w" "lh_n w = 0"
      "disk w = (replay ?st (log_blocks s) (view t) (disk t))(?st := put_head 0 [] (view t ?st))"
    using sync_total [OF t(2) log_ok_frame [OF assms(2) f] bl(4)] bl by auto
  have l: "length (log_blocks s) = lh_n s" "distinct (log_blocks s)" using assms(2) by (simp_all add: log_ok_def log_blocks_def)
  have "disk w b = view s b" if b: "b \<notin> log_area ?st LOGSIZE" for b
  proof (cases "b \<in> set (log_blocks s)")
    case True
    then obtain i where i: "i < lh_n s" "log_blocks s ! i = b" using l by (auto simp: in_set_conv_nth)
    have "disk w b = view t (?st + i + 1)"
      using b w(3) replay_nth [OF l(2), of i ?st "view t" "disk t"] i l(1) by (auto simp: log_area_def)
    also have "\<dots> = view s b" using i t(4) u(4) bl by (simp add: logged_def log_blocks_def)
    finally show ?thesis .
  next
    case False
    have "b \<notin> log_area ?st (lh_n s)" "b \<noteq> ?st" using b assms(2) by (auto simp: log_area_def log_ok_def)
    then show ?thesis using False w(3) t(5) u(5) bl assms(4) b by (simp add: replay_notin logged_notin)
  qed
  then show ?thesis using c w by blast
qed

text \<open>C27: A log of 30 blocks destroys an inode block and stops the file system. \<open>log_write\<close> admits a
  thirtieth block, but the log that \<open>mkfs\<close> lays out has 30 blocks including the header, so \<open>write_log\<close>
  overwrites the block behind the log, the first inode block, with the contents of the last logged
  block. From then on \<open>sync\<close> refuses, changing nothing, and every process that calls \<open>begin_op\<close> goes to sleep.\<close>

theorem log_overrun:
  assumes "ready 2 {} s" and "log_ok s" and "lh_n s = 30" and "sb_nlog sb = 30" and "sb_inodestart sb = lg_start s + sb_nlog sb"
    and "ncli s = 0" and "cur s = Some p" and "\<not> committing s"
  shows "(\<exists>t. write_log s = Ret () t \<and> disk t (sb_inodestart sb) = view s (lh_block s ! 29)) \<and>
    sync s = Ret (- 1) s \<and>
    (\<exists>t. begin_op s = Block t \<and> lh_n t = 30 \<and> state (procs t ! p) = SLEEPING \<and> chan (procs t ! p) = CLog)"
proof (intro conjI)
  have r: "ready (Suc (Suc 0)) {} s" using assms(1) by (simp add: numeral_2_eq_2)
  show "\<exists>t. write_log s = Ret () t \<and> disk t (sb_inodestart sb) = view s (lh_block s ! 29)"
    using kfor_write_log_total [OF r assms(2) le_refl] assms(3-5) by (auto simp: write_log_def logged_def)
  show "sync s = Ret (- 1) s" using assms(3) by (simp add: sync_def LOGSIZE_def kret_def)
  have q: "quiet s" using r by (simp add: ready_def)
  let ?u = "lock_st LLog s"
  have a: "acquire LLog s = Ret () ?u" "qheld {LLog} ?u" using qheld_acquire [OF q] by simp_all
  have p: "p < length (procs s)" using q assms(7) by (simp add: qheld_def)
  have "sleep CLog LLog ?u = Block (sleep_st p CLog LLog ?u)"
    by (rule sleep_locked [OF a(2)]) (use assms in simp_all)
  then have "begin_op s = Block (sleep_st p CLog LLog ?u)"
    using a(1) assms(3,8) by (simp add: begin_op_def kseq_Ret LOGSIZE_def)
  then show "\<exists>t. begin_op s = Block t \<and> lh_n t = 30 \<and> state (procs t ! p) = SLEEPING \<and> chan (procs t ! p) = CLog"
    using assms(3) p by (simp add: sleep_st_def asleep_def pmod_def)
qed


section \<open>A disk with an empty log\<close>

definition lst0 :: "(nat \<Rightarrow> byte list) \<Rightarrow> lst" where
  "lst0 dk = bst.extend (bst0 dk) (lst.fields 2 30 1 False 1 False 0 (replicate LOGSIZE 0))"

lemma bst_extend_sel:
  "bufs (bst.extend s x) = bufs s" "disk (bst.extend s x) = disk s" "disksize (bst.extend s x) = disksize s"
  "sleeplocks (bst.extend s x) = sleeplocks s" "mypid (bst.extend s x) = mypid s" "spin (bst.extend s x) = spin s" "ncli (bst.extend s x) = ncli s"
  "ifl (bst.extend s x) = ifl s" "cpu_of (bst.extend s x) = cpu_of s" "cur (bst.extend s x) = cur s" "procs (bst.extend s x) = procs s"
  by (simp_all add: bst.defs mypid_def cpu_of_def)

lemma ncli_bst0: "ncli (bst0 dk) = 0" "cur (bst0 dk) = Some 1"
  by (simp_all add: bst0_def bst.defs sst.defs sst0_def pst.defs pst0_def mst.defs mst0_def kst.defs kst0_def)

lemma lst0_sel [simp]:
  "bufs (lst0 dk) = bufs0" "disk (lst0 dk) = dk" "disksize (lst0 dk) = 40000" "ncli (lst0 dk) = 0" "cur (lst0 dk) = Some 1"
  "lg_start (lst0 dk) = 2" "lg_dev (lst0 dk) = 1" "lh_n (lst0 dk) = 0" "lh_block (lst0 dk) = replicate LOGSIZE 0" "outstanding (lst0 dk) = 1"
  "committing (lst0 dk) = False"
  unfolding lst0_def by (simp_all add: bst_extend_sel ncli_bst0) (simp_all add: bst.defs lst.defs)

lemma ready_extend: "ready k H s \<Longrightarrow> ready k H (bst.extend s x)"
  by (simp add: ready_def qheld_def kready_def binv_def buf_ok_def synced_def calm_def clean_bufs_def mine_def bst_extend_sel cong: if_cong)

lemma ready_lst0: "(\<And>n. length (dk n) = BSIZE) \<Longrightarrow> ready NBUF {} (lst0 dk)"
  unfolding lst0_def by (intro ready_extend ready_bst0)

text \<open>Loading a modified block into an empty buffer.\<close>

definition preload :: "nat \<Rightarrow> nat \<Rightarrow> byte list \<Rightarrow> 'z bst_scheme \<Rightarrow> 'z bst_scheme" where
  "preload i n d = bmod i (\<lambda>b. b\<lparr>bvalid := True, bdirty := True, bdev := 1, blockno := n, bdata := d\<rparr>)"

lemma preload_sel [simp]:
  "disk (preload i n d s) = disk s" "disksize (preload i n d s) = disksize s" "sleeplocks (preload i n d s) = sleeplocks s"
  "ncli (preload i n d s) = ncli s" "cur (preload i n d s) = cur s"
  "lg_start (preload i n d u) = lg_start u" "lg_dev (preload i n d u) = lg_dev u" "lh_n (preload i n d u) = lh_n u"
  "lh_block (preload i n d u) = lh_block u" "outstanding (preload i n d u) = outstanding u" "committing (preload i n d u) = committing u"
  by (simp_all add: preload_def bmod_def)

lemma preload_bufs:
  "i < length (bufs s) \<Longrightarrow> bufs (preload i n d s) ! j =
    (if j = i then (bufs s ! i)\<lparr>bvalid := True, bdirty := True, bdev := 1, blockno := n, bdata := d\<rparr> else bufs s ! j)"
  by (simp add: preload_def nth_upd_if)

lemma preload_ready:
  assumes r: "ready (Suc k) {} s" and i: "i < NBUF" "\<not> bvalid (bufs s ! i)"
    and n: "\<And>j. j < NBUF \<Longrightarrow> \<not> (bdev (bufs s ! j) = 1 \<and> blockno (bufs s ! j) = n)" "n < disksize s" and d: "length d = BSIZE"
  shows "ready k {} (preload i n d s)" and "view (preload i n d s) = (view s)(n := d)"
proof -
  let ?t = "preload i n d s"
  have q: "quiet s" "binv {} s" "calm {} s" "Suc k \<le> card (clean_bufs s)" using r by (simp_all add: ready_def)
  have il: "i < length (bufs s)" using i binv_length [OF q(2)] by simp
  note nth = preload_bufs [OF il, of n d]
  have qt: "quiet ?t" using q(1) by (simp add: preload_def)
  have u: "bufs_unique (bufs ?t)"
    using q(2) n(1) by (auto simp: binv_def bufs_unique_def nth) blast
  obtain xs where xs: "dll xs (bufs s)" using q(2) by (auto simp: binv_def)
  have "dll xs (bufs ?t)" unfolding preload_def bmod_sel by (rule dll_bmod [OF xs]) simp
  then have "\<exists>xs. dll xs (bufs ?t)" ..
  moreover have "buf_ok {} ?t j" if "j < NBUF" for j
    using q(2) that n(2) d by (simp add: binv_def buf_ok_def nth synced_def)
  ultimately have b: "binv {} ?t" using q(2) u by (simp add: binv_def)
  have c: "calm {} ?t" using q(3) by (simp add: calm_def nth)
  have "refcnt (bufs s ! i) = 0" "\<not> bdirty (bufs s ! i)" using q(2,3) i by (auto simp: calm_def binv_def buf_ok_def)
  then have "i \<in> clean_bufs s" using i by (simp add: clean_bufs_def)
  then have "card (clean_bufs s - {i}) \<ge> k" using q(4) by (simp add: card_Diff_singleton)
  moreover have "clean_bufs ?t = clean_bufs s - {i}" by (auto simp: clean_bufs_def nth)
  ultimately show "ready k {} ?t" using qt b c by (simp add: ready_def)
  show "view ?t = (view s)(n := d)"
  proof
    fix m
    show "view ?t m = ((view s)(n := d)) m"
    proof (cases "m = n")
      case True
      then have "caches ?t m i" by (simp add: caches_def nth)
      then show ?thesis using view_cached [OF u i(1)] True by (simp add: nth)
    next
      case False
      have same: "caches ?t m j = caches s m j" if "j < NBUF" for j using False i by (simp add: caches_def nth)
      have us: "bufs_unique (bufs s)" using q(2) by (simp add: binv_def)
      show ?thesis
      proof (rule view_cases [OF us, of m])
        fix j assume j: "j < NBUF" "caches s m j" "view s m = bdata (bufs s ! j)"
        then have "caches ?t m j" "j \<noteq> i" using same i by (auto simp: caches_def)
        then show ?thesis using view_cached [OF u j(1)] j(3) False by (simp add: nth)
      next
        assume h: "\<And>j. j < NBUF \<Longrightarrow> \<not> caches s m j" "view s m = disk s m"
        then show ?thesis using view_uncached [of ?t m] same False by simp
      qed
    qed
  qed
qed


text \<open>Example: two modified blocks, 100 and 101, that are logged; \<open>h\<close> is the header on the disk.\<close>

definition zeros :: "byte list" where "zeros = replicate BSIZE 0"
definition ones :: "byte list" where "ones = replicate BSIZE 1"

lemma zeros_facts: "length zeros = BSIZE" "length ones = BSIZE" "zeros \<noteq> ones" "head_n zeros = 0"
  by (simp_all add: zeros_def ones_def BSIZE_def head_n_def get32_def)

definition lst1 :: "byte list \<Rightarrow> lst" where
  "lst1 h = (preload 1 101 ones (preload 0 100 ones (lst0 ((\<lambda>_. zeros)(2 := h)))))\<lparr>lh_n := 2, lh_block := [100, 101] @ replicate 28 0\<rparr>"

lemma lst1_facts:
  assumes "length h = BSIZE"
  shows "ready 2 {} (lst1 h)" and "log_ok (lst1 h)" and "lh_n (lst1 h) = 2" and "lg_start (lst1 h) = 2"
    and "disk (lst1 h) = (\<lambda>_. zeros)(2 := h)" and "view (lst1 h) = (\<lambda>_. zeros)(2 := h, 100 := ones, 101 := ones)"
    and "log_blocks (lst1 h) = [100, 101]"
proof -
  let ?s = "lst0 ((\<lambda>_. zeros)(2 := h))"
  have "ready NBUF {} ?s" by (rule ready_lst0) (use assms zeros_facts in simp)
  then have r: "ready (Suc (Suc 28)) {} ?s" by (simp add: NBUF_def)
  have l: "length bufs0 = Suc NBUF" using dll_bufs0 by (simp add: dll_def)
  have v: "view ?s = (\<lambda>_. zeros)(2 := h)"
  proof
    fix n show "view ?s n = ((\<lambda>_. zeros)(2 := h)) n"
      using view_uncached [of ?s n] bufs0_fresh by (simp add: caches_def)
  qed
  let ?t = "preload 0 100 ones ?s"
  have t: "ready (Suc 28) {} ?t" "view ?t = (view ?s)(100 := ones)"
    using preload_ready [OF r, of 0 100 ones] bufs0_fresh zeros_facts(2) by (auto simp: NBUF_def)
  have b: "bufs ?t ! j = (if j = 0 then (bufs0 ! 0)\<lparr>bvalid := True, bdirty := True, bdev := 1, blockno := 100, bdata := ones\<rparr> else bufs0 ! j)" for j
    using preload_bufs [of 0 ?s 100 ones j] l by simp
  let ?u = "preload 1 101 ones ?t"
  have n: "\<not> (bdev (bufs ?t ! j) = 1 \<and> blockno (bufs ?t ! j) = 101)" if "j < NBUF" for j
    using bufs0_fresh [OF that] by (simp add: b)
  have u: "ready 28 {} ?u" "view ?u = (view ?t)(101 := ones)"
    using preload_ready [OF t(1) _ _ n, of 1 ones] bufs0_fresh [of 1] zeros_facts(2) by (simp_all add: b NBUF_def)
  show "ready 2 {} (lst1 h)" unfolding lst1_def ready_lst by (rule ready_mono [OF u(1)]) simp
  show lb: "log_blocks (lst1 h) = [100, 101]" by (simp add: log_blocks_def lst1_def numeral_2_eq_2)
  show "lh_n (lst1 h) = 2" and "lg_start (lst1 h) = 2" and "disk (lst1 h) = (\<lambda>_. zeros)(2 := h)" by (simp_all add: lst1_def)
  show "log_ok (lst1 h)" unfolding log_ok_def lb by (simp add: lst1_def LOGSIZE_def log_area_def)
  show "view (lst1 h) = (\<lambda>_. zeros)(2 := h, 100 := ones, 101 := ones)" using u(2) t(2) v by (simp add: lst1_def)
qed

theorem log_header_roundtrip_witness:
  "\<exists>t u. write_head (lst1 zeros) = Ret () t \<and> read_head (t\<lparr>lh_n := 0, lh_block := replicate 30 0\<rparr>) = Ret () u \<and>
     lh_n u = 2 \<and> log_blocks u = [100, 101]"
  using log_header_roundtrip [where k = 1 and s = "lst1 zeros" and m = 0 and bl = "replicate 30 0"] lst1_facts [OF zeros_facts(1)] by (simp add: numeral_2_eq_2)


definition old_head :: "byte list" where "old_head = put_head 1 [100] zeros"

lemma old_head_facts: "length old_head = BSIZE" "head_n old_head = 1" "disk_head 2 ((\<lambda>_. zeros)(2 := old_head)) = [100]"
proof -
  have "length zeros = BSIZE" by (rule zeros_facts)
  then show "length old_head = BSIZE" by (simp add: old_head_def)
  have "head_n old_head = 1" "map (head_block old_head) [0..<1] = map (\<lambda>i. [100] ! i) [0..<1]"
    unfolding old_head_def by (rule head_put_head; simp add: zeros_facts LOGSIZE_def)+
  then show "head_n old_head = 1" "disk_head 2 ((\<lambda>_. zeros)(2 := old_head)) = [100]" by (simp_all add: disk_head_def)
qed

theorem second_commit_torn_witness:
  "\<exists>t. kfor write_log1 [0..<1] (lst1 old_head) = Ret () t \<and> recovered 2 (disk t) 100 = ones \<and> recovered 2 (disk t) 101 \<noteq> ones"
proof -
  note f = lst1_facts [OF old_head_facts(1)]
  have b: "lh_block (lst1 old_head) = [100, 101] @ replicate 28 0" by (simp add: lst1_def)
  show ?thesis
    using second_commit_torn [OF f(1,2), of 1] zeros_facts(3) old_head_facts(3) by (auto simp: f b)
qed

theorem recover_from_log_refines_witness:
  "\<exists>t. recover_from_log (lst0 ((\<lambda>_. zeros)(2 := old_head, 3 := ones))) = Ret () t \<and> disk t 100 = ones \<and> disk t 101 = zeros"
proof -
  let ?d = "(\<lambda>_. zeros)(2 := old_head, 3 := ones)"
  have "ready NBUF {} (lst0 ?d)" by (rule ready_lst0) (simp add: zeros_facts old_head_facts)
  then have r: "ready 2 {} (lst0 ?d)" by (rule ready_mono) (simp add: NBUF_def)
  have v: "view (lst0 ?d) = disk (lst0 ?d)"
  proof
    fix n show "view (lst0 ?d) n = disk (lst0 ?d) n"
      using view_uncached [of "lst0 ?d" n] bufs0_fresh by (simp add: caches_def)
  qed
  have dh: "disk_head 2 ?d = [100]" using old_head_facts(3) disk_head_cong [of ?d 2 "(\<lambda>_. zeros)(2 := old_head)"] by simp
  have h: "head_ok 2 40000 ?d" by (simp add: head_ok_def dh old_head_facts LOGSIZE_def log_area_def)
  have "\<exists>t. recover_from_log (lst0 ?d) = Ret () t \<and> disk t = recovered 2 ?d"
    using recover_from_log_refines [OF r v] h by auto
  moreover have "recovered 2 ?d 100 = ones" "recovered 2 ?d 101 = zeros" by (simp_all add: recovered_def dh replay_def)
  ultimately show ?thesis by auto
qed


text \<open>Example: a log with room for no more than one block, in which block \<open>b\<close> is modified.\<close>

definition lst2 :: "nat \<Rightarrow> nat \<Rightarrow> lst" where
  "lst2 n b = (preload 0 b ones (lst0 (\<lambda>_. zeros)))\<lparr>lh_n := n, lh_block := [100..<130]\<rparr>"

lemma lst2_facts:
  assumes "n \<le> 30" and "b < 40000"
  shows "ready 29 {} (lst2 n b)" and "log_ok (lst2 n b)" and "view (lst2 n b) = (\<lambda>_. zeros)(b := ones)"
    and "lh_n (lst2 n b) = n" "lg_start (lst2 n b) = 2" "lh_block (lst2 n b) = [100..<130]" "disk (lst2 n b) = (\<lambda>_. zeros)"
    "ncli (lst2 n b) = 0" "cur (lst2 n b) = Some 1" "\<not> committing (lst2 n b)" "outstanding (lst2 n b) = 1" "log_blocks (lst2 n b) = [100..<100 + n]"
    "disksize (lst2 n b) = 40000"
proof -
  let ?s = "lst0 (\<lambda>_. zeros)"
  have "ready NBUF {} ?s" by (rule ready_lst0) (use zeros_facts in simp)
  then have r: "ready (Suc 29) {} ?s" by (simp add: NBUF_def)
  have v: "view ?s = (\<lambda>_. zeros)"
  proof
    fix n show "view ?s n = zeros" using view_uncached [of ?s n] bufs0_fresh by (simp add: caches_def)
  qed
  have t: "ready 29 {} (preload 0 b ones ?s)" "view (preload 0 b ones ?s) = (view ?s)(b := ones)"
    using preload_ready [OF r, of 0 b ones] bufs0_fresh zeros_facts(2) assms(2) by (auto simp: NBUF_def)
  then show "ready 29 {} (lst2 n b)" "view (lst2 n b) = (\<lambda>_. zeros)(b := ones)" by (simp_all add: lst2_def v)
  show lb: "log_blocks (lst2 n b) = [100..<100 + n]" using assms(1) take_upt [of 100 n 130] by (simp add: log_blocks_def lst2_def del: upt_rec_numeral)
  show "lh_n (lst2 n b) = n" "lg_start (lst2 n b) = 2" "lh_block (lst2 n b) = [100..<130]" "disk (lst2 n b) = (\<lambda>_. zeros)"
    "ncli (lst2 n b) = 0" "cur (lst2 n b) = Some 1" "\<not> committing (lst2 n b)" "outstanding (lst2 n b) = 1" "disksize (lst2 n b) = 40000"
    by (simp_all add: lst2_def del: upt_rec_numeral)
  then show "log_ok (lst2 n b)" unfolding log_ok_def lb using assms(1)
    by (auto simp: lst2_def LOGSIZE_def log_area_def simp del: upt_rec_numeral)
qed

theorem commit_sync_durable_witness:
  "\<exists>t u. commit (lst2 29 100) = Ret () t \<and> sync t = Ret 0 u \<and> disk u 100 = ones"
proof -
  have "(29 :: nat) \<le> 30" "(100 :: nat) < 40000" by simp_all
  note f = lst2_facts [OF this]
  have r: "ready 2 {} (lst2 29 100)" using f(1) by (rule ready_mono) simp
  have "\<forall>b. b \<notin> set (log_blocks (lst2 29 100)) \<union> log_area (lg_start (lst2 29 100)) LOGSIZE \<longrightarrow> view (lst2 29 100) b = disk (lst2 29 100) b"
    by (simp add: f)
  from commit_sync_durable [OF r f(2,4) this] obtain t u where t: "commit (lst2 29 100) = Ret () t" "sync t = Ret 0 u"
    and d: "\<forall>b. b \<notin> log_area (lg_start (lst2 29 100)) LOGSIZE \<longrightarrow> disk u b = view (lst2 29 100) b" by blast
  have "disk u 100 = ones" using d by (simp add: f log_area_def LOGSIZE_def)
  then show ?thesis using t by blast
qed

theorem log_overrun_witness:
  "(\<exists>t. write_log (lst2 30 129) = Ret () t \<and> disk t 32 = ones) \<and> (\<exists>t. begin_op (lst2 30 129) = Block t \<and> state (procs t ! 1) = SLEEPING)"
proof -
  have "(30 :: nat) \<le> 30" "(129 :: nat) < 40000" by simp_all
  note f = lst2_facts [OF this]
  have r: "ready 2 {} (lst2 30 129)" using f(1) by (rule ready_mono) simp
  let ?sb = "\<lparr>sb_size = 40000, sb_nblocks = 39900, sb_ninodes = 200, sb_nlog = 30, sb_logstart = 2, sb_inodestart = 32, sb_bmapstart = 58\<rparr>"
  show ?thesis using log_overrun [OF r f(2,4), of ?sb 1] by (auto simp: f)
qed

theorem log_write_absorbs_witness:
  "\<exists>(s :: lst) b t. log_write b s = Ret () t \<and> blockno (bufs s ! b) = 129 \<and> log_blocks t = [100..<129] @ [129] \<and> bdirty (bufs t ! b)"
proof -
  have "(29 :: nat) \<le> 30" "(100 :: nat) < 40000" by simp_all
  note f = lst2_facts [OF this]
  have r: "ready (Suc 28) {} (lst2 29 100)" using f(1) by (rule ready_mono) simp
  have "(129 :: nat) < disksize (lst2 29 100)" by (simp add: f)
  from bread_total [OF r this] obtain i t where
    t: "ready (if bdirty (bufs t ! i) then Suc 28 else 28) {i} t" "bread_post {} 129 (lst2 29 100) i t" "bframe (lst2 29 100) t"
    by blast
  have "blockno (bufs t ! i) = 129" using t(2) by (simp add: bread_post_def)
  moreover have "log_blocks t = [100..<129]" "lh_n t = 29" "outstanding t = 1" "length (lh_block t) = LOGSIZE" 
    using bframe_lst [OF t(3)] f by (simp_all add: log_blocks_def LOGSIZE_def)
  ultimately show ?thesis using log_write_absorbs [OF t(1), of i] by (auto simp: LOGSIZE_def)
qed

end
