(* ===== verification/Txn.thy ===== *)
theory Txn
  imports Log
begin

text \<open>
  Reading and modifying blocks inside a transaction: what \<open>bread\<close>, \<open>log_write\<close> and \<open>brelse\<close> together give the file
  system. The contents of the blocks are the function \<open>view\<close>; a transaction has a budget of buffers and of log entries,
  and as long as it lasts the operations return.
\<close>

section \<open>The budget of a transaction\<close>

text \<open>
  \<open>txn k m H s\<close>: the buffers in \<open>H\<close> are held, \<open>k\<close> buffers can be clean at the same time (those in \<open>H\<close> counted), and
  \<open>m\<close> more blocks fit into the log.
\<close>

definition txn :: "nat \<Rightarrow> nat \<Rightarrow> nat set \<Rightarrow> 'z lst_scheme \<Rightarrow> bool" where
  "txn k m H s \<longleftrightarrow> (\<exists>k'. ready k' H s \<and> k \<le> k' + card {i \<in> H. \<not> bdirty (bufs s ! i)}) \<and>
     1 \<le> outstanding s \<and> length (lh_block s) = LOGSIZE \<and> lh_n s + m \<le> LOGSIZE"

definition tframe :: "nat set \<Rightarrow> 'z lst_scheme \<Rightarrow> 'z lst_scheme \<Rightarrow> bool" where
  "tframe H s t \<longleftrightarrow> disksize t = disksize s \<and> lst.more t = lst.more s \<and> mypid t = mypid s \<and>
     (\<forall>k. sleeplocks t (SInode k) = sleeplocks s (SInode k)) \<and> (\<forall>i \<in> H. blockno (bufs t ! i) = blockno (bufs s ! i) \<and> (synced s i \<longrightarrow> synced t i))"

lemma tframe_refl [simp]: "tframe H s s"
  by (simp add: tframe_def)

lemma tframe_trans [trans]: "tframe H s t \<Longrightarrow> tframe H t u \<Longrightarrow> tframe H s u"
  by (simp add: tframe_def)

lemma tframe_mono: "tframe H s t \<Longrightarrow> G \<subseteq> H \<Longrightarrow> tframe G s t"
  by (auto simp: tframe_def)

lemma bframe_tframe: "bframe s t \<Longrightarrow> disk t = disk s \<Longrightarrow> (\<And>i. i \<in> H \<Longrightarrow> core (bufs t ! i) = core (bufs s ! i)) \<Longrightarrow> tframe H s t"
  using bframe_lst [of s t] by (simp add: tframe_def bframe_def core_def synced_def)

lemma txn_ready: "txn k m H s \<Longrightarrow> \<exists>k'. ready k' H s"
  by (auto simp: txn_def)

lemma txn_mono: "txn k m H s \<Longrightarrow> k' \<le> k \<Longrightarrow> m' \<le> m \<Longrightarrow> txn k' m' H s"
  by (auto simp: txn_def intro: order_trans)

lemma txn_finite: "txn k m H s \<Longrightarrow> finite H"
  by (auto simp: txn_def ready_def binv_def intro: finite_subset)

lemma txn_length_view: "txn k m H s \<Longrightarrow> length (view s n) = BSIZE"
  by (auto simp: txn_def ready_def intro: length_view)

lemma held_view:
  assumes "txn k m H s" and "i \<in> H"
  shows "bdata (bufs s ! i) = view s (blockno (bufs s ! i))" and "i < NBUF" and "i < length (bufs s)"
proof -
  obtain b: "binv H s" using assms(1) by (auto simp: txn_def ready_def)
  show i: "i < NBUF" using b assms(2) by (auto simp: binv_def)
  then show "i < length (bufs s)" using binv_length [OF b] by simp
  have "buf_ok H s i" using b i by (simp add: binv_def)
  then have "caches s (blockno (bufs s ! i)) i" using assms(2) by (simp add: caches_def buf_ok_def)
  moreover have "bufs_unique (bufs s)" using b by (simp add: binv_def)
  ultimately show "bdata (bufs s ! i) = view s (blockno (bufs s ! i))" using view_cached [of s, OF _ i] by simp
qed

section \<open>The three operations\<close>

lemma clean_held_insert: "finite H \<Longrightarrow> i \<notin> H \<Longrightarrow> (\<And>j. j \<in> H \<Longrightarrow> bdirty (f j) = bdirty (g j)) \<Longrightarrow>
    card {j \<in> insert i H. \<not> bdirty (f j)} = (if bdirty (f i) then 0 else 1) + card {j \<in> H. \<not> bdirty (g j)}"
proof -
  assume a: "finite H" "i \<notin> H" "\<And>j. j \<in> H \<Longrightarrow> bdirty (f j) = bdirty (g j)"
  have e: "{j \<in> insert i H. \<not> bdirty (f j)} = (if bdirty (f i) then {} else {i}) \<union> {j \<in> H. \<not> bdirty (g j)}" using a(3) by auto
  show ?thesis unfolding e using a(1,2) by (subst card_Un_disjoint) auto
qed

lemma txn_bread:
  assumes t: "txn k m H s" and k: "card H < k" and n: "n < disksize s" and h: "\<And>i. i \<in> H \<Longrightarrow> blockno (bufs s ! i) \<noteq> n"
  shows "\<exists>i t. bread 1 n s = Ret i t \<and> txn k m (insert i H) t \<and> i \<notin> H \<and> blockno (bufs t ! i) = n \<and> synced t i \<and>
    view t = view s \<and> tframe H s t"
proof -
  let ?c = "card {i \<in> H. \<not> bdirty (bufs s ! i)}"
  from t obtain k' where r: "ready k' H s" and kk: "k \<le> k' + ?c" by (auto simp: txn_def)
  have "?c \<le> card H" by (rule card_mono) (use txn_finite [OF t] in auto)
  then obtain k0 where k0: "k' = Suc k0" using kk k by (cases k') auto
  from bread_total [OF r [unfolded k0] n h] obtain i u where u: "bread 1 n s = Ret i u"
    "ready (if bdirty (bufs u ! i) then Suc k0 else k0) (insert i H) u" "bread_post H n s i u" "bframe s u" by blast
  have c: "core (bufs u ! j) = core (bufs s ! j)" if "j \<in> H" for j using u(3) that by (simp add: bread_post_def)
  have i: "i \<notin> H" using u(3) by (simp add: bread_post_def)
  have "card {j \<in> insert i H. \<not> bdirty (bufs u ! j)} = (if bdirty (bufs u ! i) then 0 else 1) + ?c"
    by (rule clean_held_insert) (use txn_finite [OF t] i c in \<open>auto simp: core_def\<close>)
  then have "txn k m (insert i H) u"
    using t u(2) kk k0 by (auto simp: txn_def bframe_lst [OF u(4)] split: if_splits)
  moreover have "tframe H s u" using u(4) by (rule bframe_tframe) (use c u(3) in \<open>simp_all add: bread_post_def brelse_post_def\<close>)
  ultimately show ?thesis using u(1,3) by (auto simp: bread_post_def)
qed

lemma txn_brelse:
  assumes t: "txn k m H s" and i: "i \<in> H" "synced s i"
  shows "\<exists>t. brelse i s = Ret () t \<and> txn k m (H - {i}) t \<and> view t = view s \<and> tframe H s t \<and> (\<forall>j. core (bufs t ! j) = core (bufs s ! j)) \<and> disk t = disk s"
proof -
  let ?c = "card {i \<in> H. \<not> bdirty (bufs s ! i)}"
  from t obtain k' where r: "ready k' H s" and kk: "k \<le> k' + ?c" by (auto simp: txn_def)
  from brelse_total [OF r i] obtain u where u: "brelse i s = Ret () u"
    "ready (if bdirty (bufs s ! i) then k' else Suc k') (H - {i}) u" "brelse_post (H - {i}) s u" "bframe s u" by blast
  have c: "core (bufs u ! j) = core (bufs s ! j)" for j using u(3) by (simp add: brelse_post_def)
  have "card {j \<in> insert i (H - {i}). \<not> bdirty (bufs s ! j)} = (if bdirty (bufs s ! i) then 0 else 1) + card {j \<in> H - {i}. \<not> bdirty (bufs u ! j)}"
    by (rule clean_held_insert) (use txn_finite [OF t] c in \<open>auto simp: core_def\<close>)
  moreover have "insert i (H - {i}) = H" using i(1) by blast
  ultimately have n: "?c = (if bdirty (bufs s ! i) then 0 else 1) + card {j \<in> H - {i}. \<not> bdirty (bufs u ! j)}" by (simp only:)
  have "k \<le> (if bdirty (bufs s ! i) then k' else Suc k') + card {j \<in> H - {i}. \<not> bdirty (bufs u ! j)}"
    using kk unfolding n by (simp split: if_splits)
  then have "txn k m (H - {i}) u" unfolding txn_def using t u(2) by (auto simp: txn_def bframe_lst [OF u(4)])
  moreover have "tframe H s u" using u(4) by (rule bframe_tframe) (use c u(3) in \<open>simp_all add: bread_post_def brelse_post_def\<close>)
  ultimately show ?thesis using u(1,3) by (auto simp: brelse_post_def)
qed

text \<open>Changing the contents of a held block and logging it.\<close>

lemma txn_write:
  assumes t: "txn (Suc k) (Suc m) H s" and i: "i \<in> H" and f: "length (f (bdata (bufs s ! i))) = BSIZE"
  shows "\<exists>t. log_write i (bmod i (\<lambda>b. b\<lparr>bdata := f (bdata b)\<rparr>) s) = Ret () t \<and> txn k m H t \<and> synced t i \<and>
    view t = (view s)(blockno (bufs s ! i) := f (view s (blockno (bufs s ! i)))) \<and> tframe H s t"
proof -
  let ?c = "card {i \<in> H. \<not> bdirty (bufs s ! i)}" and ?u = "bmod i (\<lambda>b. b\<lparr>bdata := f (bdata b)\<rparr>) s"
  from t obtain k' where r: "ready k' H s" and kk: "Suc k \<le> k' + ?c" by (auto simp: txn_def)
  note hv = held_view [OF t i]
  have ru: "ready k' H ?u" using r i f by (rule ready_bdata)
  have nu: "lh_n ?u < LOGSIZE" "1 \<le> outstanding ?u" "length (lh_block ?u) = LOGSIZE" using t by (auto simp: txn_def bmod_def)
  from log_write_total [OF ru i nu] obtain w where w: "log_write i ?u = Ret () w" "ready k' H w" "view w = view ?u" "synced w i"
    "bufs w = upd i (\<lambda>c. c\<lparr>bdirty := True\<rparr>) (bufs ?u)" "length (lh_block w) = LOGSIZE" "lh_n w \<le> Suc (lh_n ?u)"
    "outstanding w = outstanding ?u" "disksize w = disksize ?u" "sleeplocks w = sleeplocks ?u" "mypid w = mypid ?u" "lst.more w = lst.more ?u"
    "disk w = disk ?u"
    by (auto split: if_splits)
  have nth: "bdirty (bufs w ! j) = (j = i \<or> bdirty (bufs s ! j))" "blockno (bufs w ! j) = blockno (bufs s ! j)" for j
    using hv(3) by (auto simp: w(5) nth_upd_if)
  have "{j \<in> H. \<not> bdirty (bufs w ! j)} = {j \<in> H. \<not> bdirty (bufs s ! j)} - {i}" by (auto simp: nth)
  then have "?c \<le> Suc (card {j \<in> H. \<not> bdirty (bufs w ! j)})"
    using txn_finite [OF t] by (simp add: card_Diff_singleton_if) linarith
  then have "txn k m H w" unfolding txn_def using kk w t by (auto simp: txn_def bmod_def intro!: exI [of _ k'])
  moreover have "view w = (view s)(blockno (bufs s ! i) := f (view s (blockno (bufs s ! i))))"
    unfolding w(3) using bdata_law(2) [where f = f, OF ready_binv [OF r] i f] hv(1) by simp
  moreover have "synced w j" if "synced s j" for j
    using that w(4,13) hv(3) by (cases "j = i") (auto simp: synced_def w(5) nth_upd_if)
  then have "tframe H s w" using w(9-12) by (simp add: tframe_def nth) (simp add: bmod_def mypid_def)
  ultimately show ?thesis using w(1,4) by blast
qed

section \<open>A block at a time\<close>

text \<open>Reading a block, changing it, logging it and giving it back.\<close>

lemma modify_block:
  assumes t: "txn (Suc k) (Suc m) H s" and k: "card H < Suc k" and n: "n < disksize s" and h: "\<And>i. i \<in> H \<Longrightarrow> blockno (bufs s ! i) \<noteq> n"
    and f: "length (f (view s n)) = BSIZE"
  shows "\<exists>t. kbind (bread 1 n) (\<lambda>i. kseq (kmod (bmod i (\<lambda>b. b\<lparr>bdata := f (bdata b)\<rparr>))) (kseq (log_write i) (brelse i))) s = Ret () t \<and>
    txn k m H t \<and> view t = (view s)(n := f (view s n)) \<and> tframe H s t"
proof -
  from txn_bread [OF t k n h] obtain i u where u: "bread 1 n s = Ret i u" "txn (Suc k) (Suc m) (insert i H) u" "i \<notin> H"
    "blockno (bufs u ! i) = n" "view u = view s" "tframe H s u" by blast
  have hv: "bdata (bufs u ! i) = view s n" using held_view(1) [OF u(2), of i] u(4,5) by simp
  have "length (f (bdata (bufs u ! i))) = BSIZE" using hv f by simp
  from txn_write [where f = f, OF u(2) insertI1 this] obtain v where
    v: "log_write i (bmod i (\<lambda>b. b\<lparr>bdata := f (bdata b)\<rparr>) u) = Ret () v" "txn k m (insert i H) v" "synced v i"
      "view v = (view s)(n := f (view s n))" "tframe (insert i H) u v"
    unfolding u(4,5) by blast
  from txn_brelse [OF v(2) insertI1 v(3)] obtain w where w: "brelse i v = Ret () w" "txn k m (insert i H - {i}) w" "view w = view v" "tframe (insert i H) v w"
    by blast
  have "tframe H u v" "tframe H v w" using v(5) w(4) by (auto intro: tframe_mono)
  with u(6) have "tframe H s w" by (blast intro: tframe_trans)
  moreover have "insert i H - {i} = H" using u(3) by blast
  moreover have "kbind (bread 1 n) (\<lambda>i. kseq (kmod (bmod i (\<lambda>b. b\<lparr>bdata := f (bdata b)\<rparr>))) (kseq (log_write i) (brelse i))) s = Ret () w"
    using u(1) v(1) w(1) by (simp add: kbind_Ret [of "bread 1 n" s] kseq_Ret [of "log_write i"] del: One_nat_def)
  ultimately show ?thesis using w(2,3) v(4) by metis
qed

end
