(* ===== verification/Fs.thy ===== *)
theory Fs
  imports Txn
begin

text \<open>
  \<^verbatim>\<open>fs.c\<close>: the block allocator, the inode cache, the mapping from file blocks to disk blocks with one,
  two and three levels of indirection, reading and writing files, directories and path names.

  An inode pointer is its index in \<open>icache.inode\<close>. Data read from a file is returned as a list of
  bytes, which the caller stores where the C code points \<open>dst\<close>; data to be written is passed as a list.
  The device switch \<open>devsw\<close> is a table of function pointers: it is the argument \<open>dv\<close> of the functions
  that call through it.
\<close>

section \<open>Structures\<close>

definition NINODE :: nat where "NINODE = 50"
definition ROOTDEV :: nat where "ROOTDEV = 1"
definition ROOTINO :: nat where "ROOTINO = 1"
definition NDIRECT :: nat where "NDIRECT = 10"
definition NINDIRECT :: nat where "NINDIRECT = 128"
definition NDINDIRECT :: nat where "NDINDIRECT = NINDIRECT * NINDIRECT"
definition NTINDIRECT :: nat where "NTINDIRECT = NDINDIRECT * NINDIRECT"
definition MAXFILE :: nat where "MAXFILE = NDIRECT + NINDIRECT + NDINDIRECT + NTINDIRECT"
definition IPB :: nat where "IPB = 8"
definition BPB :: nat where "BPB = 4096"
definition DIRSIZ :: nat where "DIRSIZ = 14"
definition T_DIR :: int where "T_DIR = 1"
definition T_FILE :: int where "T_FILE = 2"
definition T_DEV :: int where "T_DEV = 3"
definition NDEV :: int where "NDEV = 10"

lemmas fs_consts = NINODE_def ROOTDEV_def ROOTINO_def NDIRECT_def NINDIRECT_def NDINDIRECT_def NTINDIRECT_def
  MAXFILE_def IPB_def BPB_def DIRSIZ_def T_DIR_def T_FILE_def T_DEV_def NDEV_def

record inode =
  idev :: nat
  inum :: nat
  iref :: int
  ivalid :: bool
  itype :: int
  major :: int
  minor :: int
  nlink :: int
  isize :: nat
  addrs :: "nat list"

record fsst = lst +
  sb :: superblock
  inodes :: "inode list"

record stat =
  st_type :: int
  st_dev :: nat
  st_ino :: nat
  st_nlink :: int
  st_size :: nat

definition imod :: "nat \<Rightarrow> (inode \<Rightarrow> inode) \<Rightarrow> 'z fsst_scheme \<Rightarrow> 'z fsst_scheme" where
  "imod i f s = s\<lparr>inodes := upd i f (inodes s)\<rparr>"

definition IBLOCK :: "nat \<Rightarrow> superblock \<Rightarrow> nat" where
  "IBLOCK i b = i div IPB + sb_inodestart b"

definition BBLOCK :: "nat \<Rightarrow> superblock \<Rightarrow> nat" where
  "BBLOCK n b = n div BPB + sb_bmapstart b"

text \<open>Short integers in a block, and the inode structure on the disk: 64 bytes, 8 in a block.\<close>

definition get16 :: "nat \<Rightarrow> byte list \<Rightarrow> 16 word" where
  "get16 off d = ucast (d ! off) OR push_bit 8 (ucast (d ! (off + 1)))"

definition put16 :: "nat \<Rightarrow> 16 word \<Rightarrow> byte list \<Rightarrow> byte list" where
  "put16 off v d = d[off := ucast v, off + 1 := ucast (drop_bit 8 v)]"

definition doff :: "nat \<Rightarrow> nat" where
  "doff i = 64 * (i mod IPB)"

definition get_dinode :: "byte list \<Rightarrow> nat \<Rightarrow> inode \<Rightarrow> inode" where
  "get_dinode d off ip = ip\<lparr>itype := sint (get16 off d), major := sint (get16 (off + 2) d),
     minor := sint (get16 (off + 4) d), nlink := sint (get16 (off + 6) d), isize := unat (get32 (off + 8) d),
     addrs := map (\<lambda>i. unat (get32 (off + 12 + 4 * i) d)) [0..<13]\<rparr>"

definition put_addrs :: "nat \<Rightarrow> nat list \<Rightarrow> byte list \<Rightarrow> byte list" where
  "put_addrs off as d = fold (\<lambda>i. put32 (off + 4 * i) (of_nat (as ! i))) [0..<13] d"

definition put_dinode :: "nat \<Rightarrow> inode \<Rightarrow> byte list \<Rightarrow> byte list" where
  "put_dinode off ip d =
     put_addrs (off + 12) (addrs ip)
       (put32 (off + 8) (of_nat (isize ip))
       (put16 (off + 6) (of_int (nlink ip))
       (put16 (off + 4) (of_int (minor ip))
       (put16 (off + 2) (of_int (major ip))
       (put16 off (of_int (itype ip)) d)))))"

section \<open>Blocks\<close>

definition bzero :: "nat \<Rightarrow> nat \<Rightarrow> ('z lst_scheme, unit) kop" where
  "bzero dev bno =
     kbind (bread dev bno) (\<lambda>bp.
     kseq (kmod (bmod bp (\<lambda>b. b\<lparr>bdata := replicate BSIZE 0\<rparr>))) (
     kseq (log_write bp)
       (brelse bp)))"

text \<open>The bit of block \<open>b + bi\<close> in the block of the free map that starts at \<open>b\<close>.\<close>

definition bit_used :: "byte list \<Rightarrow> nat \<Rightarrow> bool" where
  "bit_used d bi \<longleftrightarrow> d ! (bi div 8) AND push_bit (bi mod 8) 1 \<noteq> 0"

definition set_used :: "nat \<Rightarrow> byte list \<Rightarrow> byte list" where
  "set_used bi d = d[bi div 8 := d ! (bi div 8) OR push_bit (bi mod 8) 1]"

definition clear_used :: "nat \<Rightarrow> byte list \<Rightarrow> byte list" where
  "clear_used bi d = d[bi div 8 := d ! (bi div 8) AND NOT (push_bit (bi mod 8) 1)]"

primrec balloc_loop :: "nat \<Rightarrow> nat list \<Rightarrow> ('z fsst_scheme, nat) kop" where
  "balloc_loop dev [] = kpanic ''balloc: out of blocks''"
| "balloc_loop dev (b # bs) =
     kbind (kget sb) (\<lambda>sb.
     kbind (bread dev (BBLOCK b sb)) (\<lambda>bp.
     kbind (kget (\<lambda>s. bdata (bufs s ! bp))) (\<lambda>d.
     case find (\<lambda>bi. \<not> bit_used d bi) [0..<min BPB (sb_size sb - b)] of
       Some bi \<Rightarrow>
         kseq (kmod (bmod bp (\<lambda>c. c\<lparr>bdata := set_used bi (bdata c)\<rparr>))) (
         kseq (log_write bp) (
         kseq (brelse bp) (
         kseq (bzero dev (b + bi))
           (kret (b + bi)))))
     | None \<Rightarrow> kseq (brelse bp) (balloc_loop dev bs))))"

definition balloc :: "nat \<Rightarrow> ('z fsst_scheme, nat) kop" where
  "balloc dev = kbind (kget sb) (\<lambda>sb. balloc_loop dev (map (\<lambda>g. g * BPB) [0..<(sb_size sb + BPB - 1) div BPB]))"

definition bfree :: "nat \<Rightarrow> nat \<Rightarrow> ('z fsst_scheme, unit) kop" where
  "bfree dev b =
     kbind (readsb dev) (\<lambda>sb'.
     kseq (kmod (\<lambda>s. s\<lparr>sb := sb'\<rparr>)) (
     kbind (bread dev (BBLOCK b sb')) (\<lambda>bp.
     kbind (kget (\<lambda>s. bdata (bufs s ! bp))) (\<lambda>d.
     if \<not> bit_used d (b mod BPB) then kpanic ''freeing free block''
     else
       kseq (kmod (bmod bp (\<lambda>c. c\<lparr>bdata := clear_used (b mod BPB) (bdata c)\<rparr>))) (
       kseq (log_write bp)
         (brelse bp))))))"

section \<open>Inodes\<close>

definition iinit :: "nat \<Rightarrow> ('z fsst_scheme, unit) kop" where
  "iinit dev =
     kseq (initlock LIcache) (
     kseq (kfor (\<lambda>i. initsleeplock (SInode i)) [0..<NINODE]) (
     kbind (readsb dev) (\<lambda>sb'.
     kmod (\<lambda>s. s\<lparr>sb := sb'\<rparr>))))"

definition iget :: "nat \<Rightarrow> nat \<Rightarrow> ('z fsst_scheme, nat) kop" where
  "iget dev n =
     kseq (acquire LIcache) (
     kbind (kget inodes) (\<lambda>is.
     case first_index (\<lambda>ip. iref ip > 0 \<and> idev ip = dev \<and> inum ip = n) is of
       Some i \<Rightarrow>
         kseq (kmod (imod i (\<lambda>ip. ip\<lparr>iref := iref ip + 1\<rparr>))) (
         kseq (release LIcache)
           (kret i))
     | None \<Rightarrow>
         (case first_index (\<lambda>ip. iref ip = 0) is of
            None \<Rightarrow> kpanic ''iget: no inodes''
          | Some i \<Rightarrow>
              kseq (kmod (imod i (\<lambda>ip. ip\<lparr>idev := dev, inum := n, iref := 1, ivalid := False\<rparr>))) (
              kseq (release LIcache)
                (kret i)))))"

primrec ialloc_loop :: "nat \<Rightarrow> int \<Rightarrow> nat list \<Rightarrow> ('z fsst_scheme, nat) kop" where
  "ialloc_loop dev ty [] = kpanic ''ialloc: no inodes''"
| "ialloc_loop dev ty (n # ns) =
     kbind (kget sb) (\<lambda>sb.
     kbind (bread dev (IBLOCK n sb)) (\<lambda>bp.
     kbind (kget (\<lambda>s. bdata (bufs s ! bp))) (\<lambda>d.
     if get16 (doff n) d = 0 then
       kseq (kmod (bmod bp (\<lambda>c. c\<lparr>bdata := put16 (doff n) (of_int ty)
               (take (doff n) (bdata c) @ replicate 64 0 @ drop (doff n + 64) (bdata c))\<rparr>))) (
       kseq (log_write bp) (
       kseq (brelse bp)
         (iget dev n)))
     else kseq (brelse bp) (ialloc_loop dev ty ns))))"

definition ialloc :: "nat \<Rightarrow> int \<Rightarrow> ('z fsst_scheme, nat) kop" where
  "ialloc dev ty = kbind (kget sb) (\<lambda>sb. ialloc_loop dev ty [1..<sb_ninodes sb])"

definition iupdate :: "nat \<Rightarrow> ('z fsst_scheme, unit) kop" where
  "iupdate i =
     kbind (kget sb) (\<lambda>sb.
     kbind (kget (\<lambda>s. inodes s ! i)) (\<lambda>ip.
     kbind (bread (idev ip) (IBLOCK (inum ip) sb)) (\<lambda>bp.
     kseq (kmod (bmod bp (\<lambda>c. c\<lparr>bdata := put_dinode (doff (inum ip)) ip (bdata c)\<rparr>))) (
     kseq (log_write bp)
       (brelse bp)))))"

definition idup :: "nat \<Rightarrow> ('z fsst_scheme, nat) kop" where
  "idup i =
     kseq (acquire LIcache) (
     kseq (kmod (imod i (\<lambda>ip. ip\<lparr>iref := iref ip + 1\<rparr>))) (
     kseq (release LIcache)
       (kret i)))"

definition ilock :: "nat option \<Rightarrow> ('z fsst_scheme, unit) kop" where
  "ilock p =
     (case p of None \<Rightarrow> kpanic ''ilock'' | Some i \<Rightarrow>
     kbind (kget (\<lambda>s. iref (inodes s ! i))) (\<lambda>r.
     if r < 1 then kpanic ''ilock'' else
     kseq (acquiresleep (SInode i)) (
     kbind (kget (\<lambda>s. inodes s ! i)) (\<lambda>ip.
     kwhen (\<not> ivalid ip) (
       kbind (kget sb) (\<lambda>sb.
       kbind (bread (idev ip) (IBLOCK (inum ip) sb)) (\<lambda>bp.
       kbind (kget (\<lambda>s. bdata (bufs s ! bp))) (\<lambda>d.
       kseq (kmod (imod i (get_dinode d (doff (inum ip))))) (
       kseq (brelse bp) (
       kseq (kmod (imod i (\<lambda>ip. ip\<lparr>ivalid := True\<rparr>))) (
       kbind (kget (\<lambda>s. itype (inodes s ! i))) (\<lambda>ty.
       kwhen (ty = 0) (kpanic ''ilock: no type'')))))))))))))"

definition iunlock :: "nat option \<Rightarrow> ('z fsst_scheme, unit) kop" where
  "iunlock p =
     (case p of None \<Rightarrow> kpanic ''iunlock'' | Some i \<Rightarrow>
     kbind (holdingsleep (SInode i)) (\<lambda>h.
     kbind (kget (\<lambda>s. iref (inodes s ! i))) (\<lambda>r.
     if \<not> h \<or> r < 1 then kpanic ''iunlock''
     else releasesleep (SInode i))))"

section \<open>The blocks of a file\<close>

text \<open>
  \<open>baddr\<close> reads entry \<open>i\<close> of an indirect block and allocates a block for it if it is zero, \<open>iaddr\<close> does the
  same for an entry of \<open>ip->addrs\<close>.
\<close>

definition iaddr :: "nat \<Rightarrow> nat \<Rightarrow> ('z fsst_scheme, nat) kop" where
  "iaddr ip k =
     kbind (kget (\<lambda>s. addrs (inodes s ! ip) ! k)) (\<lambda>a.
     if a = 0 then
       kbind (kget (\<lambda>s. idev (inodes s ! ip))) (\<lambda>dev.
       kbind (balloc dev) (\<lambda>a.
       kseq (kmod (imod ip (\<lambda>p. p\<lparr>addrs := (addrs p)[k := a]\<rparr>)))
         (kret a)))
     else kret a)"

definition baddr :: "nat \<Rightarrow> nat \<Rightarrow> nat \<Rightarrow> ('z fsst_scheme, nat) kop" where
  "baddr dev bp k =
     kbind (kget (\<lambda>s. unat (get32 (4 * k) (bdata (bufs s ! bp))))) (\<lambda>a.
     if a = 0 then
       kbind (balloc dev) (\<lambda>a.
       kseq (kmod (bmod bp (\<lambda>b. b\<lparr>bdata := put32 (4 * k) (of_nat a) (bdata b)\<rparr>))) (
       kseq (log_write bp)
         (kret a)))
     else kret a)"

definition bmap :: "nat \<Rightarrow> nat \<Rightarrow> ('z fsst_scheme, nat) kop" where
  "bmap ip bn0 =
     kbind (kget (\<lambda>s. idev (inodes s ! ip))) (\<lambda>dev.
     if bn0 < NDIRECT then iaddr ip bn0
     else
       let bn1 = bn0 - NDIRECT
       in if bn1 < NINDIRECT then
            kbind (iaddr ip NDIRECT) (\<lambda>a.
            kbind (bread dev a) (\<lambda>bp.
            kbind (baddr dev bp bn1) (\<lambda>a.
            kseq (brelse bp)
              (kret a))))
          else
            let bn2 = bn1 - NINDIRECT
            in if bn2 < NDINDIRECT then
                 kbind (iaddr ip (NDIRECT + 1)) (\<lambda>a.
                 kbind (bread dev a) (\<lambda>bp.
                 kbind (baddr dev bp (bn2 div NINDIRECT)) (\<lambda>a.
                 kbind (bread dev a) (\<lambda>bp2.
                 kbind (baddr dev bp2 (bn2 mod NINDIRECT)) (\<lambda>a.
                 kseq (brelse bp2) (
                 kseq (brelse bp)
                   (kret a)))))))
               else
                 let bn3 = bn2 - NDINDIRECT
                 in if bn3 < NTINDIRECT then
                      kbind (iaddr ip (NDIRECT + 2)) (\<lambda>a.
                      kbind (bread dev a) (\<lambda>bp.
                      kbind (baddr dev bp (bn3 div NDINDIRECT)) (\<lambda>a.
                      kbind (bread dev a) (\<lambda>bp2.
                      kbind (baddr dev bp2 ((bn3 mod NDINDIRECT) div NINDIRECT)) (\<lambda>a.
                      kbind (bread dev a) (\<lambda>bp3.
                      kbind (baddr dev bp3 ((bn3 mod NDINDIRECT) mod NINDIRECT)) (\<lambda>a.
                      kseq (brelse bp3) (
                      kseq (brelse bp2) (
                      kseq (brelse bp)
                        (kret a))))))))))
                    else kpanic ''bmap: out of range'')"

text \<open>
  \<open>itrunc\<close> frees a tree of blocks three times, with one, two and three levels of indirect blocks.
  \<open>itrunc_free d a\<close> frees what an indirect block \<open>a\<close> with \<open>d\<close> levels refers to. The entries it clears are
  not logged.
\<close>

primrec itrunc_free :: "nat \<Rightarrow> nat \<Rightarrow> nat \<Rightarrow> ('z fsst_scheme, unit) kop" where
  "itrunc_free 0 dev a = kret ()"
| "itrunc_free (Suc d) dev a =
     kbind (bread dev a) (\<lambda>bp.
     kseq (kfor (\<lambda>j.
       kbind (kget (\<lambda>s. unat (get32 (4 * j) (bdata (bufs s ! bp))))) (\<lambda>b.
       kwhen (b \<noteq> 0) (
         kseq (itrunc_free d dev b) (
         kseq (bfree dev b)
           (kmod (bmod bp (\<lambda>c. c\<lparr>bdata := put32 (4 * j) 0 (bdata c)\<rparr>))))))) [0..<NINDIRECT])
       (brelse bp))"

definition itrunc_slot :: "nat \<Rightarrow> nat \<Rightarrow> nat \<Rightarrow> ('z fsst_scheme, unit) kop" where
  "itrunc_slot d ip k =
     kbind (kget (\<lambda>s. addrs (inodes s ! ip) ! k)) (\<lambda>a.
     kbind (kget (\<lambda>s. idev (inodes s ! ip))) (\<lambda>dev.
     kwhen (a \<noteq> 0) (
       kseq (itrunc_free d dev a) (
       kseq (bfree dev a)
         (kmod (imod ip (\<lambda>p. p\<lparr>addrs := (addrs p)[k := 0]\<rparr>)))))))"

definition itrunc :: "nat \<Rightarrow> ('z fsst_scheme, unit) kop" where
  "itrunc ip =
     kseq (kfor (itrunc_slot 0 ip) [0..<NDIRECT]) (
     kseq (itrunc_slot 1 ip NDIRECT) (
     kseq (itrunc_slot 2 ip (NDIRECT + 1)) (
     kseq (itrunc_slot 3 ip (NDIRECT + 2)) (
     kseq (kmod (imod ip (\<lambda>p. p\<lparr>isize := 0\<rparr>)))
       (iupdate ip)))))"

definition iput :: "nat \<Rightarrow> ('z fsst_scheme, unit) kop" where
  "iput i =
     kseq (acquiresleep (SInode i)) (
     kbind (kget (\<lambda>s. inodes s ! i)) (\<lambda>ip.
     kseq (kwhen (ivalid ip \<and> nlink ip = 0) (
       kseq (acquire LIcache) (
       kbind (kget (\<lambda>s. iref (inodes s ! i))) (\<lambda>r.
       kseq (release LIcache) (
       kwhen (r = 1) (
         kseq (itrunc i) (
         kseq (kmod (imod i (\<lambda>ip. ip\<lparr>itype := 0\<rparr>))) (
         kseq (iupdate i)
           (kmod (imod i (\<lambda>ip. ip\<lparr>ivalid := False\<rparr>))))))))))) (
     kseq (releasesleep (SInode i)) (
     kseq (acquire LIcache) (
     kseq (kmod (imod i (\<lambda>ip. ip\<lparr>iref := iref ip - 1\<rparr>)))
       (release LIcache))))))"

definition iunlockput :: "nat \<Rightarrow> ('z fsst_scheme, unit) kop" where
  "iunlockput i = kseq (iunlock (Some i)) (iput i)"

section \<open>Reading and writing\<close>

definition stati :: "nat \<Rightarrow> 'z fsst_scheme \<Rightarrow> stat" where
  "stati i s = (let ip = inodes s ! i in
     \<lparr>st_type = itype ip, st_dev = idev ip, st_ino = inum ip, st_nlink = nlink ip, st_size = isize ip\<rparr>)"

record 's devsw =
  dread :: "nat \<Rightarrow> nat \<Rightarrow> ('s, int \<times> byte list) kop"
  dwrite :: "nat \<Rightarrow> byte list \<Rightarrow> nat \<Rightarrow> ('s, int) kop"

text \<open>
  The loops of \<open>readi\<close> and \<open>writei\<close>; \<open>n\<close> is what is left to do (\<open>n - tot\<close> in the code). A round does at
  least one byte, because \<open>off % BSIZE < BSIZE\<close>.
\<close>

lemma block_rest: "off mod BSIZE < BSIZE"
  by (simp add: BSIZE_def)

function readi_loop :: "nat \<Rightarrow> nat \<Rightarrow> nat \<Rightarrow> ('z fsst_scheme, byte list) kop" where
  "readi_loop ip off n =
     (if n = 0 then kret []
      else
        kbind (kget (\<lambda>s. idev (inodes s ! ip))) (\<lambda>dev.
        kbind (bmap ip (off div BSIZE)) (\<lambda>a.
        kbind (bread dev a) (\<lambda>bp.
        kbind (kget (\<lambda>s. take (min n (BSIZE - off mod BSIZE)) (drop (off mod BSIZE) (bdata (bufs s ! bp))))) (\<lambda>x.
        kseq (brelse bp) (
        kbind (readi_loop ip (off + min n (BSIZE - off mod BSIZE)) (n - min n (BSIZE - off mod BSIZE))) (\<lambda>xs.
        kret (x @ xs))))))))"
  by pat_completeness auto
termination
  by (relation "measure (\<lambda>(ip, off, n). n)") (auto simp: BSIZE_def)

definition readi :: "(int \<Rightarrow> 'z fsst_scheme devsw option) \<Rightarrow> nat \<Rightarrow> nat \<Rightarrow> nat \<Rightarrow> ('z fsst_scheme, int \<times> byte list) kop" where
  "readi dv i off n =
     kbind (kget (\<lambda>s. inodes s ! i)) (\<lambda>ip.
     if itype ip = T_DEV then
       (if major ip < 0 \<or> major ip \<ge> NDEV then kret (- 1, [])
        else case dv (major ip) of None \<Rightarrow> kret (- 1, []) | Some d \<Rightarrow> dread d i n)
     else if off > isize ip \<or> (off + n) mod 2 ^ 32 < off then kret (- 1, [])
     else
       let n' = (if off + n > isize ip then isize ip - off else n)
       in kbind (readi_loop i off n') (\<lambda>xs.
          kret (int n', xs)))"

definition splice :: "nat \<Rightarrow> byte list \<Rightarrow> byte list \<Rightarrow> byte list" where
  "splice off xs d = take off d @ xs @ drop (off + length xs) d"

function writei_loop :: "nat \<Rightarrow> nat \<Rightarrow> byte list \<Rightarrow> ('z fsst_scheme, unit) kop" where
  "writei_loop ip off src =
     (if src = [] then kret ()
      else
        kbind (kget (\<lambda>s. idev (inodes s ! ip))) (\<lambda>dev.
        kbind (bmap ip (off div BSIZE)) (\<lambda>a.
        kbind (bread dev a) (\<lambda>bp.
        kseq (kmod (bmod bp (\<lambda>c. c\<lparr>bdata := splice (off mod BSIZE) (take (BSIZE - off mod BSIZE) src) (bdata c)\<rparr>))) (
        kseq (log_write bp) (
        kseq (brelse bp)
          (writei_loop ip (off + min (length src) (BSIZE - off mod BSIZE)) (drop (BSIZE - off mod BSIZE) src))))))))"
  by pat_completeness auto
termination
  by (relation "measure (\<lambda>(ip, off, src). length src)") (auto intro!: diff_less simp: block_rest)

declare readi_loop.simps [simp del] writei_loop.simps [simp del]

definition writei :: "(int \<Rightarrow> 'z fsst_scheme devsw option) \<Rightarrow> nat \<Rightarrow> byte list \<Rightarrow> nat \<Rightarrow> nat \<Rightarrow> ('z fsst_scheme, int) kop" where
  "writei dv i src off n =
     kbind (kget (\<lambda>s. inodes s ! i)) (\<lambda>ip.
     if itype ip = T_DEV then
       (if major ip < 0 \<or> major ip \<ge> NDEV then kret (- 1)
        else case dv (major ip) of None \<Rightarrow> kret (- 1) | Some d \<Rightarrow> dwrite d i src n)
     else if off > isize ip \<or> (off + n) mod 2 ^ 32 < off then kret (- 1)
     else if off + n > MAXFILE * BSIZE then kret (- 1)
     else
       kseq (writei_loop i off (take n src)) (
       kseq (kwhen (n > 0 \<and> off + n > isize ip) (
         kseq (kmod (imod i (\<lambda>p. p\<lparr>isize := off + n\<rparr>)))
           (iupdate i)))
         (kret (int n))))"

section \<open>Directories\<close>

text \<open>
  A directory entry is 16 bytes: the inode number and the name. \<open>namecmp\<close> is \<open>strncmp(s, t, DIRSIZ)\<close> on
  name buffers; a byte past the end of a string is never read, because both loops stop at the first
  null byte or after \<open>DIRSIZ\<close> bytes.
\<close>

definition cstr_of :: "byte list \<Rightarrow> cstr" where
  "cstr_of xs i = (if i < length xs then xs ! i else 0)"

definition namecmp :: "byte list \<Rightarrow> byte list \<Rightarrow> int" where
  "namecmp s t = strncmp (cstr_of s) (cstr_of t) DIRSIZ"

definition de_inum :: "byte list \<Rightarrow> nat" where
  "de_inum de = unat (get16 0 de)"

definition de_name :: "byte list \<Rightarrow> byte list" where
  "de_name de = drop 2 (take 16 de)"

definition dirent_offs :: "nat \<Rightarrow> nat list" where
  "dirent_offs n = map (\<lambda>k. 16 * k) [0..<(n + 15) div 16]"

primrec dirlookup_loop :: "(int \<Rightarrow> 'z fsst_scheme devsw option) \<Rightarrow> nat \<Rightarrow> byte list \<Rightarrow> nat list \<Rightarrow> ('z fsst_scheme, (nat \<times> nat) option) kop" where
  "dirlookup_loop dv dp nm [] = kret None"
| "dirlookup_loop dv dp nm (off # offs) =
     kbind (readi dv dp off 16) (\<lambda>(r, de).
     if r \<noteq> 16 then kpanic ''dirlookup read''
     else if de_inum de = 0 then dirlookup_loop dv dp nm offs
     else if namecmp nm (de_name de) = 0 then
       kbind (kget (\<lambda>s. idev (inodes s ! dp))) (\<lambda>dev.
       kbind (iget dev (de_inum de)) (\<lambda>ip.
       kret (Some (ip, off))))
     else dirlookup_loop dv dp nm offs)"

definition dirlookup :: "(int \<Rightarrow> 'z fsst_scheme devsw option) \<Rightarrow> nat \<Rightarrow> byte list \<Rightarrow> ('z fsst_scheme, (nat \<times> nat) option) kop" where
  "dirlookup dv dp nm =
     kbind (kget (\<lambda>s. inodes s ! dp)) (\<lambda>ip.
     if itype ip \<noteq> T_DIR then kpanic ''dirlookup not DIR''
     else dirlookup_loop dv dp nm (dirent_offs (isize ip)))"

text \<open>\<open>strncpy(de.name, name, DIRSIZ)\<close>: the name up to its null byte, padded with null bytes.\<close>

definition de_pack :: "byte list \<Rightarrow> nat \<Rightarrow> byte list" where
  "de_pack nm n = (let w = of_nat n :: 16 word; cs = take DIRSIZ (takeWhile (\<lambda>c. c \<noteq> 0) nm)
     in [ucast w, ucast (drop_bit 8 w)] @ cs @ replicate (DIRSIZ - length cs) 0)"

primrec dirlink_slot :: "(int \<Rightarrow> 'z fsst_scheme devsw option) \<Rightarrow> nat \<Rightarrow> nat \<Rightarrow> nat list \<Rightarrow> ('z fsst_scheme, nat) kop" where
  "dirlink_slot dv dp end [] = kret end"
| "dirlink_slot dv dp end (off # offs) =
     kbind (readi dv dp off 16) (\<lambda>(r, de).
     if r \<noteq> 16 then kpanic ''dirlink read''
     else if de_inum de = 0 then kret off
     else dirlink_slot dv dp end offs)"

definition dirlink :: "(int \<Rightarrow> 'z fsst_scheme devsw option) \<Rightarrow> nat \<Rightarrow> byte list \<Rightarrow> nat \<Rightarrow> ('z fsst_scheme, int) kop" where
  "dirlink dv dp nm n =
     kbind (dirlookup dv dp nm) (\<lambda>r.
     case r of
       Some (ip, _) \<Rightarrow> kseq (iput ip) (kret (- 1))
     | None \<Rightarrow>
         kbind (kget (\<lambda>s. isize (inodes s ! dp))) (\<lambda>z.
         kbind (dirlink_slot dv dp (16 * ((z + 15) div 16)) (dirent_offs z)) (\<lambda>off.
         kbind (writei dv dp (de_pack nm n) off 16) (\<lambda>r.
         if r \<noteq> 16 then kpanic ''dirlink''
         else kret 0))))"

section \<open>Paths\<close>

text \<open>
  A path is the list of its bytes without the terminating null byte. \<open>name\<close> is the caller's buffer of
  \<open>DIRSIZ\<close> bytes, of which only the copied part changes.
\<close>

definition slash :: byte where "slash = 47"

definition skipelem :: "byte list \<Rightarrow> byte list \<Rightarrow> (byte list \<times> byte list) option" where
  "skipelem path nm =
     (let path1 = dropWhile (\<lambda>c. c = slash) path
      in if path1 = [] then None
         else
           let s = takeWhile (\<lambda>c. c \<noteq> slash) path1; path2 = dropWhile (\<lambda>c. c \<noteq> slash) path1;
               nm' = (if length s \<ge> DIRSIZ then take DIRSIZ s @ drop DIRSIZ nm
                      else s @ [0] @ drop (length s + 1) nm)
           in Some (dropWhile (\<lambda>c. c = slash) path2, nm'))"

lemma length_dropWhile_less: "xs \<noteq> [] \<Longrightarrow> P (hd xs) \<Longrightarrow> length (dropWhile P xs) < length xs"
  by (cases xs) (simp_all add: le_imp_less_Suc length_dropWhile_le)

lemma skipelem_shorter:
  assumes "skipelem path nm = Some (path', nm')"
  shows "length path' < length path"
proof -
  define p1 where "p1 = dropWhile (\<lambda>c. c = slash) path"
  have p: "p1 \<noteq> []" "path' = dropWhile (\<lambda>c. c = slash) (dropWhile (\<lambda>c. c \<noteq> slash) p1)"
    using assms by (auto simp: skipelem_def Let_def p1_def split: if_splits)
  have "length path' \<le> length (dropWhile (\<lambda>c. c \<noteq> slash) p1)" using p(2) by (simp add: length_dropWhile_le)
  also have "\<dots> < length p1" using p(1) hd_dropWhile [of "\<lambda>c. c = slash" path] by (intro length_dropWhile_less) (simp_all add: p1_def)
  also have "\<dots> \<le> length path" by (simp add: p1_def length_dropWhile_le)
  finally show ?thesis .
qed

function namex_loop :: "(int \<Rightarrow> 'z fsst_scheme devsw option) \<Rightarrow> nat \<Rightarrow> byte list \<Rightarrow> bool \<Rightarrow> byte list \<Rightarrow> ('z fsst_scheme, nat option \<times> byte list) kop" where
  "namex_loop dv ip path nip nm =
     (case skipelem path nm of
        None \<Rightarrow> if nip then kseq (iput ip) (kret (None, nm)) else kret (Some ip, nm)
      | Some (path', nm') \<Rightarrow>
          kseq (ilock (Some ip)) (
          kbind (kget (\<lambda>s. itype (inodes s ! ip))) (\<lambda>ty.
          if ty \<noteq> T_DIR then kseq (iunlockput ip) (kret (None, nm'))
          else if nip \<and> path' = [] then kseq (iunlock (Some ip)) (kret (Some ip, nm'))
          else
            kbind (dirlookup dv ip nm') (\<lambda>r.
            case r of
              None \<Rightarrow> kseq (iunlockput ip) (kret (None, nm'))
            | Some (next, _) \<Rightarrow> kseq (iunlockput ip) (namex_loop dv next path' nip nm')))))"
  by pat_completeness auto
termination
  by (relation "measure (\<lambda>(dv, ip, path, nip, nm). length path)") (auto simp: skipelem_shorter)

declare namex_loop.simps [simp del]

definition namex :: "(int \<Rightarrow> 'z fsst_scheme devsw option) \<Rightarrow> byte list \<Rightarrow> bool \<Rightarrow> byte list \<Rightarrow> ('z fsst_scheme, nat option \<times> byte list) kop" where
  "namex dv path nip nm =
     kbind (if path \<noteq> [] \<and> hd path = slash then iget ROOTDEV ROOTINO
            else kbind curproc (\<lambda>p. kbind (kget (\<lambda>s. cwd (procs s ! p))) (\<lambda>c. kbind (kderef c) idup))) (\<lambda>ip.
     namex_loop dv ip path nip nm)"

definition namei :: "(int \<Rightarrow> 'z fsst_scheme devsw option) \<Rightarrow> byte list \<Rightarrow> ('z fsst_scheme, nat option) kop" where
  "namei dv path = kbind (namex dv path False (replicate DIRSIZ 0)) (\<lambda>r. kret (fst r))"

definition nameiparent :: "(int \<Rightarrow> 'z fsst_scheme devsw option) \<Rightarrow> byte list \<Rightarrow> byte list \<Rightarrow> ('z fsst_scheme, nat option \<times> byte list) kop" where
  "nameiparent dv path nm = namex dv path True nm"

section \<open>Path names\<close>

text \<open>The names in a path, by splitting it at the slashes; names longer than \<open>DIRSIZ\<close> are cut.\<close>

fun split_on :: "'a \<Rightarrow> 'a list \<Rightarrow> 'a list list" where
  "split_on x [] = [[]]"
| "split_on x (c # cs) = (if c = x then [] # split_on x cs else (c # hd (split_on x cs)) # tl (split_on x cs))"

definition path_names :: "byte list \<Rightarrow> byte list list" where
  "path_names path = map (take DIRSIZ) (filter (\<lambda>c. c \<noteq> []) (split_on slash path))"

text \<open>What a name buffer holds, and the names that repeated calls of \<open>skipelem\<close> deliver.\<close>

definition buf_name :: "byte list \<Rightarrow> byte list" where
  "buf_name nm = takeWhile (\<lambda>c. c \<noteq> 0) (take DIRSIZ nm)"

function walk_names :: "byte list \<Rightarrow> byte list \<Rightarrow> byte list list" where
  "walk_names path nm = (case skipelem path nm of None \<Rightarrow> [] | Some (path', nm') \<Rightarrow> buf_name nm' # walk_names path' nm')"
  by pat_completeness auto
termination
  by (relation "measure (\<lambda>(path, nm). length path)") (auto simp: skipelem_shorter)

declare walk_names.simps [simp del]

lemma split_on_nonempty: "split_on x cs \<noteq> []"
  by (cases cs) simp_all

lemma split_on_takeWhile:
  "split_on x cs = takeWhile (\<lambda>c. c \<noteq> x) cs # (case dropWhile (\<lambda>c. c \<noteq> x) cs of [] \<Rightarrow> [] | _ # r \<Rightarrow> split_on x r)"
  by (induction cs) (simp_all add: split_on_nonempty)

lemma names_dropWhile: "filter (\<lambda>c. c \<noteq> []) (split_on x (dropWhile (\<lambda>c. c = x) cs)) = filter (\<lambda>c. c \<noteq> []) (split_on x cs)"
  by (induction cs) simp_all

lemma path_names_skip:
  assumes "skipelem path nm = Some (path', nm')" and "0 \<notin> set path" and "length nm = DIRSIZ"
  shows "path_names path = buf_name nm' # path_names path'" and "0 \<notin> set path'" and "length nm' = DIRSIZ"
proof -
  define p1 where "p1 = dropWhile (\<lambda>c. c = slash) path"
  define e where "e = takeWhile (\<lambda>c. c \<noteq> slash) p1"
  define p2 where "p2 = dropWhile (\<lambda>c. c \<noteq> slash) p1"
  have p1: "p1 \<noteq> []" "path' = dropWhile (\<lambda>c. c = slash) p2"
    and nm: "nm' = (if length e \<ge> DIRSIZ then take DIRSIZ e @ drop DIRSIZ nm else e @ [0] @ drop (length e + 1) nm)"
    using assms(1) by (auto simp: skipelem_def Let_def p1_def p2_def e_def split: if_splits)
  have "hd p1 \<noteq> slash" using p1(1) hd_dropWhile [of "\<lambda>c. c = slash" path] by (simp add: p1_def)
  then have e: "e \<noteq> []" using p1(1) by (cases p1) (simp_all add: e_def)
  have sub: "set e \<subseteq> set path" "set path' \<subseteq> set path"
    using set_takeWhileD set_dropWhileD unfolding p1(2) p2_def e_def p1_def by (fastforce, metis set_dropWhileD subsetI)
  then show "0 \<notin> set path'" using assms(2) by blast
  show l: "length nm' = DIRSIZ" using assms(3) by (auto simp: nm)
  have "takeWhile (\<lambda>c. c \<noteq> 0) e = e" using sub(1) assms(2) by (auto simp: takeWhile_eq_all_conv)
  then have b: "buf_name nm' = take DIRSIZ e"
    using sub(1) assms(2,3) by (auto simp: buf_name_def nm takeWhile_eq_all_conv takeWhile_append dest: in_set_takeD)
  have "filter (\<lambda>c. c \<noteq> []) (split_on slash path) = filter (\<lambda>c. c \<noteq> []) (split_on slash p1)"
    by (simp only: p1_def names_dropWhile)
  also have "\<dots> = e # filter (\<lambda>c. c \<noteq> []) (case p2 of [] \<Rightarrow> [] | _ # r \<Rightarrow> split_on slash r)"
    using e by (subst split_on_takeWhile) (simp add: e_def [symmetric] p2_def [symmetric])
  also have "filter (\<lambda>c. c \<noteq> []) (case p2 of [] \<Rightarrow> [] | _ # r \<Rightarrow> split_on slash r) = filter (\<lambda>c. c \<noteq> []) (split_on slash path')"
  proof (cases p2)
    case Nil
    then show ?thesis by (simp add: p1(2))
  next
    case (Cons c r)
    then have "c = slash" using hd_dropWhile [of "\<lambda>c. c \<noteq> slash" p1] by (simp add: p2_def)
    then show ?thesis unfolding p1(2) names_dropWhile using Cons by simp
  qed
  finally show "path_names path = buf_name nm' # path_names path'" by (simp add: path_names_def b)
qed

lemma path_names_end: "skipelem path nm = None \<Longrightarrow> path_names path = []"
proof -
  assume "skipelem path nm = None"
  then have "dropWhile (\<lambda>c. c = slash) path = []" by (auto simp: skipelem_def Let_def split: if_splits simp del: dropWhile_eq_Nil_conv)
  with names_dropWhile [of slash path] show ?thesis by (simp add: path_names_def del: dropWhile_eq_Nil_conv)
qed

text \<open>C28: Path names are taken apart correctly. Calling \<open>skipelem\<close> until it returns 0 delivers exactly the names that
  splitting the path at its slashes gives, in order: empty names between adjacent, leading or
  trailing slashes are skipped, and names of \<open>DIRSIZ\<close> and more characters are cut to \<open>DIRSIZ\<close>. The
  leftovers of earlier names in the caller's buffer do not matter.\<close>

theorem skipelem_splits_path:
  assumes "0 \<notin> set path" and "length nm = DIRSIZ"
  shows "walk_names path nm = path_names path"
  using assms
proof (induction path nm rule: walk_names.induct)
  case (1 path nm)
  show ?case
  proof (cases "skipelem path nm")
    case None
    then show ?thesis by (simp add: walk_names.simps [of path] path_names_end)
  next
    case (Some r)
    then obtain path' nm' where r: "skipelem path nm = Some (path', nm')" by (cases r) auto
    note s = path_names_skip [OF r "1.prems"]
    show ?thesis using "1.IH" [OF r refl s(2,3)] s(1) r by (simp add: walk_names.simps [of path])
  qed
qed

theorem skipelem_splits_path_witness:
  "walk_names [slash, slash, 97, slash, 98, 98, slash, slash, 99] (replicate DIRSIZ 0) = [[97], [98, 98], [99]]"
  using skipelem_splits_path [of "[slash, slash, 97, slash, 98, 98, slash, slash, 99]" "replicate DIRSIZ 0"]
  by (simp add: slash_def path_names_def DIRSIZ_def)

end
