(* ===== verification/Freemap.thy ===== *)
theory Freemap
  imports Fs
begin

text \<open>
  The block allocator of \<^verbatim>\<open>fs.c\<close>: \<open>balloc\<close>, \<open>bfree\<close> and \<open>readsb\<close> return inside a transaction, and what they do to the
  free map. At the end, a small file system on which the theorems are applied.
\<close>

unbundle bit_operations_syntax

section \<open>The free map\<close>

definition block_used :: "superblock \<Rightarrow> (nat \<Rightarrow> byte list) \<Rightarrow> nat \<Rightarrow> bool" where
  "block_used b v n = bit_used (v (BBLOCK n b)) (n mod BPB)"

lemma bit_used_bit: "bit_used d bi = bit (d ! (bi div 8)) (bi mod 8)"
  by (simp add: bit_used_def bit_iff_and_push_bit_not_eq_0)

lemma bit_used_set:
  assumes "bi < 8 * length d"
  shows "bit_used (set_used bi d) bj = (bi = bj \<or> bit_used d bj)"
proof -
  have "bi div 8 < length d" using assms by (simp add: less_mult_imp_div_less mult.commute)
  moreover have "bi = bj \<longleftrightarrow> bi div 8 = bj div 8 \<and> bi mod 8 = bj mod 8" by (metis div_mult_mod_eq)
  ultimately show ?thesis
    by (cases "bj div 8 = bi div 8") (auto simp: bit_used_bit set_used_def bit_simps nth_list_update)
qed

lemma clear_set_used: "\<not> bit_used d bi \<Longrightarrow> bi < 8 * length d \<Longrightarrow> clear_used bi (set_used bi d) = d"
proof -
  assume a: "\<not> bit_used d bi" "bi < 8 * length d"
  have "bi div 8 < length d" using a(2) by (simp add: less_mult_imp_div_less mult.commute)
  moreover have "(d ! (bi div 8) OR push_bit (bi mod 8) 1) AND NOT (push_bit (bi mod 8) 1) = d ! (bi div 8)"
    by (rule bit_word_eqI) (use a(1) in \<open>auto simp: bit_used_bit bit_simps\<close>)
  ultimately show ?thesis by (simp add: clear_used_def set_used_def)
qed

lemma length_used [simp]: "length (set_used bi d) = length d" "length (clear_used bi d) = length d"
  by (simp_all add: set_used_def clear_used_def)

lemma tframe_fs: "tframe H s t \<Longrightarrow> sb t = sb s \<and> inodes t = inodes s"
  by (cases s; cases t; simp add: tframe_def)

text \<open>
  \<open>fs_geom s\<close>: the file system fits on the disk. \<open>apart H s\<close>: no held buffer is a block of the free map or a free
  block, so that the allocator does not wait for a buffer its caller holds.
\<close>

definition fs_geom :: "'z fsst_scheme \<Rightarrow> bool" where
  "fs_geom s \<longleftrightarrow> sb_size (sb s) \<le> disksize s \<and> (\<forall>b < sb_size (sb s). BBLOCK b (sb s) < disksize s)"

definition apart :: "nat set \<Rightarrow> 'z fsst_scheme \<Rightarrow> bool" where
  "apart H s \<longleftrightarrow> (\<forall>i \<in> H. \<forall>b < sb_size (sb s). blockno (bufs s ! i) \<noteq> BBLOCK b (sb s) \<and>
     (block_used (sb s) (view s) b \<or> blockno (bufs s ! i) \<noteq> b))"

lemma fs_geom_frame: "fs_geom s \<Longrightarrow> tframe H s t \<Longrightarrow> fs_geom t"
  using tframe_fs [of H s t] by (simp add: fs_geom_def tframe_def)

lemma apart_frame: "apart H s \<Longrightarrow> tframe H s t \<Longrightarrow> view t = view s \<Longrightarrow> apart H t"
  using tframe_fs [of H s t] by (simp add: apart_def tframe_def)

lemma bzero_total:
  assumes "txn (Suc k) (Suc m) H s" and "card H \<le> k" and "n < disksize s" and "\<And>i. i \<in> H \<Longrightarrow> blockno (bufs s ! i) \<noteq> n"
  shows "\<exists>t. bzero 1 n s = Ret () t \<and> txn k m H t \<and> view t = (view s)(n := replicate BSIZE 0) \<and> tframe H s t"
  unfolding bzero_def using modify_block [OF assms(1) _ assms(3,4), of "\<lambda>_. replicate BSIZE 0"] assms(2) by simp

lemma group_block:
  assumes "b mod BPB = 0" and "bi < BPB"
  shows "BBLOCK (b + bi) sb' = BBLOCK b sb'" and "(b + bi) mod BPB = bi"
proof -
  obtain q where "b = BPB * q" using assms(1) by (metis mod_0_imp_dvd dvdE)
  then show "BBLOCK (b + bi) sb' = BBLOCK b sb'" "(b + bi) mod BPB = bi"
    using assms(2) by (simp_all add: BBLOCK_def BPB_def)
qed

text \<open>A free block of the group that starts at \<open>b\<close> is allocated.\<close>

lemma balloc_take:
  assumes t: "txn (Suc (Suc k)) (Suc (Suc m)) (insert bp H) s" and bp: "bp \<notin> H" "blockno (bufs s ! bp) = BBLOCK b (sb s)" 
    and k: "card H \<le> k" and bi: "bi < BPB" "\<not> bit_used (view s (BBLOCK b (sb s))) bi" and b: "b mod BPB = 0" "b + bi < sb_size (sb s)"
    and g: "fs_geom s" and a: "apart H s"
  shows "\<exists>t. kseq (kmod (bmod bp (\<lambda>c. c\<lparr>bdata := set_used bi (bdata c)\<rparr>))) (kseq (log_write bp) (kseq (brelse bp) (kseq (bzero 1 (b + bi)) (kret (b + bi))))) s
      = Ret (b + bi) t \<and> txn k m H t \<and> tframe H s t \<and>
     view t = (view s)(BBLOCK b (sb s) := set_used bi (view s (BBLOCK b (sb s))), b + bi := replicate BSIZE 0)"
proof -
  have "length (set_used bi (bdata (bufs s ! bp))) = BSIZE"
    using held_view(1) [OF t insertI1] txn_length_view [OF t] by simp
  from txn_write [where f = "set_used bi", OF t insertI1 this] obtain u where u:
    "log_write bp (bmod bp (\<lambda>c. c\<lparr>bdata := set_used bi (bdata c)\<rparr>) s) = Ret () u" "txn (Suc k) (Suc m) (insert bp H) u" "synced u bp"
    "view u = (view s)(BBLOCK b (sb s) := set_used bi (view s (BBLOCK b (sb s))))" "tframe (insert bp H) s u" unfolding bp(2) by blast
  from txn_brelse [OF u(2) insertI1 u(3)] obtain v where v: "brelse bp u = Ret () v" "txn (Suc k) (Suc m) (insert bp H - {bp}) v"
    "view v = view u" "tframe (insert bp H) u v" by blast
  have H: "insert bp H - {bp} = H" using bp(1) by blast
  have sv: "tframe H s v" using tframe_mono [OF tframe_trans [OF u(5) v(4)], of H] by blast
  have un: "\<not> block_used (sb s) (view s) (b + bi)" using bi(2) by (simp add: block_used_def group_block [OF b(1) bi(1)])
  have "blockno (bufs v ! i) \<noteq> b + bi" if "i \<in> H" for i
    using a un b(2) that sv by (auto simp: apart_def tframe_def)
  moreover have "b + bi < disksize v" using g b(2) sv by (auto simp: fs_geom_def tframe_def)
  ultimately obtain w where w: "bzero 1 (b + bi) v = Ret () w" "txn k m H w" "view w = (view v)(b + bi := replicate BSIZE 0)" "tframe H v w"
    using bzero_total [OF v(2) [unfolded H] k, of "b + bi"] by blast
  have "tframe H s w" using sv w(4) by (rule tframe_trans)
  then show ?thesis using u(1,4) v(1,3) w by (simp add: kseq_Ret [of "log_write bp"] kseq_Ret [of "brelse bp"] kseq_Ret [of "bzero d n" for d n] del: One_nat_def)
qed

lemma find_free:
  "(case find P xs of Some x \<Rightarrow> f x | None \<Rightarrow> g) = (if \<exists>x \<in> set xs. P x then f (the (find P xs)) else g)"
  "(\<exists>x \<in> set xs. P x) \<Longrightarrow> the (find P xs) \<in> set xs \<and> P (the (find P xs))"
  by (induction xs) auto

text \<open>\<open>balloc_post s b t\<close>: \<open>b\<close> was free, is marked as used, and is filled with zeros; nothing else changed.\<close>

definition balloc_view :: "superblock \<Rightarrow> nat \<Rightarrow> (nat \<Rightarrow> byte list) \<Rightarrow> nat \<Rightarrow> byte list" where
  "balloc_view sb' n v = v(BBLOCK n sb' := set_used (n mod BPB) (v (BBLOCK n sb')), n := replicate BSIZE 0)"

lemma balloc_loop_total:
  assumes "txn (Suc (Suc k)) (Suc (Suc m)) H s" and "card H \<le> k" and "fs_geom s" and "apart H s"
    and "\<forall>b \<in> set bs. b mod BPB = 0 \<and> b < sb_size (sb s)"
    and "\<exists>b \<in> set bs. \<exists>bi < min BPB (sb_size (sb s) - b). \<not> bit_used (view s (BBLOCK b (sb s))) bi"
  shows "\<exists>n t. balloc_loop 1 bs s = Ret n t \<and> n < sb_size (sb s) \<and> \<not> block_used (sb s) (view s) n \<and>
    txn k m H t \<and> tframe H s t \<and> view t = balloc_view (sb s) n (view s)"
  using assms
proof (induction bs arbitrary: s)
  case Nil
  then show ?case by simp
next
  case (Cons b bs)
  let ?B = "BBLOCK b (sb s)" and ?bits = "[0..<min BPB (sb_size (sb s) - b)]"
  have b: "b mod BPB = 0" "b < sb_size (sb s)" using Cons.prems(5) by simp_all
  have "?B < disksize s" using Cons.prems(3) b(2) by (simp add: fs_geom_def)
  moreover have "blockno (bufs s ! i) \<noteq> ?B" if "i \<in> H" for i using Cons.prems(4) b(2) that by (auto simp: apart_def)
  moreover have "card H < Suc (Suc k)" using Cons.prems(2) by simp
  ultimately obtain bp u where u: "bread 1 ?B s = Ret bp u" "txn (Suc (Suc k)) (Suc (Suc m)) (insert bp H) u" "bp \<notin> H"
    "blockno (bufs u ! bp) = ?B" "synced u bp" "view u = view s" "tframe H s u"
    using txn_bread [OF Cons.prems(1)] by blast
  have sbu: "sb u = sb s" using tframe_fs [OF u(7)] by simp
  have d: "bdata (bufs u ! bp) = view s ?B" using held_view(1) [OF u(2), of bp] u(4,6) by simp
  show ?case
  proof (cases "\<exists>bi \<in> set ?bits. \<not> bit_used (view s ?B) bi")
    case True
    define bi where "bi = the (find (\<lambda>bi. \<not> bit_used (view s ?B) bi) ?bits)"
    have bi: "bi < BPB" "\<not> bit_used (view s ?B) bi" "b + bi < sb_size (sb s)"
      using find_free(2) [OF True] by (auto simp: bi_def)
    have "\<exists>t. kseq (kmod (bmod bp (\<lambda>c. c\<lparr>bdata := set_used bi (bdata c)\<rparr>))) (kseq (log_write bp) (kseq (brelse bp) (kseq (bzero 1 (b + bi)) (kret (b + bi))))) u
      = Ret (b + bi) t \<and> txn k m H t \<and> tframe H u t \<and>
      view t = (view u)(BBLOCK b (sb u) := set_used bi (view u (BBLOCK b (sb u))), b + bi := replicate BSIZE 0)"
      using bi b u(4) fs_geom_frame [OF Cons.prems(3) u(7)] apart_frame [OF Cons.prems(4) u(7,6)]
      by (intro balloc_take [OF u(2,3) _ Cons.prems(2)]) (simp_all add: sbu u(6))
    then obtain t where t: "balloc_loop 1 (b # bs) s = Ret (b + bi) t" "txn k m H t" "tframe H u t" "view t = balloc_view (sb s) (b + bi) (view s)"
      using True by (auto simp: kbind_Ret [of "bread d n" for d n, OF u(1)] d sbu u(6) find_free(1) bi_def [symmetric] balloc_view_def group_block [OF b(1) bi(1)] simp del: One_nat_def)
    have "\<not> block_used (sb s) (view s) (b + bi)" using bi by (simp add: block_used_def group_block [OF b(1) bi(1)])
    then show ?thesis using t bi(3) tframe_trans [OF u(7) t(3)] by blast
  next
    case False
    from txn_brelse [OF u(2) insertI1 u(5)] u(3) obtain v where v: "brelse bp u = Ret () v" "txn (Suc (Suc k)) (Suc (Suc m)) H v"
      "view v = view u" "tframe (insert bp H) u v" by (metis Diff_insert_absorb)
    have sv: "tframe H s v" "view v = view s" using tframe_trans [OF u(7) tframe_mono [OF v(4)]] v(3) u(6) by auto
    note sbv = tframe_fs [OF sv(1), THEN conjunct1]
    have "\<exists>n t. balloc_loop 1 bs v = Ret n t \<and> n < sb_size (sb v) \<and> \<not> block_used (sb v) (view v) n \<and>
      txn k m H t \<and> tframe H v t \<and> view t = balloc_view (sb v) n (view v)"
      using Cons.prems False fs_geom_frame [OF Cons.prems(3) sv(1)] apart_frame [OF Cons.prems(4) sv]
      by (intro Cons.IH [OF v(2)]) (auto simp: sbv sv(2))
    then obtain n t where n: "balloc_loop 1 bs v = Ret n t" "n < sb_size (sb s)" "\<not> block_used (sb s) (view s) n" "txn k m H t" "tframe H v t"
      "view t = balloc_view (sb s) n (view s)" unfolding sbv sv(2) by blast
    have "balloc_loop 1 (b # bs) s = Ret n t"
      using False n(1) v(1) by (simp add: kbind_Ret [of "bread d n" for d n, OF u(1)] d find_free(1) kseq_Ret [of "brelse bp"] del: One_nat_def)
    then show ?thesis using n tframe_trans [OF sv(1) n(5)] by blast
  qed
qed

lemma balloc_total:
  assumes t: "txn (Suc (Suc k)) (Suc (Suc m)) H s" and k: "card H \<le> k" and g: "fs_geom s" and a: "apart H s"
    and f: "n < sb_size (sb s)" "\<not> block_used (sb s) (view s) n"
  shows "\<exists>n t. balloc 1 s = Ret n t \<and> n < sb_size (sb s) \<and> \<not> block_used (sb s) (view s) n \<and>
    txn k m H t \<and> tframe H s t \<and> view t = balloc_view (sb s) n (view s)"
proof -
  let ?gs = "map (\<lambda>g. g * BPB) [0..<(sb_size (sb s) + BPB - 1) div BPB]"
  have 1: "\<forall>b \<in> set ?gs. b mod BPB = 0 \<and> b < sb_size (sb s)"
    by (auto simp: BPB_def less_eq_div_iff_mult_less_eq Suc_le_eq [symmetric])
  have "n div BPB * BPB \<in> set ?gs" using f(1) by (auto simp: BPB_def)
  moreover have "n mod BPB < min BPB (sb_size (sb s) - n div BPB * BPB)"
  proof -
    have "n mod 4096 + n div 4096 * 4096 = n" by (rule mod_div_mult_eq)
    then have "n mod 4096 < sb_size (sb s) - n div 4096 * 4096" using f(1) by linarith
    then show ?thesis by (simp add: BPB_def)
  qed
  moreover have "\<not> bit_used (view s (BBLOCK (n div BPB * BPB) (sb s))) (n mod BPB)"
    using f(2) by (simp add: block_used_def BBLOCK_def BPB_def)
  ultimately have "\<exists>b \<in> set ?gs. \<exists>bi < min BPB (sb_size (sb s) - b). \<not> bit_used (view s (BBLOCK b (sb s))) bi" by blast
  from balloc_loop_total [OF t k g a 1 this] show ?thesis by (simp add: balloc_def)
qed

lemma readsb_total:
  assumes t: "txn k m H s" and k: "card H < k" and d: "1 < disksize s" and h: "\<And>i. i \<in> H \<Longrightarrow> blockno (bufs s ! i) \<noteq> 1"
  shows "\<exists>t. readsb 1 s = Ret (get_sb (view s 1)) t \<and> txn k m H t \<and> view t = view s \<and> tframe H s t"
proof -
  from txn_bread [OF t k d h] obtain i u where u: "bread 1 1 s = Ret i u" "txn k m (insert i H) u" "i \<notin> H"
    "blockno (bufs u ! i) = 1" "synced u i" "view u = view s" "tframe H s u" by blast
  from txn_brelse [OF u(2) insertI1 u(5)] u(3) obtain v where v: "brelse i u = Ret () v" "txn k m H v" "view v = view u" "tframe (insert i H) u v"
    by (metis Diff_insert_absorb)
  have "bdata (bufs u ! i) = view s 1" using held_view(1) [OF u(2), of i] u(4,6) by simp
  then have "readsb 1 s = Ret (get_sb (view s 1)) v"
    using u(1) v(1) by (simp add: readsb_def kbind_Ret [of "bread d n" for d n] kseq_Ret [of "brelse i"] del: One_nat_def)
  moreover have "tframe H s v" using tframe_trans [OF u(7) tframe_mono [OF v(4)]] by blast
  ultimately show ?thesis using v u(6) by auto
qed

lemma view_fs [simp]: "view (s\<lparr>sb := b\<rparr>) = view s" "view (s\<lparr>inodes := is\<rparr>) = view s"
  by (rule view_core; simp)+

lemma txn_fs [simp]: "txn k m H (s\<lparr>sb := b\<rparr>) = txn k m H s" "txn k m H (s\<lparr>inodes := is\<rparr>) = txn k m H s"
  by (simp_all add: txn_def ready_def qheld_def kready_def cpu_of_def binv_def buf_ok_def synced_def calm_def mine_def mypid_def clean_bufs_def cong: if_cong)

lemma bfree_total:
  assumes t: "txn (Suc k) (Suc m) H s" and k: "card H \<le> k" and g: "fs_geom s" and sb: "get_sb (view s 1) = sb s" "1 < disksize s"
    and h: "\<And>i. i \<in> H \<Longrightarrow> blockno (bufs s ! i) \<noteq> 1 \<and> blockno (bufs s ! i) \<noteq> BBLOCK n (sb s)" and n: "n < sb_size (sb s)"
  shows "if block_used (sb s) (view s) n
    then \<exists>t. bfree 1 n s = Ret () t \<and> txn k m H t \<and> tframe H s t \<and> view t = (view s)(BBLOCK n (sb s) := clear_used (n mod BPB) (view s (BBLOCK n (sb s))))
    else bfree 1 n s = Panic ''freeing free block''"
proof -
  let ?B = "BBLOCK n (sb s)"
  have "\<exists>u. readsb 1 s = Ret (get_sb (view s 1)) u \<and> txn (Suc k) (Suc m) H u \<and> view u = view s \<and> tframe H s u"
    by (rule readsb_total [OF t _ sb(2)]) (use h k in auto)
  then obtain u where u: "readsb 1 s = Ret (sb s) u" "txn (Suc k) (Suc m) H u" "view u = view s" "tframe H s u"
    unfolding sb(1) by blast
  have us: "u\<lparr>sb := sb s\<rparr> = u" using tframe_fs [OF u(4)] by (cases u) simp
  have "?B < disksize u" using g n u(4) by (auto simp: fs_geom_def tframe_def)
  moreover have "blockno (bufs u ! i) \<noteq> ?B" if "i \<in> H" for i using h [OF that] u(4) that by (simp add: tframe_def)
  moreover have "card H < Suc k" using k by simp
  ultimately obtain bp v where v: "bread 1 ?B u = Ret bp v" "txn (Suc k) (Suc m) (insert bp H) v" "bp \<notin> H"
    "blockno (bufs v ! bp) = ?B" "synced v bp" "view v = view s" "tframe H u v" using txn_bread [OF u(2)] u(3) by metis
  have d: "bdata (bufs v ! bp) = view s ?B" using held_view(1) [OF v(2), of bp] v(4,6) by simp
  have e: "bfree 1 n s = (if \<not> block_used (sb s) (view s) n then kpanic ''freeing free block''
      else kseq (kmod (bmod bp (\<lambda>c. c\<lparr>bdata := clear_used (n mod BPB) (bdata c)\<rparr>))) (kseq (log_write bp) (brelse bp))) v"
    using u(1) v(1) by (simp add: bfree_def kbind_Ret [of "readsb d" for d] kbind_Ret [of "bread d n" for d n] us d block_used_def del: One_nat_def)
  have "length (clear_used (n mod BPB) (bdata (bufs v ! bp))) = BSIZE" using d txn_length_view [OF t] by simp
  from txn_write [where f = "clear_used (n mod BPB)", OF v(2) insertI1 this] obtain w where
    w: "log_write bp (bmod bp (\<lambda>c. c\<lparr>bdata := clear_used (n mod BPB) (bdata c)\<rparr>) v) = Ret () w" "txn k m (insert bp H) w" "synced w bp"
      "view w = (view s)(?B := clear_used (n mod BPB) (view s ?B))" "tframe (insert bp H) v w" unfolding v(4,6) by blast
  from txn_brelse [OF w(2) insertI1 w(3)] v(3) obtain x where x: "brelse bp w = Ret () x" "txn k m H x" "view x = view w" "tframe (insert bp H) w x"
    by (metis Diff_insert_absorb)
  have "tframe H s x" using tframe_trans [OF tframe_trans [OF u(4) v(7)] tframe_mono [OF tframe_trans [OF w(5) x(4)]]] by blast
  then show ?thesis unfolding e using x w(1,4) by (simp add: kseq_Ret [of "log_write bp"] kpanic_def)
qed

text \<open>
  \<open>fs_layout s\<close>: the superblock in memory is the one on the disk, and the superblock and the blocks of the free map
  are themselves marked as used.
\<close>

definition fs_layout :: "'z fsst_scheme \<Rightarrow> bool" where
  "fs_layout s \<longleftrightarrow> fs_geom s \<and> get_sb (view s 1) = sb s \<and> 1 < disksize s \<and> block_used (sb s) (view s) 1 \<and>
     (\<forall>b < sb_size (sb s). BBLOCK b (sb s) \<noteq> 1 \<and> BBLOCK b (sb s) < sb_size (sb s) \<and> block_used (sb s) (view s) (BBLOCK b (sb s)))"

lemma balloc_view_used:
  assumes len: "a mod BPB < 8 * length (v (BBLOCK a sb'))" and "a \<noteq> BBLOCK a sb'" and "BBLOCK b sb' \<noteq> a"
  shows "block_used sb' (balloc_view sb' a v) b = (b = a \<or> block_used sb' v b)"
proof (cases "BBLOCK b sb' = BBLOCK a sb'")
  case True
  then have "b div BPB = a div BPB" by (simp add: BBLOCK_def)
  then have e: "b = a \<longleftrightarrow> a mod BPB = b mod BPB" by (metis div_mult_mod_eq)
  show ?thesis using True assms(2) unfolding e by (simp add: block_used_def balloc_view_def bit_used_set [OF len])
next
  case False
  then show ?thesis using assms(3) by (auto simp: block_used_def balloc_view_def)
qed

text \<open>C13: The block allocator never hands out a block that is in use, and \<open>bfree\<close> undoes it. If any block is free,
  \<open>balloc\<close> returns a free one within the file system, filled with zeros and marked as used; the free
  map says the same of every other block as before, and no block but the free map and the new one changes. Freeing
  that block restores the free map, and freeing it a second time panics.\<close>

theorem balloc_bfree:
  assumes t: "txn 4 4 {} s" and l: "fs_layout s" and f: "n < sb_size (sb s)" "\<not> block_used (sb s) (view s) n"
  shows "\<exists>a t u. balloc 1 s = Ret a t \<and> a < sb_size (sb s) \<and> \<not> block_used (sb s) (view s) a \<and> view t a = replicate BSIZE 0 \<and>
      (\<forall>b < sb_size (sb s). block_used (sb s) (view t) b = (b = a \<or> block_used (sb s) (view s) b)) \<and>
      (\<forall>b. b \<noteq> a \<longrightarrow> b \<noteq> BBLOCK a (sb s) \<longrightarrow> view t b = view s b) \<and>
      bfree 1 a t = Ret () u \<and> view u = (view s)(a := replicate BSIZE 0) \<and>
      bfree 1 a u = Panic ''freeing free block''"
proof -
  note g = l [unfolded fs_layout_def, THEN conjunct1]
  have sb: "get_sb (view s 1) = sb s" "1 < disksize s" and u1: "block_used (sb s) (view s) 1"
    and lay: "\<And>b. b < sb_size (sb s) \<Longrightarrow> BBLOCK b (sb s) \<noteq> 1 \<and> BBLOCK b (sb s) < sb_size (sb s) \<and> block_used (sb s) (view s) (BBLOCK b (sb s))"
    using l by (simp_all add: fs_layout_def)
  have t2: "txn (Suc (Suc 2)) (Suc (Suc 2)) {} s" using t by (simp add: eval_nat_numeral)
  have ap: "apart {} s" by (simp add: apart_def)
  have "\<exists>n t. balloc 1 s = Ret n t \<and> n < sb_size (sb s) \<and> \<not> block_used (sb s) (view s) n \<and>
      txn 2 2 {} t \<and> tframe {} s t \<and> view t = balloc_view (sb s) n (view s)"
    by (rule balloc_total [OF t2 _ g ap f]) simp
  then obtain a t where a: "balloc 1 s = Ret a t" "a < sb_size (sb s)" "\<not> block_used (sb s) (view s) a"
    "txn (Suc (Suc 0)) (Suc (Suc 0)) {} t" "tframe {} s t" "view t = balloc_view (sb s) a (view s)"
    unfolding numeral_2_eq_2 by blast
  let ?B = "BBLOCK a (sb s)"
  have sbt: "sb t = sb s" using tframe_fs [OF a(5)] by simp
  have na: "a \<noteq> ?B" "a \<noteq> 1" "?B \<noteq> 1" using lay [OF a(2)] u1 a(3) by auto
  have len: "a mod BPB < 8 * length (view s ?B)" using txn_length_view [OF t] by (simp add: BSIZE_def BPB_def)
  have us: "block_used (sb s) (view t) b = (b = a \<or> block_used (sb s) (view s) b)" if "b < sb_size (sb s)" for b
  proof -
    have nb: "BBLOCK b (sb s) \<noteq> a" using lay [OF that] a(3) by auto
    show ?thesis unfolding a(6) by (rule balloc_view_used [where v = "view s", OF len na(1) nb])
  qed
  have gt: "fs_geom t" using g a(5) by (rule fs_geom_frame)
  have dt: "1 < disksize t" using sb(2) a(5) by (simp add: tframe_def)
  have st: "get_sb (view t 1) = sb t" using na sb(1) by (simp add: sbt a(6) balloc_view_def)
  have "block_used (sb t) (view t) a" using us [OF a(2)] by (simp add: sbt)
  moreover have "if block_used (sb t) (view t) a
    then \<exists>u. bfree 1 a t = Ret () u \<and> txn (Suc 0) (Suc 0) {} u \<and> tframe {} t u \<and> view u = (view t)(BBLOCK a (sb t) := clear_used (a mod BPB) (view t (BBLOCK a (sb t))))
    else bfree 1 a t = Panic ''freeing free block''"
    by (rule bfree_total [OF a(4) _ gt st dt]) (use a(2) sbt in simp_all)
  ultimately obtain u where u: "bfree 1 a t = Ret () u" "txn (Suc 0) (Suc 0) {} u" "tframe {} t u"
    "view u = (view t)(?B := clear_used (a mod BPB) (view t ?B))" unfolding sbt by (simp only: if_True) blast
  have vu: "view u = (view s)(a := replicate BSIZE 0)"
    using na clear_set_used [OF _ len] a(3) by (simp add: u(4) a(6) balloc_view_def block_used_def fun_eq_iff)
  have sbu: "sb u = sb s" using tframe_fs [OF u(3)] sbt by simp
  have gu: "fs_geom u" using gt u(3) by (rule fs_geom_frame)
  have du: "1 < disksize u" using dt u(3) by (simp add: tframe_def)
  have su: "get_sb (view u 1) = sb u" using na sb(1) by (simp add: sbu vu)
  have "\<not> block_used (sb u) (view u) a" using a(3) na by (simp add: sbu vu block_used_def)
  with bfree_total [OF u(2) _ gu su du _ a(2) [folded sbu]] have "bfree 1 a u = Panic ''freeing free block''" by simp
  moreover have "view t a = replicate BSIZE 0" "\<forall>b. b \<noteq> a \<longrightarrow> b \<noteq> ?B \<longrightarrow> view t b = view s b"
    by (simp_all add: a(6) balloc_view_def)
  ultimately show ?thesis using a(1-3) us u(1) vu by blast
qed


section \<open>A small file system\<close>

text \<open>A file system of 100 blocks, of which the first 60 are used: superblock, log, inodes and, in block 58, the free map.\<close>

definition sb1 :: superblock where
  "sb1 = \<lparr>sb_size = 100, sb_nblocks = 40, sb_ninodes = 200, sb_nlog = 30, sb_logstart = 2, sb_inodestart = 32, sb_bmapstart = 58\<rparr>"

definition disk1 :: "nat \<Rightarrow> byte list" where
  "disk1 n = (if n = 1 then put32 0 100 (put32 4 40 (put32 8 200 (put32 12 30 (put32 16 2 (put32 20 32 (put32 24 58 (replicate BSIZE 0)))))))
     else if n = 58 then replicate 7 255 @ [15] @ replicate 504 0 else replicate BSIZE 0)"

definition inode0 :: inode where
  "inode0 = \<lparr>idev = 0, inum = 0, iref = 0, ivalid = False, itype = 0, major = 0, minor = 0, nlink = 0, isize = 0, addrs = replicate 13 0\<rparr>"

definition fsst0 :: "(nat \<Rightarrow> byte list) \<Rightarrow> fsst" where
  "fsst0 dk = lst.extend (lst0 dk) (fsst.fields sb1 (replicate NINODE inode0))"

lemma lst_extend_sel:
  "bufs (lst.extend s x) = bufs s" "disk (lst.extend s x) = disk s" "disksize (lst.extend s x) = disksize s"
  "sleeplocks (lst.extend s x) = sleeplocks s" "mypid (lst.extend s x) = mypid s" "spin (lst.extend s x) = spin s" "ncli (lst.extend s x) = ncli s"
  "ifl (lst.extend s x) = ifl s" "cpu_of (lst.extend s x) = cpu_of s" "cur (lst.extend s x) = cur s" "procs (lst.extend s x) = procs s"
  "lh_n (lst.extend s x) = lh_n s" "lh_block (lst.extend s x) = lh_block s" "outstanding (lst.extend s x) = outstanding s"
  by (simp_all add: lst.defs mypid_def cpu_of_def)

lemma txn_extend: "txn k m H s \<Longrightarrow> txn k m H (lst.extend s x)"
  by (simp add: txn_def ready_def qheld_def kready_def binv_def buf_ok_def synced_def calm_def clean_bufs_def mine_def lst_extend_sel cong: if_cong)

lemma fsst0_sel [simp]:
  "disksize (fsst0 dk) = 40000" "sb (fsst0 dk) = sb1" "inodes (fsst0 dk) = replicate NINODE inode0" "bufs (fsst0 dk) = bufs0" "disk (fsst0 dk) = dk"
  unfolding fsst0_def lst_extend_sel by (simp_all add: lst.defs fsst.defs)

lemma txn_fsst0: "(\<And>n. length (dk n) = BSIZE) \<Longrightarrow> txn NBUF LOGSIZE {} (fsst0 dk)"
  unfolding fsst0_def by (intro txn_extend) (auto simp: txn_def intro!: exI [of _ NBUF] ready_lst0)

lemma view_fsst0 [simp]: "view (fsst0 dk) = dk"
  by (rule ext, subst view_uncached) (simp_all add: caches_def bufs0_fresh)

lemma length_disk1: "length (disk1 n) = BSIZE"
  by (simp add: disk1_def BSIZE_def)

lemma used_disk1: "block_used sb1 disk1 1" "block_used sb1 disk1 58" "\<not> block_used sb1 disk1 60"
  by (simp_all add: block_used_def bit_used_bit disk1_def sb1_def BBLOCK_def BPB_def BSIZE_def nth_append bit_numeral_rec)

lemma sb_disk1: "get_sb (disk1 1) = sb1"
  by (simp add: get_sb_def disk1_def sb1_def get32_put32 get32_put32_other BSIZE_def)

lemma layout_fsst0: "fs_layout (fsst0 disk1)"
proof -
  have "BBLOCK b sb1 = 58" if "b < 100" for b using that by (simp add: BBLOCK_def BPB_def sb1_def)
  moreover have "sb_size sb1 = 100" by (simp add: sb1_def)
  ultimately show ?thesis using used_disk1 sb_disk1 by (simp add: fs_layout_def fs_geom_def)
qed

theorem balloc_bfree_witness:
  "\<exists>a t u. balloc 1 (fsst0 disk1) = Ret a t \<and> a < 100 \<and> view t a = replicate BSIZE 0 \<and> bfree 1 a t = Ret () u \<and>
     bfree 1 a u = Panic ''freeing free block''"
proof -
  have "txn 4 4 {} (fsst0 disk1)" by (rule txn_mono [OF txn_fsst0]) (simp_all add: length_disk1 NBUF_def LOGSIZE_def)
  from balloc_bfree [OF this layout_fsst0, of 60] used_disk1(3) show ?thesis by (auto simp: sb1_def)
qed

end
