(* ===== verification/Inode.thy ===== *)
theory Inode
  imports Freemap
begin

text \<open>
  Inodes on the disk (\<^verbatim>\<open>src/xv6-public/fs.c\<close>: \<open>iupdate\<close>, \<open>ilock\<close>). \<open>Fs\<close> has the operations; here is
  what they do inside a transaction: a dinode is written at its own 64 bytes of its block and at no others, and
  \<open>ilock\<close> of an inode that is not valid reads back every field that \<open>iupdate\<close> wrote.
\<close>

unbundle bit_operations_syntax

section \<open>Inodes on the disk\<close>

lemma get16_put16: "off + 1 < length d \<Longrightarrow> get16 off (put16 off v d) = v"
proof -
  assume "off + 1 < length d"
  then have "get16 off (put16 off v d) = ucast (ucast v :: byte) OR push_bit 8 (ucast (ucast (drop_bit 8 v) :: byte))"
    by (simp add: get16_def put16_def)
  also have "\<dots> = v"
  proof (rule bit_word_eqI)
    fix n assume "n < LENGTH(16)"
    then show "bit (ucast (ucast v :: byte) OR push_bit 8 (ucast (ucast (drop_bit 8 v) :: byte)) :: 16 word) n = bit v n"
      by (cases "n < 8") (auto simp: bit_simps)
  qed
  finally show ?thesis .
qed

lemma nth_put16: "j < off \<or> off + 1 < j \<Longrightarrow> put16 off v d ! j = d ! j"
  by (auto simp: put16_def nth_list_update)

lemma nth_put32: "j < off \<or> off + 3 < j \<Longrightarrow> put32 off v d ! j = d ! j"
  by (auto simp: put32_def nth_list_update)

lemma length_put16 [simp]: "length (put16 off v d) = length d"
  by (simp add: put16_def)

lemma get16_cong: "d ! off = e ! off \<Longrightarrow> d ! (off + 1) = e ! (off + 1) \<Longrightarrow> get16 off d = get16 off e"
  by (simp add: get16_def)

lemma get32_cong: "(\<And>j. off \<le> j \<Longrightarrow> j < off + 4 \<Longrightarrow> d ! j = e ! j) \<Longrightarrow> get32 off d = get32 off e"
  by (simp add: get32_def)

lemma put_addrs_Suc: "fold (\<lambda>i. put32 (off + 4 * i) (f i)) [0..<Suc n] d = put32 (off + 4 * n) (f n) (fold (\<lambda>i. put32 (off + 4 * i) (f i)) [0..<n] d)"
  by simp

lemma length_fold_put32 [simp]: "length (fold (\<lambda>i. put32 (off + 4 * i) (f i)) xs d) = length d"
  by (induction xs arbitrary: d) simp_all

lemma nth_fold_put32: "j < off \<or> off + 4 * n \<le> j \<Longrightarrow> fold (\<lambda>i. put32 (off + 4 * i) (f i)) [0..<n] d ! j = d ! j"
  by (induction n) (auto simp: nth_put32)

lemma get32_fold_put32:
  "i < n \<Longrightarrow> off + 4 * n \<le> length d \<Longrightarrow> get32 (off + 4 * i) (fold (\<lambda>i. put32 (off + 4 * i) (f i)) [0..<n] d) = f i"
proof (induction n)
  case (Suc n)
  show ?case
  proof (cases "i = n")
    case True
    then show ?thesis using Suc.prems by (simp add: get32_put32)
  next
    case False
    then show ?thesis using Suc by (simp add: get32_put32_other)
  qed
qed simp

text \<open>The fields of an inode that are stored fit into their place on the disk.\<close>

definition short_int :: "int \<Rightarrow> bool" where
  "short_int x \<longleftrightarrow> - (2 ^ 15) \<le> x \<and> x < 2 ^ 15"

definition dinode_ok :: "inode \<Rightarrow> bool" where
  "dinode_ok ip \<longleftrightarrow> short_int (itype ip) \<and> short_int (major ip) \<and> short_int (minor ip) \<and> short_int (nlink ip) \<and>
     isize ip < 2 ^ 32 \<and> length (addrs ip) = 13 \<and> (\<forall>a \<in> set (addrs ip). a < 2 ^ 32)"

lemma sint_short: "short_int x \<Longrightarrow> sint (of_int x :: 16 word) = x"
  by (simp add: short_int_def sint_uint signed_take_bit_eq_take_bit_shift take_bit_eq_mod uint_word_of_int mod_simps)

lemma length_put_dinode [simp]: "length (put_dinode off ip d) = length d"
  by (simp add: put_dinode_def put_addrs_def)

lemma nth_put_dinode: "j < off \<or> off + 64 \<le> j \<Longrightarrow> put_dinode off ip d ! j = d ! j"
  by (auto simp: put_dinode_def put_addrs_def nth_fold_put32 nth_put32 nth_put16 simp del: fold_simps upt_rec_numeral)

lemma get_dinode_cong: "(\<And>j. off \<le> j \<Longrightarrow> j < off + 64 \<Longrightarrow> d ! j = e ! j) \<Longrightarrow> get_dinode d off ip = get_dinode e off ip"
proof -
  assume a: "\<And>j. off \<le> j \<Longrightarrow> j < off + 64 \<Longrightarrow> d ! j = e ! j"
  have "get16 (off + k) d = get16 (off + k) e" if "k < 8" for k using that by (intro get16_cong a) simp_all
  from this [of 0] this [of 2] this [of 4] this [of 6] have 1: "get16 off d = get16 off e" "get16 (off + 2) d = get16 (off + 2) e"
    "get16 (off + 4) d = get16 (off + 4) e" "get16 (off + 6) d = get16 (off + 6) e" by simp_all
  have 2: "get32 (off + 8) d = get32 (off + 8) e" by (rule get32_cong, rule a) simp_all
  have "get32 (off + 12 + 4 * i) d = get32 (off + 12 + 4 * i) e" if "i < 13" for i using that by (intro get32_cong a) simp_all
  then have 3: "map (\<lambda>i. unat (get32 (off + 12 + 4 * i) d)) [0..<13] = map (\<lambda>i. unat (get32 (off + 12 + 4 * i) e)) [0..<13]"
    by (intro map_cong) (simp_all del: upt_rec_numeral)
  show ?thesis unfolding get_dinode_def 1 2 3 ..
qed

lemma get_put_dinode:
  assumes "dinode_ok ip" and "off + 64 \<le> length d"
  shows "get_dinode (put_dinode off ip d) off jp = jp\<lparr>itype := itype ip, major := major ip, minor := minor ip, nlink := nlink ip,
    isize := isize ip, addrs := addrs ip\<rparr>"
proof -
  define d1 where "d1 = put16 off (of_int (itype ip)) d"
  define d2 where "d2 = put16 (off + 2) (of_int (major ip)) d1"
  define d3 where "d3 = put16 (off + 4) (of_int (minor ip)) d2"
  define d4 where "d4 = put16 (off + 6) (of_int (nlink ip)) d3"
  define d5 where "d5 = put32 (off + 8) (of_nat (isize ip)) d4"
  have e: "put_dinode off ip d = fold (\<lambda>i. put32 (off + 12 + 4 * i) (of_nat (addrs ip ! i))) [0..<13] d5" (is "_ = ?r")
    by (simp only: put_dinode_def put_addrs_def d1_def d2_def d3_def d4_def d5_def)
  have l: "length d1 = length d" "length d2 = length d" "length d3 = length d" "length d4 = length d" "length d5 = length d"
    by (simp_all add: d1_def d2_def d3_def d4_def d5_def)
  have low: "?r ! j = d5 ! j" if "j < off + 12" for j using that by (simp add: nth_fold_put32 del: upt_rec_numeral)
  have g16: "get16 (off + k) ?r = get16 (off + k) d4" if "k < 7" for k
  proof (rule get16_cong)
    have "?r ! j = d4 ! j" if "j < off + 8" for j
    proof -
      have "?r ! j = d5 ! j" by (rule low) (use that in simp)
      then show ?thesis using that by (simp add: d5_def nth_put32)
    qed
    then show "?r ! (off + k) = d4 ! (off + k)" "?r ! (off + k + 1) = d4 ! (off + k + 1)" using that by simp_all
  qed
  have g4: "get16 (off + 6) d4 = of_int (nlink ip)" "get16 (off + 4) d4 = of_int (minor ip)" "get16 (off + 2) d4 = of_int (major ip)"
    "get16 off d4 = of_int (itype ip)"
  proof -
    show "get16 (off + 6) d4 = of_int (nlink ip)" unfolding d4_def by (rule get16_put16) (use assms(2) l in simp)
    have "get16 (off + 4) d4 = get16 (off + 4) d3" by (rule get16_cong) (simp_all add: d4_def nth_put16)
    also have "\<dots> = of_int (minor ip)" unfolding d3_def by (rule get16_put16) (use assms(2) l in simp)
    finally show "get16 (off + 4) d4 = of_int (minor ip)" .
    have "get16 (off + 2) d4 = get16 (off + 2) d2" by (rule get16_cong) (simp_all add: d4_def d3_def nth_put16)
    also have "\<dots> = of_int (major ip)" unfolding d2_def by (rule get16_put16) (use assms(2) l in simp)
    finally show "get16 (off + 2) d4 = of_int (major ip)" .
    have "get16 off d4 = get16 off d1" by (rule get16_cong) (simp_all add: d4_def d3_def d2_def nth_put16)
    also have "\<dots> = of_int (itype ip)" unfolding d1_def by (rule get16_put16) (use assms(2) in simp)
    finally show "get16 off d4 = of_int (itype ip)" .
  qed
  have g8: "get32 (off + 8) ?r = of_nat (isize ip)"
  proof -
    have "get32 (off + 8) ?r = get32 (off + 8) d5" by (rule get32_cong, rule low) simp
    also have "\<dots> = of_nat (isize ip)" unfolding d5_def by (rule get32_put32) (use assms(2) l in simp)
    finally show ?thesis .
  qed
  have ga: "get32 (off + 12 + 4 * i) ?r = of_nat (addrs ip ! i)" if "i < 13" for i
    using that assms(2) l by (intro get32_fold_put32) simp_all
  have "map (\<lambda>i. unat (get32 (off + 12 + 4 * i) ?r)) [0..<13] = map (\<lambda>i. addrs ip ! i) [0..<13]"
    using assms(1) by (intro map_cong) (auto simp: ga dinode_ok_def unat_of_nat simp del: upt_rec_numeral)
  also have "\<dots> = addrs ip" using assms(1) map_nth [of "addrs ip"] by (simp add: dinode_ok_def del: upt_rec_numeral)
  finally have m: "map (\<lambda>i. unat (get32 (off + 12 + 4 * i) ?r)) [0..<13] = addrs ip" .
  have "unat (of_nat (isize ip) :: 32 word) = isize ip" using assms(1) by (simp add: dinode_ok_def unat_of_nat)
  then show ?thesis unfolding e get_dinode_def m
    using assms(1) g16 [of 0] g16 [of 2] g16 [of 4] g16 [of 6] by (simp add: g4 g8 dinode_ok_def sint_short del: upt_rec_numeral add_2_eq_Suc')
qed

lemma sst_more_lst:
  assumes "sst.more t = sst.more s"
  shows "bufs t = bufs s" "disk t = disk s" "disksize t = disksize s" "bst.more t = bst.more s"
  using assms by (cases s; cases t; simp)+

lemma sst_more_fs:
  assumes "sst.more t = sst.more s"
  shows "inodes t = inodes s" "sb t = sb s"
  using assms by (cases s; cases t; simp)+

lemma sst_more_log:
  assumes "sst.more t = sst.more s"
  shows "outstanding t = outstanding s" "lh_block t = lh_block s" "lh_n t = lh_n s"
  using assms by (cases s; cases t; simp)+

text \<open>Taking and dropping the sleep lock of an inode does not disturb a transaction.\<close>

lemma txn_sleeplocks:
  assumes t: "txn k m H s" and q: "quiet t" and l: "\<And>j. sleeplocks t (SBuf j) = sleeplocks s (SBuf j)" and p: "mypid t = mypid s"
    and more: "sst.more t = sst.more s"
  shows "txn k m H t" and "view t = view s"
proof -
  note e = sst_more_lst [OF more] sst_more_log [OF more]
  show "view t = view s" by (rule view_core) (simp_all add: e)
  have "ready k' H t" if "ready k' H s" for k'
    using that q l p by (simp add: ready_def binv_def buf_ok_def synced_def calm_def clean_bufs_def mine_def e cong: if_cong)
  then show "txn k m H t" using t by (auto simp: txn_def e)
qed

lemma txn_quiet: "txn k m H s \<Longrightarrow> quiet s"
  by (auto simp: txn_def ready_def)

lemma txn_acquiresleep:
  assumes t: "txn k m H s" and f: "\<not> slocked (sleeplocks s (SInode i))"
  shows "\<exists>t. acquiresleep (SInode i) s = Ret () t \<and> txn k m H t \<and> view t = view s \<and> inodes t = inodes s \<and> sb t = sb s \<and> disksize t = disksize s \<and>
    (\<forall>j. blockno (bufs t ! j) = blockno (bufs s ! j)) \<and> sleeplocks t = (sleeplocks s)(SInode i := \<lparr>slocked = True, spid = mypid s\<rparr>) \<and> mypid t = mypid s"
proof -
  from acquiresleep_returns [OF txn_quiet [OF t] f] obtain u where u: "acquiresleep (SInode i) s = Ret () u" "quiet u" by blast
  note r = acquiresleep_Ret [OF u(1)]
  have "txn k m H u" "view u = view s" using txn_sleeplocks [OF t u(2) _ r(3,4)] r(2) by simp_all
  then show ?thesis using u(1) r sst_more_lst [OF r(4)] sst_more_fs [OF r(4)] by auto
qed

lemma imod_sel [simp]: "inodes (imod i f s) = upd i f (inodes s)" "sb (imod i f s) = sb s" "disksize (imod i f s) = disksize s"
  "bufs (imod i f s) = bufs s" "sleeplocks (imod i f s) = sleeplocks s" "mypid (imod i f s) = mypid s"
  by (simp_all add: imod_def mypid_def)

lemma txn_imod [simp]: "txn k m H (imod i f s) = txn k m H s" "view (imod i f s) = view s"
  by (simp_all add: imod_def)

lemma synced_imod [simp]: "synced (imod i f s) j = synced s j"
  by (simp add: imod_def synced_def)

lemma doff_block: "doff n + 64 \<le> BSIZE"
proof -
  have "n mod 8 < 8" by simp
  then show ?thesis by (simp add: doff_def IPB_def BSIZE_def)
qed

lemma iupdate_total:
  assumes t: "txn (Suc k) (Suc m) H s" and k: "card H \<le> k" and ip: "idev (inodes s ! i) = 1" "IBLOCK (inum (inodes s ! i)) (sb s) < disksize s"
    and h: "\<And>j. j \<in> H \<Longrightarrow> blockno (bufs s ! j) \<noteq> IBLOCK (inum (inodes s ! i)) (sb s)"
  shows "\<exists>t. iupdate i s = Ret () t \<and> txn k m H t \<and> tframe H s t \<and>
    view t = (view s)(IBLOCK (inum (inodes s ! i)) (sb s) := put_dinode (doff (inum (inodes s ! i))) (inodes s ! i) (view s (IBLOCK (inum (inodes s ! i)) (sb s))))"
proof -
  have "card H < Suc k" using k by simp
  from modify_block [OF t this ip(2) h, of "put_dinode (doff (inum (inodes s ! i))) (inodes s ! i)"] txn_length_view [OF t]
  show ?thesis by (auto simp: iupdate_def ip(1))
qed

lemma ilock_total:
  assumes t: "txn (Suc k) m H s" and k: "card H \<le> k" and il: "i < length (inodes s)" and r: "1 \<le> iref (inodes s ! i)" and f: "\<not> slocked (sleeplocks s (SInode i))"
    and v: "\<not> ivalid (inodes s ! i)" and ip: "idev (inodes s ! i) = 1" "IBLOCK (inum (inodes s ! i)) (sb s) < disksize s"
    and h: "\<And>j. j \<in> H \<Longrightarrow> blockno (bufs s ! j) \<noteq> IBLOCK (inum (inodes s ! i)) (sb s)"
  defines "jp \<equiv> get_dinode (view s (IBLOCK (inum (inodes s ! i)) (sb s))) (doff (inum (inodes s ! i))) (inodes s ! i)"
  shows "if itype jp = 0 then ilock (Some i) s = Panic ''ilock: no type''
    else \<exists>t. ilock (Some i) s = Ret () t \<and> txn (Suc k) m H t \<and> view t = view s \<and> inodes t = (inodes s)[i := jp\<lparr>ivalid := True\<rparr>] \<and> sb t = sb s \<and>
      disksize t = disksize s \<and> mine t (SInode i)"
proof -
  let ?ip = "inodes s ! i" and ?B = "IBLOCK (inum (inodes s ! i)) (sb s)"
  from txn_acquiresleep [OF t f] obtain u where u: "acquiresleep (SInode i) s = Ret () u" "txn (Suc k) m H u" "view u = view s" "inodes u = inodes s"
    "sb u = sb s" "disksize u = disksize s" "\<And>j. blockno (bufs u ! j) = blockno (bufs s ! j)" "sleeplocks u (SInode i) = \<lparr>slocked = True, spid = mypid s\<rparr>" "mypid u = mypid s" by auto
  have "card H < Suc k" using k by simp
  from txn_bread [OF u(2) this, of ?B] ip(2) h u(6,7) obtain bp w where w: "bread 1 ?B u = Ret bp w" "txn (Suc k) m (insert bp H) w" "bp \<notin> H" "blockno (bufs w ! bp) = ?B" "synced w bp"
    "view w = view s" "tframe H u w" unfolding u(3) by metis
  have d: "bdata (bufs w ! bp) = view s ?B" using held_view(1) [OF w(2), of bp] w(4,6) by simp
  let ?w = "imod i (get_dinode (view s ?B) (doff (inum ?ip))) w"
  have "txn (Suc k) m (insert bp H) ?w" "synced ?w bp" using w by simp_all
  from txn_brelse [OF this(1) insertI1 this(2)] w(3) obtain x where x: "brelse bp ?w = Ret () x" "txn (Suc k) m H x" "view x = view s" "tframe (insert bp H) ?w x"
    by (metis Diff_insert_absorb txn_imod(2) w(6))
  have iw: "inodes w = inodes s" "sb w = sb s" using tframe_fs [OF w(7)] u(4,5) by simp_all
  have ix: "inodes x = (inodes s)[i := jp]" "sb x = sb s" using tframe_fs [OF x(4)] iw il by (simp_all add: jp_def upd_def)
  have m: "mine (imod i (\<lambda>ip. ip\<lparr>ivalid := True\<rparr>) x) (SInode i)"
    using w(7) x(4) u(8,9) by (simp add: mine_def tframe_def)
  have dx: "disksize x = disksize s" using x(4) w(7) u(6) by (simp add: tframe_def)
  have e: "ilock (Some i) s = (kbind (kget (\<lambda>s. itype (inodes s ! i))) (\<lambda>ty. kwhen (ty = 0) (kpanic ''ilock: no type''))) (imod i (\<lambda>ip. ip\<lparr>ivalid := True\<rparr>) x)"
    using r v u(1) w(1) x(1) by (simp add: ilock_def kseq_Ret [of "acquiresleep l" for l] kbind_Ret [of "bread d n" for d n] kseq_Ret [of "brelse bp"] u(4,5) ip(1) iw d kwhen_def del: One_nat_def)
  show ?thesis unfolding e using x ix m il dx by (simp add: kwhen_def upd_def kpanic_def kret_def)
qed

lemma inode_fields: "idev jp = idev ip \<Longrightarrow> inum jp = inum ip \<Longrightarrow>
    jp\<lparr>itype := itype ip, major := major ip, minor := minor ip, nlink := nlink ip, isize := isize ip, addrs := addrs ip, ivalid := v\<rparr> =
    (ip :: inode)\<lparr>iref := iref jp, ivalid := v\<rparr>"
  by (cases ip; cases jp) simp

lemma doff_apart: "n \<noteq> n' \<Longrightarrow> IBLOCK n b = IBLOCK n' b \<Longrightarrow> doff n + 64 \<le> doff n' \<or> doff n' + 64 \<le> doff n"
proof -
  assume a: "n \<noteq> n'" "IBLOCK n b = IBLOCK n' b"
  then have "n div 8 = n' div 8" by (simp add: IBLOCK_def IPB_def)
  with a(1) have "n mod 8 \<noteq> n' mod 8" by (metis div_mult_mod_eq)
  then show ?thesis by (auto simp: doff_def IPB_def)
qed

lemma slmod_txn [simp]: "txn k m H (slmod (SInode i) f s) = txn k m H s" "view (slmod (SInode i) f s) = view s"
proof -
  show "view (slmod (SInode i) f s) = view s" by (rule view_core) (simp_all add: slmod_def)
  have "ready k' H (slmod (SInode i) f s) = ready k' H s" for k'
    by (simp add: ready_def binv_def buf_ok_def synced_def calm_def clean_bufs_def mine_def cong: if_cong) (simp add: slmod_def mypid_def cong: if_cong)
  then show "txn k m H (slmod (SInode i) f s) = txn k m H s" by (simp add: txn_def) (simp add: slmod_def)
qed

lemma slmod_fs [simp]: "inodes (slmod l f s) = inodes s" "sb (slmod l f s) = sb s"
  by (simp_all add: slmod_def)

lemma slmod_disksize [simp]: "disksize (slmod l f s) = disksize s"
  by (simp add: slmod_def)

text \<open>C14: What \<open>iupdate\<close> writes, \<open>ilock\<close> reads: after \<open>iupdate\<close>, an \<open>ilock\<close> of a fresh cache entry of the same
  inode restores the type, the device numbers, the link count, the size and all block addresses; \<open>iupdate\<close> changes
  no other block, and no other inode of the same block.\<close>

theorem inode_roundtrip:
  assumes t: "txn 2 1 {} s" and i: "i < length (inodes s)" and ip: "ip = inodes s ! i" "dinode_ok ip" "itype ip \<noteq> 0" "idev ip = 1"
    and b: "blk = IBLOCK (inum ip) (sb s)" "blk < disksize s"
  shows "\<exists>t. iupdate i s = Ret () t \<and> (\<forall>n. n \<noteq> blk \<longrightarrow> view t n = view s n) \<and>
    (\<forall>n p. n \<noteq> inum ip \<longrightarrow> IBLOCK n (sb s) = blk \<longrightarrow> get_dinode (view t blk) (doff n) p = get_dinode (view s blk) (doff n) p) \<and>
    (\<forall>jp. idev jp = 1 \<longrightarrow> inum jp = inum ip \<longrightarrow> 1 \<le> iref jp \<longrightarrow> \<not> ivalid jp \<longrightarrow>
      (\<exists>u. ilock (Some i) (slmod (SInode i) (\<lambda>k. k\<lparr>slocked := False\<rparr>) (imod i (\<lambda>_. jp) t)) = Ret () u \<and>
        inodes u ! i = ip\<lparr>iref := iref jp, ivalid := True\<rparr> \<and> view u = view t))"
proof -
  have t1: "txn (Suc 1) (Suc 0) {} s" using t by (simp add: numeral_2_eq_2)
  have "\<exists>t. iupdate i s = Ret () t \<and> txn 1 0 {} t \<and> tframe {} s t \<and>
    view t = (view s)(IBLOCK (inum (inodes s ! i)) (sb s) := put_dinode (doff (inum (inodes s ! i))) (inodes s ! i) (view s (IBLOCK (inum (inodes s ! i)) (sb s))))"
    by (rule iupdate_total [OF t1]) (use ip b in simp_all)
  then obtain t where u: "iupdate i s = Ret () t" "txn (Suc 0) 0 {} t" "tframe {} s t" "view t = (view s)(blk := put_dinode (doff (inum ip)) ip (view s blk))"
    unfolding ip(1) [symmetric] b(1) [symmetric] One_nat_def by blast
  note f = tframe_fs [OF u(3)]
  have ds: "disksize t = disksize s" using u(3) by (simp add: tframe_def)
  have len: "doff (inum ip) + 64 \<le> length (view s blk)" using doff_block txn_length_view [OF t] by simp
  have "get_dinode (view t blk) (doff n) p = get_dinode (view s blk) (doff n) p" if "n \<noteq> inum ip" "IBLOCK n (sb s) = blk" for n p
    using doff_apart [OF that(1), of "sb s"] that(2) b(1) by (intro get_dinode_cong) (auto simp: u(4) nth_put_dinode)
  moreover have "\<exists>u. ilock (Some i) (slmod (SInode i) (\<lambda>k. k\<lparr>slocked := False\<rparr>) (imod i (\<lambda>_. jp) t)) = Ret () u \<and>
      inodes u ! i = ip\<lparr>iref := iref jp, ivalid := True\<rparr> \<and> view u = view t" if jp: "idev jp = 1" "inum jp = inum ip" "1 \<le> iref jp" "\<not> ivalid jp" for jp
  proof -
    let ?v = "slmod (SInode i) (\<lambda>k. k\<lparr>slocked := False\<rparr>) (imod i (\<lambda>_. jp) t)"
    have v: "txn (Suc 0) 0 {} ?v" using u(2) by simp
    have vi: "inodes ?v ! i = jp" "i < length (inodes ?v)" using i f by simp_all
    have g: "get_dinode (view t blk) (doff (inum ip)) jp = jp\<lparr>itype := itype ip, major := major ip, minor := minor ip, nlink := nlink ip, isize := isize ip, addrs := addrs ip\<rparr>"
      using get_put_dinode [OF ip(2) len] by (simp add: u(4))
    have e: "view ?v (IBLOCK (inum jp) (sb ?v)) = view t blk" "doff (inum jp) = doff (inum ip)" using jp(2) f b(1) by simp_all
    have "if itype (get_dinode (view t blk) (doff (inum ip)) jp) = 0 then ilock (Some i) ?v = Panic ''ilock: no type''
      else \<exists>w. ilock (Some i) ?v = Ret () w \<and> txn (Suc 0) 0 {} w \<and> view w = view ?v \<and> inodes w = (inodes ?v)[i := (get_dinode (view t blk) (doff (inum ip)) jp)\<lparr>ivalid := True\<rparr>] \<and> sb w = sb ?v \<and>
        disksize w = disksize ?v \<and> mine w (SInode i)"
    proof -
      have p: "card {} \<le> (0 :: nat)" "1 \<le> iref (inodes ?v ! i)" "\<not> slocked (sleeplocks ?v (SInode i))" "\<not> ivalid (inodes ?v ! i)"
        "idev (inodes ?v ! i) = 1" "IBLOCK (inum (inodes ?v ! i)) (sb ?v) < disksize ?v" unfolding vi(1) using jp b f ds by simp_all
      show ?thesis using ilock_total [OF v p(1) vi(2) p(2-6) emptyE] unfolding vi(1) e .
    qed
    then show ?thesis using ip(3,4) vi(2) jp inode_fields [of jp ip] unfolding g by auto
  qed
  ultimately show ?thesis using u(1,4) by (intro exI [of _ t]) simp
qed

text \<open>An inode of the example disk in the cache, entry 3.\<close>

definition ip1 :: inode where
  "ip1 = inode0\<lparr>idev := 1, inum := 5, iref := 1, ivalid := True, itype := 2, nlink := 1, addrs := replicate 13 0\<rparr>"

definition fsst1 :: fsst where
  "fsst1 = imod 3 (\<lambda>_. ip1) (fsst0 disk1)"

lemma fsst1_sel [simp]: "inodes fsst1 ! 3 = ip1" "3 < length (inodes fsst1)" "sb fsst1 = sb1" "view fsst1 = disk1" "disksize fsst1 = 40000"
  by (simp_all add: fsst1_def NINODE_def)

lemma txn_fsst1: "k \<le> NBUF \<Longrightarrow> m \<le> LOGSIZE \<Longrightarrow> txn k m {} fsst1"
  unfolding fsst1_def by (simp add: txn_mono [OF txn_fsst0] length_disk1)

theorem inode_roundtrip_witness:
  "\<exists>t. iupdate 3 fsst1 = Ret () t \<and>
    (\<exists>u. ilock (Some 3) (slmod (SInode 3) (\<lambda>k. k\<lparr>slocked := False\<rparr>) (imod 3 (\<lambda>_. inode0\<lparr>idev := 1, inum := 5, iref := 1\<rparr>) t)) = Ret () u \<and>
      inodes u ! 3 = ip1)"
proof -
  have d: "dinode_ok ip1" by (simp add: dinode_ok_def ip1_def inode0_def short_int_def)
  have i: "itype ip1 \<noteq> 0" "idev ip1 = 1" "inum ip1 = 5" "iref ip1 = 1" "ivalid ip1" by (simp_all add: ip1_def)
  have t: "txn 2 1 {} fsst1" by (rule txn_fsst1) (simp_all add: NBUF_def LOGSIZE_def)
  have b: "IBLOCK (inum ip1) (sb fsst1) < disksize fsst1" by (simp add: IBLOCK_def IPB_def BSIZE_def ip1_def sb1_def)
  have j: "idev (inode0\<lparr>idev := 1, inum := 5, iref := 1\<rparr>) = 1" "inum (inode0\<lparr>idev := 1, inum := 5, iref := 1\<rparr>) = inum ip1"
    "1 \<le> iref (inode0\<lparr>idev := 1, inum := 5, iref := 1\<rparr>)" "\<not> ivalid (inode0\<lparr>idev := 1, inum := 5, iref := 1\<rparr>)" by (simp_all add: i inode0_def)
  have e: "ip1\<lparr>iref := iref (inode0\<lparr>idev := 1, inum := 5, iref := 1\<rparr>), ivalid := True\<rparr> = ip1" by (simp add: ip1_def)
  show ?thesis using inode_roundtrip [OF t fsst1_sel(2) fsst1_sel(1) [symmetric] d i(1,2) refl b] j e by metis
qed

end
