(* ===== verification/Filemap.thy ===== *)
theory Filemap
  imports Inode
begin

text \<open>
  The block map of a file (\<^verbatim>\<open>src/xv6-public/fs.c\<close>: \<open>bmap\<close>): ten direct blocks, then one tree of each of the heights
  1, 2 and 3 with 128 children per node. \<open>tree_addr\<close> reads such a tree without changing it and \<open>tree_blocks\<close> is
  the set of its blocks. The four nested cases of \<open>bmap\<close> are one recursive descent \<open>walk\<close>
  (\<open>bmap_is_walk\<close>), so the proof that missing blocks are allocated, zeroed and linked in without disturbing any
  other block of the file is one induction on the height.
\<close>

unbundle bit_operations_syntax

section \<open>The blocks of a file\<close>

text \<open>
  \<open>bmap\<close> written once for every depth: \<open>walk d a bn\<close> goes down \<open>d\<close> levels of indirect blocks from block \<open>a\<close>, allocating
  what is missing, and gives the buffers back on the way up.
\<close>

primrec walk :: "nat \<Rightarrow> nat \<Rightarrow> nat \<Rightarrow> nat \<Rightarrow> ('z fsst_scheme, nat) kop" where
  "walk 0 dev a bn = kret a"
| "walk (Suc d) dev a bn =
     kbind (bread dev a) (\<lambda>bp.
     kbind (baddr dev bp (bn div NINDIRECT ^ d)) (\<lambda>e.
     kbind (walk d dev e (bn mod NINDIRECT ^ d)) (\<lambda>r.
     kseq (brelse bp)
       (kret r))))"

text \<open>Where block \<open>bn\<close> of a file hangs: the entry of \<open>addrs\<close>, the number of levels below it, and the number in that tree.\<close>

definition file_slot :: "nat \<Rightarrow> (nat \<times> nat \<times> nat) option" where
  "file_slot bn =
     (if bn < NDIRECT then Some (bn, 0, 0)
      else if bn < NDIRECT + NINDIRECT then Some (NDIRECT, 1, bn - NDIRECT)
      else if bn < NDIRECT + NINDIRECT + NINDIRECT ^ 2 then Some (NDIRECT + 1, 2, bn - NDIRECT - NINDIRECT)
      else if bn < MAXFILE then Some (NDIRECT + 2, 3, bn - NDIRECT - NINDIRECT - NINDIRECT ^ 2)
      else None)"

lemma kbind_assoc: "kbind (kbind m f) g = kbind m (\<lambda>x. kbind (f x) g)" "kbind (kseq m n) g = kseq m (kbind n g)"
  by (simp_all add: fun_eq_iff kbind_def kseq_def split: kres.split)

lemma kbind_kret_fun: "kbind (kret a) f = f a"
  by (simp add: fun_eq_iff)

lemma bmap_is_walk:
  "bmap ip bn = kbind (kget (\<lambda>s. idev (inodes s ! ip))) (\<lambda>dev.
     case file_slot bn of None \<Rightarrow> kpanic ''bmap: out of range''
     | Some (k, d, n) \<Rightarrow> kbind (iaddr ip k) (\<lambda>a. walk d dev a n))"
proof -
  have p: "NINDIRECT ^ 2 = NDINDIRECT" "NINDIRECT ^ 0 = 1" "NINDIRECT ^ 1 = NINDIRECT" by (simp_all add: fs_consts)
  have w1: "walk 1 dev a n = kbind (bread dev a) (\<lambda>bp. kbind (baddr dev bp n) (\<lambda>a. kseq (brelse bp) (kret a)))" for dev a n
    by (simp add: kbind_kret_fun)
  have w2: "walk 2 dev a n = kbind (bread dev a) (\<lambda>bp. kbind (baddr dev bp (n div NINDIRECT)) (\<lambda>a. kbind (bread dev a) (\<lambda>bp2.
      kbind (baddr dev bp2 (n mod NINDIRECT)) (\<lambda>a. kseq (brelse bp2) (kseq (brelse bp) (kret a))))))" for dev a n
    by (simp add: numeral_2_eq_2 kbind_kret_fun kbind_assoc)
  have w3: "walk 3 dev a n = kbind (bread dev a) (\<lambda>bp. kbind (baddr dev bp (n div NDINDIRECT)) (\<lambda>a. kbind (bread dev a) (\<lambda>bp2.
      kbind (baddr dev bp2 (n mod NDINDIRECT div NINDIRECT)) (\<lambda>a. kbind (bread dev a) (\<lambda>bp3.
      kbind (baddr dev bp3 (n mod NDINDIRECT mod NINDIRECT)) (\<lambda>a. kseq (brelse bp3) (kseq (brelse bp2) (kseq (brelse bp) (kret a)))))))))" for dev a n
    by (simp add: numeral_3_eq_3 kbind_kret_fun kbind_assoc NDINDIRECT_def)
  have w0: "kbind (iaddr ip k) (\<lambda>a. kret a) = iaddr ip k" for k by (simp add: fun_eq_iff kbind_def kret_def split: kres.split)
  show ?thesis
    by (rule ext) (auto simp: bmap_def file_slot_def Let_def w0 w1 w2 w3 p MAXFILE_def less_diff_conv2 diff_diff_left kbind_kret_fun)
qed

text \<open>
  The tree below an indirect block, read off the contents \<open>v\<close> of the disk: where it leads, which blocks it consists
  of, and that no block occurs in it twice.
\<close>

definition ind :: "(nat \<Rightarrow> byte list) \<Rightarrow> nat \<Rightarrow> nat \<Rightarrow> nat" where
  "ind v a k = unat (get32 (4 * k) (v a))"

primrec tree_addr :: "(nat \<Rightarrow> byte list) \<Rightarrow> nat \<Rightarrow> nat \<Rightarrow> nat \<Rightarrow> nat" where
  "tree_addr v 0 a bn = a"
| "tree_addr v (Suc d) a bn = (if a = 0 then 0 else tree_addr v d (ind v a (bn div NINDIRECT ^ d)) (bn mod NINDIRECT ^ d))"

primrec tree_blocks :: "(nat \<Rightarrow> byte list) \<Rightarrow> nat \<Rightarrow> nat \<Rightarrow> nat set" where
  "tree_blocks v 0 a = (if a = 0 then {} else {a})"
| "tree_blocks v (Suc d) a = (if a = 0 then {} else insert a (\<Union>k < NINDIRECT. tree_blocks v d (ind v a k)))"

primrec tree_ok :: "(nat \<Rightarrow> byte list) \<Rightarrow> nat \<Rightarrow> nat \<Rightarrow> bool" where
  "tree_ok v 0 a = True"
| "tree_ok v (Suc d) a = (a = 0 \<or> (\<forall>k < NINDIRECT. tree_ok v d (ind v a k) \<and> a \<notin> tree_blocks v d (ind v a k) \<and>
     (\<forall>j < NINDIRECT. j \<noteq> k \<longrightarrow> tree_blocks v d (ind v a j) \<inter> tree_blocks v d (ind v a k) = {})))"

lemma div_index: "bn < NINDIRECT ^ Suc d \<Longrightarrow> bn div NINDIRECT ^ d < NINDIRECT" "bn mod NINDIRECT ^ d < NINDIRECT ^ d"
  by (simp_all add: less_mult_imp_div_less mult.commute fs_consts)

lemma tree_frame:
  assumes "\<And>b. b \<in> tree_blocks v d a \<Longrightarrow> v' b = v b"
  shows "tree_blocks v' d a = tree_blocks v d a \<and> tree_ok v' d a = tree_ok v d a \<and> (\<forall>bn < NINDIRECT ^ d. tree_addr v' d a bn = tree_addr v d a bn)"
  using assms
proof (induction d arbitrary: a)
  case 0
  then show ?case by simp
next
  case (Suc d)
  show ?case
  proof (cases "a = 0")
    case False
    have i: "ind v' a k = ind v a k" for k using Suc.prems [of a] False by (simp add: ind_def)
    have IH: "tree_blocks v' d (ind v a k) = tree_blocks v d (ind v a k) \<and> tree_ok v' d (ind v a k) = tree_ok v d (ind v a k) \<and>
        (\<forall>bn < NINDIRECT ^ d. tree_addr v' d (ind v a k) bn = tree_addr v d (ind v a k) bn)" if "k < NINDIRECT" for k
      using that False by (intro Suc.IH Suc.prems) auto
    show ?thesis using IH False div_index [of _ d] by (auto simp: i simp del: power_Suc)
  qed simp
qed

lemma tree_zero [simp]: "tree_addr v d 0 bn = 0" "tree_blocks v d 0 = {}" "tree_ok v d 0"
  by (cases d; simp)+

lemma tree_addr_blocks:
  "bn < NINDIRECT ^ d \<Longrightarrow> tree_addr v d a bn \<noteq> 0 \<Longrightarrow> tree_addr v d a bn \<in> tree_blocks v d a"
proof (induction d arbitrary: a bn)
  case (Suc d)
  let ?k = "bn div NINDIRECT ^ d"
  have a: "a \<noteq> 0" "tree_addr v d (ind v a ?k) (bn mod NINDIRECT ^ d) \<noteq> 0" using Suc.prems(2) by (auto split: if_splits)
  have "?k < NINDIRECT" using Suc.prems(1) by (rule div_index(1))
  moreover have "tree_addr v d (ind v a ?k) (bn mod NINDIRECT ^ d) \<in> tree_blocks v d (ind v a ?k)"
    using Suc.IH [OF div_index(2) a(2)] .
  ultimately show ?case using a(1) by auto
qed auto

text \<open>A block of zeros is the root of an empty tree.\<close>

lemma ind_zeros: "v a = replicate BSIZE 0 \<Longrightarrow> k < NINDIRECT \<Longrightarrow> ind v a k = 0"
  by (simp add: ind_def get32_def fs_consts BSIZE_def)

lemma tree_fresh:
  assumes "v a = replicate BSIZE 0" and "a \<noteq> 0"
  shows "tree_blocks v d a = {a}" and "tree_ok v d a" and "bn < NINDIRECT ^ d \<Longrightarrow> tree_addr v d a bn = (if d = 0 then a else 0)"
  using assms div_index(1) [of bn "d - 1"] by (cases d; auto simp: ind_zeros simp del: power_Suc)+

text \<open>Changing one entry of an indirect block.\<close>

lemma ind_put:
  assumes "length (v a) = BSIZE" and "j < NINDIRECT" and "k < NINDIRECT" and "e < 2 ^ 32"
  shows "ind (v(a := put32 (4 * j) (of_nat e) (v a))) a k = (if k = j then e else ind v a k)"
proof (cases "k = j")
  case True
  then show ?thesis using assms by (simp add: ind_def get32_put32 fs_consts BSIZE_def unat_of_nat)
next
  case False
  then have "4 * k + 3 < 4 * j \<or> 4 * j + 3 < 4 * k" by auto
  then show ?thesis using False by (simp add: ind_def get32_put32_other)
qed

section \<open>Growing\<close>

text \<open>
  \<open>grow b v W N v'\<close>: from \<open>v\<close> to \<open>v'\<close> the free blocks \<open>N\<close> have been allocated, and beside them only blocks in \<open>W\<close> and the free map
  changed.
\<close>

definition bitmap :: "superblock \<Rightarrow> nat set" where
  "bitmap b = (\<lambda>n. BBLOCK n b) ` {..<sb_size b}"

definition free_set :: "superblock \<Rightarrow> (nat \<Rightarrow> byte list) \<Rightarrow> nat set" where
  "free_set b v = {n. n < sb_size b \<and> \<not> block_used b v n}"

definition map_ok :: "superblock \<Rightarrow> (nat \<Rightarrow> byte list) \<Rightarrow> bool" where
  "map_ok b v \<longleftrightarrow> sb_size b < 2 ^ 32 \<and> bitmap b \<inter> free_set b v = {} \<and> 0 \<notin> free_set b v"

definition grow :: "superblock \<Rightarrow> (nat \<Rightarrow> byte list) \<Rightarrow> nat set \<Rightarrow> nat set \<Rightarrow> (nat \<Rightarrow> byte list) \<Rightarrow> bool" where
  "grow b v W N v' \<longleftrightarrow> N \<subseteq> free_set b v \<and> free_set b v' = free_set b v - N \<and>
     (\<forall>n. n \<notin> W \<longrightarrow> n \<notin> N \<longrightarrow> n \<notin> bitmap b \<longrightarrow> v' n = v n)"

lemma grow_refl [simp]: "grow b v {} {} v"
  by (simp add: grow_def)

lemma grow_trans: "grow b v W N v1 \<Longrightarrow> grow b v1 W' N' v2 \<Longrightarrow> grow b v (W \<union> W') (N \<union> N') v2"
  by (auto simp: grow_def)

lemma grow_mono: "grow b v W N v' \<Longrightarrow> W \<subseteq> W' \<union> N \<Longrightarrow> grow b v W' N v'"
  by (auto simp: grow_def)

lemma grow_map_ok: "map_ok b v \<Longrightarrow> grow b v W N v' \<Longrightarrow> map_ok b v'"
  by (auto simp: grow_def map_ok_def)

lemma finite_free [simp]: "finite (free_set b v)"
  by (simp add: free_set_def)

lemma grow_card: "grow b v W N v' \<Longrightarrow> card (free_set b v) = card (free_set b v') + card N"
  by (auto simp: grow_def card_Diff_subset card_mono finite_subset [OF _ finite_free])

lemma grow_balloc:
  assumes "map_ok b v" and "n \<in> free_set b v" and "length (v (BBLOCK n b)) = BSIZE"
  shows "grow b v {} {n} (balloc_view b n v)" and "balloc_view b n v n = replicate BSIZE 0"
proof -
  have n: "n \<notin> bitmap b" using assms(1,2) by (auto simp: map_ok_def)
  have nb: "BBLOCK m b \<noteq> n" if "m < sb_size b" for m using n that by (auto simp: bitmap_def)
  have len: "n mod BPB < 8 * length (v (BBLOCK n b))" using assms(3) by (simp add: BSIZE_def BPB_def)
  have "block_used b (balloc_view b n v) m = (m = n \<or> block_used b v m)" if "m < sb_size b" for m
  proof (cases "BBLOCK m b = BBLOCK n b")
    case True
    then have "m div BPB = n div BPB" by (simp add: BBLOCK_def)
    then have e: "m = n \<longleftrightarrow> n mod BPB = m mod BPB" by (metis div_mult_mod_eq)
    show ?thesis using True nb [OF that] unfolding e by (simp add: block_used_def balloc_view_def bit_used_set [OF len])
  next
    case False
    then show ?thesis using nb [OF that] by (auto simp: block_used_def balloc_view_def)
  qed
  then have "free_set b (balloc_view b n v) = free_set b v - {n}" by (auto simp: free_set_def)
  moreover have "BBLOCK n b \<in> bitmap b" using assms(2) by (auto simp: bitmap_def free_set_def)
  ultimately show "grow b v {} {n} (balloc_view b n v)" using assms(2) by (auto simp: grow_def balloc_view_def)
  show "balloc_view b n v n = replicate BSIZE 0" by (simp add: balloc_view_def)
qed

lemma tree_step:
  assumes a: "a \<noteq> 0" and ok: "tree_ok v (Suc d) a" and used: "tree_blocks v (Suc d) a \<inter> (bitmap b \<union> free_set b v) = {}" and idx: "idx < NINDIRECT"
    and g1: "grow b v {a} N1 v2" and i2: "\<forall>k < NINDIRECT. ind v2 a k = (if k = idx then e else ind v a k)"
    and b2: "tree_blocks v2 d e = tree_blocks v d (ind v a idx) \<union> N1"
    and g3: "grow b v2 (tree_blocks v2 d e) N2 v3" and b3: "tree_blocks v3 d e = tree_blocks v2 d e \<union> N2" and ok3: "tree_ok v3 d e"
  shows "grow b v (tree_blocks v (Suc d) a) (N1 \<union> N2) v3" and "tree_blocks v3 (Suc d) a = tree_blocks v (Suc d) a \<union> (N1 \<union> N2)"
    and "tree_ok v3 (Suc d) a" and "\<And>k. k < NINDIRECT \<Longrightarrow> ind v3 a k = (if k = idx then e else ind v a k)"
    and "\<And>k n. k < NINDIRECT \<Longrightarrow> k \<noteq> idx \<Longrightarrow> n \<in> tree_blocks v d (ind v a k) \<Longrightarrow> v3 n = v n"
proof -
  let ?T = "\<lambda>k. tree_blocks v d (ind v a k)"
  have N: "N1 \<subseteq> free_set b v" "N2 \<subseteq> free_set b v - N1" using g1 g3 by (auto simp: grow_def)
  have sub: "a \<in> tree_blocks v (Suc d) a" "\<And>k. k < NINDIRECT \<Longrightarrow> ?T k \<subseteq> tree_blocks v (Suc d) a" using a by auto
  have dis: "tree_ok v d (ind v a k)" "a \<notin> ?T k" "\<And>j. j < NINDIRECT \<Longrightarrow> j \<noteq> k \<Longrightarrow> ?T j \<inter> ?T k = {}" if "k < NINDIRECT" for k
    using ok a that by auto
  have aN: "a \<notin> N1" "a \<notin> N2" "a \<notin> bitmap b" using used sub(1) N by auto
  have "v3 a = v2 a" using g3 aN dis(2) [OF idx] unfolding b2 by (simp add: grow_def)
  then show i3: "ind v3 a k = (if k = idx then e else ind v a k)" if "k < NINDIRECT" for k using i2 that by (simp add: ind_def)
  show sib: "v3 n = v n" if "k < NINDIRECT" "k \<noteq> idx" "n \<in> ?T k" for k n
  proof -
    have "n \<in> tree_blocks v (Suc d) a" using sub(2) [OF that(1)] that(3) by blast
    then have "n \<notin> bitmap b" "n \<notin> N1" "n \<notin> N2" using used N by auto
    moreover have "n \<notin> ?T idx" "n \<noteq> a" using dis(3) [OF idx that(1,2)] dis(2) [OF that(1)] that(3) by auto
    ultimately show ?thesis using g1 g3 unfolding b2 by (simp add: grow_def)
  qed
  note fr = tree_frame [of v d "ind v a k" v3 for k]
  have T3: "tree_blocks v3 d (ind v3 a k) = (if k = idx then ?T idx \<union> N1 \<union> N2 else ?T k)" if "k < NINDIRECT" for k
    using fr [of k] sib [OF that] i3 [OF that] b2 b3 by auto
  have "tree_blocks v3 (Suc d) a = insert a (\<Union>k < NINDIRECT. if k = idx then ?T idx \<union> N1 \<union> N2 else ?T k)" using a T3 by simp
  also have "\<dots> = tree_blocks v (Suc d) a \<union> (N1 \<union> N2)" using a idx by (auto split: if_splits)
  finally show "tree_blocks v3 (Suc d) a = tree_blocks v (Suc d) a \<union> (N1 \<union> N2)" .
  have nu: "?T k \<inter> (N1 \<union> N2) = {}" if "k < NINDIRECT" for k using sub(2) [OF that] used N by blast
  have okk: "tree_ok v3 d (ind v3 a k)" if "k < NINDIRECT" for k
    using fr [of k] sib [OF that] i3 [OF that] dis(1) [OF that] ok3 by auto
  have "a \<notin> tree_blocks v3 d (ind v3 a k)" if "k < NINDIRECT" for k using T3 [OF that] dis(2) that idx aN by auto
  moreover have "tree_blocks v3 d (ind v3 a j) \<inter> tree_blocks v3 d (ind v3 a k) = {}" if "k < NINDIRECT" "j < NINDIRECT" "j \<noteq> k" for j k
    using T3 [OF that(1)] T3 [OF that(2)] dis(3) [OF that] nu [OF that(1)] nu [OF that(2)] that(3) by (auto split: if_splits)
  ultimately show "tree_ok v3 (Suc d) a" using okk by simp
  have "grow b v ({a} \<union> tree_blocks v2 d e) (N1 \<union> N2) v3" using g1 g3 by (rule grow_trans)
  moreover have "{a} \<union> tree_blocks v2 d e \<subseteq> tree_blocks v (Suc d) a \<union> (N1 \<union> N2)" using sub idx unfolding b2 by blast
  ultimately show "grow b v (tree_blocks v (Suc d) a) (N1 \<union> N2) v3" by (rule grow_mono)
qed

lemma apart_iff: "apart H s \<longleftrightarrow> (\<forall>i \<in> H. blockno (bufs s ! i) \<notin> bitmap (sb s) \<union> free_set (sb s) (view s))"
  by (auto simp: apart_def bitmap_def free_set_def)

lemma balloc_grows:
  assumes t: "txn (Suc (Suc k)) (Suc (Suc m)) H s" and k: "card H \<le> k" and g: "fs_geom s" and a: "apart H s" and mo: "map_ok (sb s) (view s)"
    and f: "free_set (sb s) (view s) \<noteq> {}"
  shows "\<exists>n t. balloc 1 s = Ret n t \<and> n \<in> free_set (sb s) (view s) \<and> grow (sb s) (view s) {} {n} (view t) \<and> view t n = replicate BSIZE 0 \<and>
    txn k m H t \<and> tframe H s t"
proof -
  from f obtain n0 where n0: "n0 < sb_size (sb s)" "\<not> block_used (sb s) (view s) n0" by (auto simp: free_set_def)
  from balloc_total [OF t k g a n0] obtain n t where n: "balloc 1 s = Ret n t" "n < sb_size (sb s)" "\<not> block_used (sb s) (view s) n"
    "txn k m H t" "tframe H s t" "view t = balloc_view (sb s) n (view s)" by blast
  have nf: "n \<in> free_set (sb s) (view s)" using n(2,3) by (simp add: free_set_def)
  from grow_balloc [OF mo nf txn_length_view [OF t]] have "grow (sb s) (view s) {} {n} (view t)" "view t n = replicate BSIZE 0" by (simp_all add: n(6))
  then show ?thesis using n(1,4,5) nf by blast
qed

lemma grow_put:
  assumes "grow b v W N v'" and "a \<notin> bitmap b"
  shows "grow b v (insert a W) N (v'(a := x))"
proof -
  have "block_used b (v'(a := x)) n = block_used b v' n" if "n < sb_size b" for n
    using assms(2) that by (auto simp: block_used_def bitmap_def)
  then have "free_set b (v'(a := x)) = free_set b v'" by (auto simp: free_set_def)
  then show ?thesis using assms(1) by (auto simp: grow_def)
qed

text \<open>Following one entry of an indirect block, or allocating a block for it.\<close>

lemma baddr_total:
  assumes t: "txn (k + 3) (m + 3) H s" and k: "card H \<le> k" and bp: "bp \<in> H" "blockno (bufs s ! bp) = a"
    and g: "fs_geom s" and ap: "apart H s" and mo: "map_ok (sb s) (view s)" and f: "free_set (sb s) (view s) \<noteq> {}" and idx: "idx < NINDIRECT"
  defines "v \<equiv> view s" and "e0 \<equiv> ind (view s) a idx"
  shows "\<exists>e N t. baddr 1 bp idx s = Ret e t \<and> txn k m H t \<and> tframe H s t \<and> e \<noteq> 0 \<and> grow (sb s) v {a} N (view t) \<and>
    (\<forall>k < NINDIRECT. ind (view t) a k = (if k = idx then e else ind v a k)) \<and>
    (if e0 \<noteq> 0 then e = e0 \<and> view t = v \<and> N = {} else N = {e} \<and> view t e = replicate BSIZE 0)"
proof -
  have d: "bdata (bufs s ! bp) = view s a" using held_view(1) [OF t bp(1)] bp(2) by simp
  have a: "a \<notin> bitmap (sb s)" "a \<notin> free_set (sb s) (view s)" using ap bp by (auto simp: apart_iff)
  show ?thesis
  proof (cases "e0 = 0")
    case False
    then have "baddr 1 bp idx s = Ret e0 s" by (simp add: baddr_def d e0_def ind_def kret_def)
    moreover have "txn k m H s" by (rule txn_mono [OF t]) simp_all
    moreover have "grow (sb s) v {a} {} v" by (simp add: grow_def)
    ultimately show ?thesis using False by (intro exI [of _ e0] exI [of _ "{}"] exI [of _ s]) (simp add: v_def e0_def)
  next
    case True
    have t2: "txn (Suc (Suc (Suc k))) (Suc (Suc (Suc m))) H s" using t by (simp add: eval_nat_numeral)
    have k2: "card H \<le> Suc k" using k by simp
    from balloc_grows [OF t2 k2 g ap mo f] obtain e u where u: "balloc 1 s = Ret e u" "e \<in> free_set (sb s) v" "grow (sb s) v {} {e} (view u)" "view u e = replicate BSIZE 0"
      "txn (Suc k) (Suc m) H u" "tframe H s u" unfolding v_def by blast
    have bu: "blockno (bufs u ! bp) = a" using u(6) bp by (simp add: tframe_def)
    have du: "bdata (bufs u ! bp) = view u a" using held_view(1) [OF u(5) bp(1)] bu by simp
    have "length (put32 (4 * idx) (of_nat e) (bdata (bufs u ! bp))) = BSIZE" using du txn_length_view [OF u(5)] by simp
    from txn_write [where f = "put32 (4 * idx) (of_nat e)", OF u(5) bp(1) this] obtain w where
      w: "log_write bp (bmod bp (\<lambda>b. b\<lparr>bdata := put32 (4 * idx) (of_nat e) (bdata b)\<rparr>) u) = Ret () w" "txn k m H w"
        "view w = (view u)(a := put32 (4 * idx) (of_nat e) (view u a))" "tframe H u w" unfolding bu by blast
    have ea: "e \<noteq> a" using u(2) a(2) by (auto simp: v_def)
    have e: "e \<noteq> 0" "e < 2 ^ 32" using mo u(2) by (auto simp: map_ok_def v_def free_set_def)
    have va: "view u a = v a" using u(3) ea a by (simp add: grow_def)
    have "ind (view w) a k = (if k = idx then e else ind v a k)" if "k < NINDIRECT" for k
      using ind_put [where v = "view u" and a = a, OF txn_length_view [OF u(5)] idx that e(2)] va by (simp add: w(3) ind_def)
    moreover have "grow (sb s) v {a} {e} (view w)" unfolding w(3) using u(3) a(1) by (rule grow_put)
    moreover have "view w e = replicate BSIZE 0" using u(4) ea by (simp add: w(3))
    moreover have "baddr 1 bp idx s = Ret e w" using True u(1) w(1)
      by (simp add: baddr_def d e0_def ind_def kbind_Ret [of "balloc x" for x] kseq_Ret [of "log_write bp"] del: One_nat_def)
    moreover have "tframe H s w" using u(6) w(4) by (rule tframe_trans)
    ultimately show ?thesis using w(2) e(1) True by (intro exI [of _ e] exI [of _ "{e}"] exI [of _ w]) simp
  qed
qed

text \<open>
  What \<open>walk\<close> needs: a tree of used blocks, none of them held, and free blocks for the levels that may be missing.
  What it gives: block \<open>bn\<close> of the tree exists afterwards; every other block of the tree is where it
  was, with the same contents; a block that did not exist is new and full of zeros.
\<close>

definition walk_pre :: "nat \<Rightarrow> nat \<Rightarrow> nat set \<Rightarrow> 'z fsst_scheme \<Rightarrow> bool" where
  "walk_pre d a H s \<longleftrightarrow> a \<noteq> 0 \<and> tree_ok (view s) d a \<and>
     tree_blocks (view s) d a \<subseteq> {..<sb_size (sb s)} - (bitmap (sb s) \<union> free_set (sb s) (view s)) \<and>
     (\<forall>i \<in> H. blockno (bufs s ! i) \<notin> tree_blocks (view s) d a) \<and> apart H s \<and> fs_geom s \<and> map_ok (sb s) (view s) \<and>
     d \<le> card (free_set (sb s) (view s))"

definition walk_post :: "superblock \<Rightarrow> nat \<Rightarrow> nat \<Rightarrow> nat \<Rightarrow> (nat \<Rightarrow> byte list) \<Rightarrow> nat \<Rightarrow> nat set \<Rightarrow> (nat \<Rightarrow> byte list) \<Rightarrow> bool" where
  "walk_post b d a bn v r N v' \<longleftrightarrow> r \<noteq> 0 \<and> grow b v (tree_blocks v d a) N v' \<and> card N \<le> d \<and>
     tree_blocks v' d a = tree_blocks v d a \<union> N \<and> tree_ok v' d a \<and> tree_addr v' d a bn = r \<and>
     (\<forall>n < NINDIRECT ^ d. n \<noteq> bn \<longrightarrow> tree_addr v' d a n = tree_addr v d a n \<and>
        (tree_addr v d a n \<noteq> 0 \<longrightarrow> v' (tree_addr v d a n) = v (tree_addr v d a n))) \<and>
     (if tree_addr v d a bn \<noteq> 0 then r = tree_addr v d a bn \<and> v' = v \<and> N = {} else r \<in> N \<and> v' r = replicate BSIZE 0)"

lemma walk_pre_next:
  assumes pre: "walk_pre (Suc d) a H s" and idx: "idx < NINDIRECT" and f: "tframe (insert bp H) u t" "sb u = sb s" "view u = view s"
    and bp: "\<And>i. i \<in> H \<Longrightarrow> blockno (bufs u ! i) = blockno (bufs s ! i)" "blockno (bufs u ! bp) = a" and gu: "fs_geom u"
    and e: "e \<noteq> 0" "grow (sb s) (view s) {a} N (view t)"
    and c: "if ind (view s) a idx \<noteq> 0 then e = ind (view s) a idx \<and> view t = view s \<and> N = {} else N = {e} \<and> view t e = replicate BSIZE 0"
  shows "walk_pre d e (insert bp H) t" and "tree_blocks (view t) d e = tree_blocks (view s) d (ind (view s) a idx) \<union> N"
proof -
  let ?v = "view s" and ?b = "sb s"
  have p: "a \<noteq> 0" "tree_ok ?v (Suc d) a" "tree_blocks ?v (Suc d) a \<subseteq> {..<sb_size ?b} - (bitmap ?b \<union> free_set ?b ?v)"
    "\<forall>i \<in> H. blockno (bufs s ! i) \<notin> tree_blocks ?v (Suc d) a" "apart H s" "map_ok ?b ?v" "Suc d \<le> card (free_set ?b ?v)"
    using pre unfolding walk_pre_def by blast+
  have sbt: "sb t = ?b" using tframe_fs [OF f(1)] f(2) by simp
  have bt: "blockno (bufs t ! i) = blockno (bufs s ! i)" if "i \<in> H" for i using f(1) bp(1) that by (simp add: tframe_def)
  have ba: "blockno (bufs t ! bp) = a" using f(1) bp(2) by (simp add: tframe_def)
  have fr: "free_set ?b (view t) \<subseteq> free_set ?b ?v" using e(2) by (auto simp: grow_def)
  have aa: "a \<in> tree_blocks ?v (Suc d) a" using p(1) by simp
  have sub: "tree_blocks ?v d (ind ?v a idx) \<subseteq> tree_blocks ?v (Suc d) a" "a \<notin> tree_blocks ?v d (ind ?v a idx)" "tree_ok ?v d (ind ?v a idx)"
    using p(1,2) idx by auto
  have T: "tree_blocks (view t) d e = tree_blocks ?v d (ind ?v a idx) \<union> N \<and> tree_ok (view t) d e"
  proof (cases "ind ?v a idx = 0")
    case True
    then show ?thesis using c tree_fresh(1,2) [of "view t" e d] e(1) by simp
  next
    case False
    then show ?thesis using c sub(3) by simp
  qed
  then show "tree_blocks (view t) d e = tree_blocks ?v d (ind ?v a idx) \<union> N" ..
  have N: "N \<subseteq> free_set ?b ?v" "N \<inter> free_set ?b (view t) = {}" "card (free_set ?b ?v) = card (free_set ?b (view t)) + card N"
    using e(2) grow_card [OF e(2)] by (auto simp: grow_def)
  have "card N \<le> 1" using c by (auto split: if_splits)
  then have "d \<le> card (free_set ?b (view t))" using p(7) N(3) by simp
  moreover have "tree_blocks (view t) d e \<subseteq> {..<sb_size ?b} - (bitmap ?b \<union> free_set ?b (view t))"
  proof -
    have "N \<subseteq> {..<sb_size ?b} - bitmap ?b" using N(1) p(6) by (auto simp: map_ok_def free_set_def)
    then show ?thesis using T sub(1) p(3) fr N(2) by blast
  qed
  moreover have "\<forall>i \<in> insert bp H. blockno (bufs t ! i) \<notin> tree_blocks (view t) d e"
  proof
    fix i assume "i \<in> insert bp H"
    then have "blockno (bufs t ! i) \<notin> free_set ?b ?v" "blockno (bufs t ! i) \<notin> tree_blocks ?v d (ind ?v a idx)"
      using p(3,4,5) aa sub(1,2) bt ba by (auto simp: apart_iff)
    then show "blockno (bufs t ! i) \<notin> tree_blocks (view t) d e" using T N(1) by blast
  qed
  moreover have "apart (insert bp H) t" using p(3,5) aa fr bt ba unfolding apart_iff sbt by auto
  moreover have "fs_geom t" using gu f(1) by (rule fs_geom_frame)
  moreover have "map_ok ?b (view t)" using p(6) e(2) by (rule grow_map_ok)
  ultimately show "walk_pre d e (insert bp H) t" using T e(1) by (simp add: walk_pre_def sbt)
qed

lemma walk_post_Suc:
  assumes pre: "a \<noteq> 0" "tree_ok v (Suc d) a" "tree_blocks v (Suc d) a \<inter> (bitmap b \<union> free_set b v) = {}" and bn: "bn < NINDIRECT ^ Suc d"
    and g1: "grow b v {a} N1 v2" and i2: "\<forall>k < NINDIRECT. ind v2 a k = (if k = bn div NINDIRECT ^ d then e else ind v a k)"
    and b2: "tree_blocks v2 d e = tree_blocks v d (ind v a (bn div NINDIRECT ^ d)) \<union> N1"
    and c: "if ind v a (bn div NINDIRECT ^ d) \<noteq> 0 then e = ind v a (bn div NINDIRECT ^ d) \<and> v2 = v \<and> N1 = {} else N1 = {e} \<and> v2 e = replicate BSIZE 0"
    and e: "e \<noteq> 0" and post: "walk_post b d e (bn mod NINDIRECT ^ d) v2 r N2 v3"
  shows "walk_post b (Suc d) a bn v r (N1 \<union> N2) v3"
proof -
  let ?idx = "bn div NINDIRECT ^ d" and ?m = "bn mod NINDIRECT ^ d"
  have idx: "?idx < NINDIRECT" using bn by (rule div_index(1))
  have P: "r \<noteq> 0" "grow b v2 (tree_blocks v2 d e) N2 v3" "card N2 \<le> d" "tree_blocks v3 d e = tree_blocks v2 d e \<union> N2" "tree_ok v3 d e" "tree_addr v3 d e ?m = r"
    "\<And>n. n < NINDIRECT ^ d \<Longrightarrow> n \<noteq> ?m \<Longrightarrow> tree_addr v3 d e n = tree_addr v2 d e n \<and> (tree_addr v2 d e n \<noteq> 0 \<longrightarrow> v3 (tree_addr v2 d e n) = v2 (tree_addr v2 d e n))"
    "if tree_addr v2 d e ?m \<noteq> 0 then r = tree_addr v2 d e ?m \<and> v3 = v2 \<and> N2 = {} else r \<in> N2 \<and> v3 r = replicate BSIZE 0"
    using post unfolding walk_post_def by blast+
  note S = tree_step [OF pre idx g1 i2 b2 P(2,4,5)]
  have "card N1 \<le> 1" using c by (auto split: if_splits)
  then have "card (N1 \<union> N2) \<le> Suc d" using P(3) card_Un_le [of N1 N2] by simp
  moreover have "tree_addr v3 (Suc d) a bn = r" using pre(1) S(4) [OF idx] P(6) by simp
  moreover have "tree_addr v3 (Suc d) a n = tree_addr v (Suc d) a n \<and>
      (tree_addr v (Suc d) a n \<noteq> 0 \<longrightarrow> v3 (tree_addr v (Suc d) a n) = v (tree_addr v (Suc d) a n))" if n: "n < NINDIRECT ^ Suc d" "n \<noteq> bn" for n
  proof -
    let ?j = "n div NINDIRECT ^ d" and ?l = "n mod NINDIRECT ^ d"
    have j: "?j < NINDIRECT" "?l < NINDIRECT ^ d" using div_index(1) [OF n(1)] div_index(2) by blast+
    show ?thesis
    proof (cases "?j = ?idx")
      case True
      then have "?l \<noteq> ?m" using n(2) by (metis div_mult_mod_eq)
      note Q = P(7) [OF j(2) this]
      show ?thesis
      proof (cases "ind v a ?idx = 0")
        case False
        then show ?thesis using c Q True pre(1) S(4) [OF idx] by simp
      next
        case True2: True
        then have z: "v2 e = replicate BSIZE 0" using c by simp
        have "d \<noteq> 0" using \<open>?l \<noteq> ?m\<close> by (cases d) simp_all
        then have "tree_addr v2 d e ?l = 0" using tree_fresh(3) [of v2 e, OF z e j(2)] by simp
        then show ?thesis using Q True True2 pre(1) S(4) [OF idx] by simp
      qed
    next
      case False
      have fr: "tree_addr v3 d (ind v a ?j) ?l = tree_addr v d (ind v a ?j) ?l"
        using tree_frame [of v d "ind v a ?j" v3] S(5) [OF j(1) False] j(2) by blast
      have "tree_addr v d (ind v a ?j) ?l \<noteq> 0 \<Longrightarrow> tree_addr v d (ind v a ?j) ?l \<in> tree_blocks v d (ind v a ?j)" using j(2) by (rule tree_addr_blocks)
      then show ?thesis using fr False S(4) [OF j(1)] S(5) [OF j(1) False] pre(1) by simp
    qed
  qed
  moreover have "if tree_addr v (Suc d) a bn \<noteq> 0 then r = tree_addr v (Suc d) a bn \<and> v3 = v \<and> N1 \<union> N2 = {} else r \<in> N1 \<union> N2 \<and> v3 r = replicate BSIZE 0"
  proof (cases "ind v a ?idx = 0")
    case True
    then have z: "N1 = {e}" "v2 e = replicate BSIZE 0" using c by simp_all
    have f: "tree_addr v2 d e ?m = (if d = 0 then e else 0)" using tree_fresh(3) [of v2 e, OF z(2) e div_index(2)] .
    show ?thesis
    proof (cases "d = 0")
      case d: True
      then show ?thesis using P(8) f True e z pre(1) by simp
    next
      case False
      then show ?thesis using P(8) f True pre(1) by simp
    qed
  next
    case False
    then show ?thesis using c P(8) pre(1) by simp
  qed
  ultimately show ?thesis unfolding walk_post_def using P(1) S(1-3) by blast
qed

lemma walk_total:
  assumes "txn (k + 4 * d) (m + 3 * d) H s" and "card H \<le> k" and "walk_pre d a H s" and "bn < NINDIRECT ^ d"
  shows "\<exists>r N t. walk d 1 a bn s = Ret r t \<and> txn k m H t \<and> tframe H s t \<and> walk_post (sb s) d a bn (view s) r N (view t)"
  using assms
proof (induction d arbitrary: k H s a bn)
  case 0
  then show ?case by (intro exI [of _ a] exI [of _ "{}"] exI [of _ s]) (auto simp: walk_pre_def walk_post_def grow_def kret_def)
next
  case (Suc d)
  let ?v = "view s" and ?b = "sb s" and ?idx = "bn div NINDIRECT ^ d"
  have p: "a \<noteq> 0" "tree_ok ?v (Suc d) a" "tree_blocks ?v (Suc d) a \<subseteq> {..<sb_size ?b} - (bitmap ?b \<union> free_set ?b ?v)"
    "\<forall>i \<in> H. blockno (bufs s ! i) \<notin> tree_blocks ?v (Suc d) a" "apart H s" "fs_geom s" "map_ok ?b ?v" "Suc d \<le> card (free_set ?b ?v)"
    using Suc.prems(3) unfolding walk_pre_def by blast+
  have idx: "?idx < NINDIRECT" using Suc.prems(4) by (rule div_index(1))
  have aa: "a \<in> tree_blocks ?v (Suc d) a" using p(1) by simp
  have "a < disksize s" using p(3,6) aa by (auto simp: fs_geom_def)
  moreover have "card H < k + 4 * Suc d" using Suc.prems(2) by simp
  moreover have "blockno (bufs s ! i) \<noteq> a" if "i \<in> H" for i using p(4) aa that by auto
  ultimately obtain bp u where u: "bread 1 a s = Ret bp u" "txn (k + 4 * Suc d) (m + 3 * Suc d) (insert bp H) u" "bp \<notin> H" "blockno (bufs u ! bp) = a" "synced u bp"
    "view u = ?v" "tframe H s u" using txn_bread [OF Suc.prems(1)] by blast
  have sbu: "sb u = ?b" using tframe_fs [OF u(7)] by simp
  have bu: "blockno (bufs u ! i) = blockno (bufs s ! i)" if "i \<in> H" for i using u(7) that by (simp add: tframe_def)
  have gu: "fs_geom u" using p(6) u(7) by (rule fs_geom_frame)
  have t1: "txn ((Suc k + 4 * d) + 3) ((m + 3 * d) + 3) (insert bp H) u" by (rule txn_mono [OF u(2)]) simp_all
  have k1: "card (insert bp H) \<le> Suc k + 4 * d" using Suc.prems(2) card_insert_le_m1 [of "Suc k" H bp] txn_finite [OF Suc.prems(1)] by (simp add: card_insert_if)
  have ap: "apart (insert bp H) u" using p(3,5) aa u(4,6) bu unfolding apart_iff sbu by auto
  have "free_set (sb u) (view u) \<noteq> {}" "map_ok (sb u) (view u)" using p(7,8) u(6) sbu by auto
  from baddr_total [OF t1 k1 insertI1 u(4) gu ap this(2,1) idx] obtain e N1 t where
    t: "baddr 1 bp ?idx u = Ret e t" "txn (Suc k + 4 * d) (m + 3 * d) (insert bp H) t" "tframe (insert bp H) u t" "e \<noteq> 0" "grow ?b ?v {a} N1 (view t)"
      "\<forall>k < NINDIRECT. ind (view t) a k = (if k = ?idx then e else ind ?v a k)"
      "if ind ?v a ?idx \<noteq> 0 then e = ind ?v a ?idx \<and> view t = ?v \<and> N1 = {} else N1 = {e} \<and> view t e = replicate BSIZE 0"
    unfolding u(6) sbu by blast
  note nx = walk_pre_next [OF Suc.prems(3) idx t(3) sbu u(6) bu u(4) gu t(4,5,7)]
  have sbt: "sb t = ?b" using tframe_fs [OF t(3)] sbu by simp
  have "card (insert bp H) \<le> Suc k" using Suc.prems(2) txn_finite [OF Suc.prems(1)] by (simp add: card_insert_if)
  from Suc.IH [OF t(2) this nx(1) div_index(2)] obtain r N2 w where
    w: "walk d 1 e (bn mod NINDIRECT ^ d) t = Ret r w" "txn (Suc k) m (insert bp H) w" "tframe (insert bp H) t w"
      "walk_post ?b d e (bn mod NINDIRECT ^ d) (view t) r N2 (view w)" unfolding sbt by blast
  have sy: "synced w bp" using u(5) t(3) w(3) by (simp add: tframe_def)
  from txn_brelse [OF w(2) insertI1 sy] u(3) obtain x where x: "brelse bp w = Ret () x" "txn (Suc k) m H x" "view x = view w" "tframe (insert bp H) w x"
    by (metis Diff_insert_absorb)
  have "tframe H s x" using tframe_trans [OF u(7) tframe_mono [OF tframe_trans [OF t(3) tframe_trans [OF w(3) x(4)]]]] by blast
  moreover have "tree_blocks ?v (Suc d) a \<inter> (bitmap ?b \<union> free_set ?b ?v) = {}" using p(3) by blast
  from walk_post_Suc [OF p(1,2) this Suc.prems(4) t(5,6) nx(2) t(7,4) w(4)] have "walk_post ?b (Suc d) a bn ?v r (N1 \<union> N2) (view x)" unfolding x(3) .
  moreover have "walk (Suc d) 1 a bn s = Ret r x"
    using u(1) t(1) w(1) x(1) by (simp add: kbind_Ret [of "bread d n" for d n] kbind_Ret [of "baddr d b n" for d b n] kbind_Ret [of "walk d x b n" for d x b n] kseq_Ret [of "brelse bp"] del: One_nat_def)
  moreover have "txn k m H x" by (rule txn_mono [OF x(2)]) simp_all
  ultimately show ?case by blast
qed

section \<open>The block map of an inode\<close>

definition level :: "nat \<Rightarrow> nat" where
  "level k = (if k < NDIRECT then 0 else Suc (k - NDIRECT))"

definition ino_tree :: "(nat \<Rightarrow> byte list) \<Rightarrow> inode \<Rightarrow> nat \<Rightarrow> nat set" where
  "ino_tree v ip k = tree_blocks v (level k) (addrs ip ! k)"

definition file_addr :: "(nat \<Rightarrow> byte list) \<Rightarrow> inode \<Rightarrow> nat \<Rightarrow> nat" where
  "file_addr v ip bn = (case file_slot bn of None \<Rightarrow> 0 | Some (k, d, n) \<Rightarrow> tree_addr v d (addrs ip ! k) n)"

text \<open>
  \<open>file_ok b v ip\<close>: the blocks of the file, data and indirect ones, are used blocks of the file system, and no block
  serves twice.
\<close>

definition file_ok :: "superblock \<Rightarrow> (nat \<Rightarrow> byte list) \<Rightarrow> inode \<Rightarrow> bool" where
  "file_ok b v ip \<longleftrightarrow> length (addrs ip) = 13 \<and>
     (\<forall>k < 13. tree_ok v (level k) (addrs ip ! k) \<and> ino_tree v ip k \<subseteq> {..<sb_size b} - (bitmap b \<union> free_set b v) \<and>
        (\<forall>j < 13. j \<noteq> k \<longrightarrow> ino_tree v ip j \<inter> ino_tree v ip k = {}))"

definition file_blocks :: "(nat \<Rightarrow> byte list) \<Rightarrow> inode \<Rightarrow> nat set" where
  "file_blocks v ip = (\<Union>k < 13. ino_tree v ip k)"

lemma file_slot_ok:
  assumes "file_slot bn = Some (k, d, n)"
  shows "k < 13" and "d = level k" and "n < NINDIRECT ^ d" and "d \<le> 3"
  using assms by (auto simp: file_slot_def level_def fs_consts split: if_splits)

lemma file_slot_Some: "bn < MAXFILE \<Longrightarrow> \<exists>k n. file_slot bn = Some (k, level k, n) \<and> k < 13 \<and> n < NINDIRECT ^ level k"
proof -
  assume "bn < MAXFILE"
  then have "file_slot bn \<noteq> None" by (simp add: file_slot_def)
  then obtain k d n where s: "file_slot bn = Some (k, d, n)" by auto
  then show ?thesis using file_slot_ok [OF s] by auto
qed

lemma file_slot_inj: "file_slot bn = Some x \<Longrightarrow> file_slot bn' = Some x \<Longrightarrow> bn = bn'"
  by (auto simp: file_slot_def fs_consts split: if_splits)

text \<open>The whole file after one of its trees has grown.\<close>

lemma file_step:
  assumes ok: "file_ok b v ip" and mo: "map_ok b v" and k: "k < 13" and g1: "grow b v {} N1 v1" and e: "addrs jp = (addrs ip)[k := e]"
    and b1: "tree_blocks v1 (level k) e = ino_tree v ip k \<union> N1"
    and post: "walk_post b (level k) e n v1 r N2 v2"
  shows "file_ok b v2 jp" and "file_blocks v2 jp = file_blocks v ip \<union> (N1 \<union> N2)" and "grow b v (file_blocks v ip) (N1 \<union> N2) v2"
    and "\<And>j l. j < 13 \<Longrightarrow> j \<noteq> k \<Longrightarrow> l \<in> ino_tree v ip j \<Longrightarrow> v2 l = v l"
proof -
  have P: "grow b v1 (tree_blocks v1 (level k) e) N2 v2" "tree_blocks v2 (level k) e = tree_blocks v1 (level k) e \<union> N2" "tree_ok v2 (level k) e"
    using post unfolding walk_post_def by blast+
  have F: "length (addrs ip) = 13" "\<And>j. j < 13 \<Longrightarrow> tree_ok v (level j) (addrs ip ! j)"
    "\<And>j. j < 13 \<Longrightarrow> ino_tree v ip j \<subseteq> {..<sb_size b} - (bitmap b \<union> free_set b v)"
    "\<And>i j. i < 13 \<Longrightarrow> j < 13 \<Longrightarrow> i \<noteq> j \<Longrightarrow> ino_tree v ip i \<inter> ino_tree v ip j = {}"
    using ok unfolding file_ok_def by blast+
  have N: "N1 \<subseteq> free_set b v" "N2 \<subseteq> free_set b v" "free_set b v2 = free_set b v - (N1 \<union> N2)" using g1 P(1) by (auto simp: grow_def)
  have jp: "length (addrs jp) = 13" "addrs jp ! j = (if j = k then e else addrs ip ! j)" if "j < 13" for j
    using F(1) that by (simp_all add: e)
  show same: "v2 l = v l" if "j < 13" "j \<noteq> k" "l \<in> ino_tree v ip j" for j l
  proof -
    have "l \<notin> bitmap b" "l \<notin> free_set b v" "l \<notin> ino_tree v ip k" using F(3) [OF that(1)] F(4) [OF that(1) k that(2)] that(3) by auto
    then show ?thesis using g1 P(1) N(1,2) unfolding b1 by (auto simp: grow_def)
  qed
  have T: "ino_tree v2 jp j = (if j = k then ino_tree v ip k \<union> (N1 \<union> N2) else ino_tree v ip j) \<and> tree_ok v2 (level j) (addrs jp ! j)" if j: "j < 13" for j
  proof (cases "j = k")
    case True
    then show ?thesis using P(2,3) b1 jp(2) [OF j] by (auto simp: ino_tree_def)
  next
    case False
    have "tree_blocks v2 (level j) (addrs ip ! j) = tree_blocks v (level j) (addrs ip ! j) \<and> tree_ok v2 (level j) (addrs ip ! j) = tree_ok v (level j) (addrs ip ! j)"
      using tree_frame [of v "level j" "addrs ip ! j" v2] same [OF j False] by (auto simp: ino_tree_def)
    then show ?thesis using False F(2) [OF j] jp(2) [OF j] by (simp add: ino_tree_def)
  qed
  show "file_blocks v2 jp = file_blocks v ip \<union> (N1 \<union> N2)" using T k by (auto simp: file_blocks_def split: if_splits)
  have "grow b v ({} \<union> tree_blocks v1 (level k) e) (N1 \<union> N2) v2" using g1 P(1) by (rule grow_trans)
  then show "grow b v (file_blocks v ip) (N1 \<union> N2) v2" by (rule grow_mono) (use k b1 in \<open>auto simp: file_blocks_def\<close>)
  have "N1 \<union> N2 \<subseteq> {..<sb_size b} - (bitmap b \<union> free_set b v2)" using N mo by (auto simp: free_set_def map_ok_def)
  then have "ino_tree v2 jp j \<subseteq> {..<sb_size b} - (bitmap b \<union> free_set b v2)" if "j < 13" for j
    using T [OF that] F(3) [OF that] N(3) by (auto split: if_splits)
  moreover have "ino_tree v2 jp i \<inter> ino_tree v2 jp j = {}" if ij: "i < 13" "j < 13" "i \<noteq> j" for i j
  proof -
    have "ino_tree v ip l \<inter> (N1 \<union> N2) = {}" if "l < 13" for l using F(3) [OF that] N(1,2) by blast
    then show ?thesis using T [OF ij(1)] T [OF ij(2)] F(4) [OF ij] ij by (auto split: if_splits)
  qed
  ultimately show "file_ok b v2 jp" unfolding file_ok_def using T jp(1) [OF k] by blast
qed

lemma iaddr_total:
  assumes t: "txn (k + 2) (m + 2) {} s" and g: "fs_geom s" and mo: "map_ok (sb s) (view s)" and f: "free_set (sb s) (view s) \<noteq> {}"
    and i: "i < length (inodes s)" "idev (inodes s ! i) = 1" and ok: "file_ok (sb s) (view s) (inodes s ! i)" and kk: "kk < 13"
  defines "v \<equiv> view s" and "ip \<equiv> inodes s ! i"
  shows "\<exists>e N t. iaddr i kk s = Ret e t \<and> txn k m {} t \<and> fs_geom t \<and> sb t = sb s \<and> e \<noteq> 0 \<and> grow (sb s) v {} N (view t) \<and>
    inodes t = (inodes s)[i := ip\<lparr>addrs := (addrs ip)[kk := e]\<rparr>] \<and> mypid t = mypid s \<and> (\<forall>j. sleeplocks t (SInode j) = sleeplocks s (SInode j)) \<and> disksize t = disksize s \<and>
    tree_blocks (view t) (level kk) e = ino_tree v ip kk \<union> N \<and> tree_ok (view t) (level kk) e \<and>
    (if addrs ip ! kk \<noteq> 0 then e = addrs ip ! kk \<and> view t = v \<and> N = {} else N = {e} \<and> view t e = replicate BSIZE 0)"
proof (cases "addrs ip ! kk = 0")
  case False
  then have "iaddr i kk s = Ret (addrs ip ! kk) s" by (simp add: iaddr_def ip_def kret_def)
  moreover have "txn k m {} s" by (rule txn_mono [OF t]) simp_all
  moreover have "tree_ok v (level kk) (addrs ip ! kk)" using ok kk by (simp add: file_ok_def v_def ip_def)
  moreover have "inodes s = (inodes s)[i := ip\<lparr>addrs := (addrs ip)[kk := addrs ip ! kk]\<rparr>]" by (simp add: ip_def)
  ultimately show ?thesis using False g by (intro exI [of _ "addrs ip ! kk"] exI [of _ "{}"] exI [of _ s]) (simp add: v_def ino_tree_def)
next
  case True
  have ap: "apart {} s" by (simp add: apart_def)
  have t2: "txn (Suc (Suc k)) (Suc (Suc m)) {} s" using t by simp
  have "card {} \<le> k" by simp
  from balloc_grows [OF t2 this g ap mo f] obtain e u where u: "balloc 1 s = Ret e u" "e \<in> free_set (sb s) v" "grow (sb s) v {} {e} (view u)" "view u e = replicate BSIZE 0"
    "txn k m {} u" "tframe {} s u" unfolding v_def by blast
  let ?w = "imod i (\<lambda>p. p\<lparr>addrs := (addrs p)[kk := e]\<rparr>) u"
  have uf: "inodes u = inodes s" "sb u = sb s" using tframe_fs [OF u(6)] by simp_all
  have e: "e \<noteq> 0" using mo u(2) by (auto simp: map_ok_def v_def)
  have "iaddr i kk s = Ret e ?w" using True u(1) i(2) by (simp add: iaddr_def ip_def kbind_Ret [of "balloc x" for x] del: One_nat_def)
  moreover have "tree_blocks (view u) (level kk) e = {e}" "tree_ok (view u) (level kk) e" using tree_fresh(1,2) [of "view u" e, OF u(4) e] by simp_all
  moreover have "ino_tree v ip kk = {}" using True by (simp add: ino_tree_def)
  moreover have "inodes ?w = (inodes s)[i := ip\<lparr>addrs := (addrs ip)[kk := e]\<rparr>]" using i(1) by (simp add: uf upd_def ip_def)
  moreover have "fs_geom ?w" using fs_geom_frame [OF g u(6)] by (simp add: fs_geom_def)
  ultimately show ?thesis using True u e uf by (intro exI [of _ e] exI [of _ "{e}"] exI [of _ ?w]) (simp add: tframe_def)
qed

text \<open>
  \<open>bmap_post b v ip bn r jp N v'\<close>: block \<open>bn\<close> of the file is now the block \<open>r\<close>; every other block of the file is where it was and has
  the contents it had; a block that was there before is not touched, a new one holds zeros; the blocks \<open>N\<close>, which
  were free, now belong to the file.
\<close>

definition bmap_post :: "superblock \<Rightarrow> (nat \<Rightarrow> byte list) \<Rightarrow> inode \<Rightarrow> nat \<Rightarrow> nat \<Rightarrow> inode \<Rightarrow> nat set \<Rightarrow> (nat \<Rightarrow> byte list) \<Rightarrow> bool" where
  "bmap_post b v ip bn r jp N v' \<longleftrightarrow> r \<noteq> 0 \<and> jp = ip\<lparr>addrs := addrs jp\<rparr> \<and> file_addr v' jp bn = r \<and>
     (\<forall>n < MAXFILE. n \<noteq> bn \<longrightarrow> file_addr v' jp n = file_addr v ip n \<and> (file_addr v ip n \<noteq> 0 \<longrightarrow> v' (file_addr v ip n) = v (file_addr v ip n))) \<and>
     (if file_addr v ip bn \<noteq> 0 then r = file_addr v ip bn \<and> v' = v \<and> jp = ip \<and> N = {} else r \<in> N \<and> v' r = replicate BSIZE 0) \<and>
     file_ok b v' jp \<and> file_blocks v' jp = file_blocks v ip \<union> N \<and> card N \<le> 4 \<and> grow b v (file_blocks v ip) N v'"

lemma bmap_total:
  assumes t: "txn (k + 14) (m + 11) {} s" and g: "fs_geom s" and mo: "map_ok (sb s) (view s)" and f: "4 \<le> card (free_set (sb s) (view s))"
    and i: "i < length (inodes s)" "idev (inodes s ! i) = 1" and ok: "file_ok (sb s) (view s) (inodes s ! i)" and bn: "bn < MAXFILE"
  defines "v \<equiv> view s" and "ip \<equiv> inodes s ! i"
  shows "\<exists>r jp N t. bmap i bn s = Ret r t \<and> txn k m {} t \<and> fs_geom t \<and> sb t = sb s \<and> inodes t = (inodes s)[i := jp] \<and> disksize t = disksize s \<and>
    mypid t = mypid s \<and> (\<forall>j. sleeplocks t (SInode j) = sleeplocks s (SInode j)) \<and> bmap_post (sb s) v ip bn r jp N (view t)"
proof -
  let ?b = "sb s"
  obtain kk n where slot: "file_slot bn = Some (kk, level kk, n)" "kk < 13" "n < NINDIRECT ^ level kk" using file_slot_Some [OF bn] by blast
  have d: "level kk \<le> 3" using file_slot_ok(4) [OF slot(1)] .
  have t1: "txn ((k + 12) + 2) ((m + 9) + 2) {} s" by (rule txn_mono [OF t]) simp_all
  have "free_set ?b v \<noteq> {}" using f by (auto simp: v_def)
  from iaddr_total [OF t1 g mo this [unfolded v_def] i ok slot(2)] obtain e N1 u where u: "iaddr i kk s = Ret e u" "txn (k + 12) (m + 9) {} u" "fs_geom u" "sb u = ?b" "e \<noteq> 0"
    "grow ?b v {} N1 (view u)" "inodes u = (inodes s)[i := ip\<lparr>addrs := (addrs ip)[kk := e]\<rparr>]" "mypid u = mypid s" "\<forall>j. sleeplocks u (SInode j) = sleeplocks s (SInode j)" "disksize u = disksize s"
    "tree_blocks (view u) (level kk) e = ino_tree v ip kk \<union> N1" "tree_ok (view u) (level kk) e"
    "if addrs ip ! kk \<noteq> 0 then e = addrs ip ! kk \<and> view u = v \<and> N1 = {} else N1 = {e} \<and> view u e = replicate BSIZE 0"
    unfolding v_def ip_def by blast
  have cN: "card N1 \<le> 1" using u(13) by (auto split: if_splits)
  have t2: "txn (k + 4 * level kk) (m + 3 * level kk) {} u" by (rule txn_mono [OF u(2)]) (use d in simp_all)
  have "walk_pre (level kk) e {} u"
  proof -
    have "N1 \<subseteq> {..<sb_size ?b} - (bitmap ?b \<union> free_set ?b (view u))" using u(6) mo by (auto simp: grow_def free_set_def map_ok_def v_def)
    moreover have "ino_tree v ip kk \<subseteq> {..<sb_size ?b} - (bitmap ?b \<union> free_set ?b v)" using ok slot(2) by (simp add: file_ok_def v_def ip_def)
    moreover have "free_set ?b (view u) \<subseteq> free_set ?b v" using u(6) by (auto simp: grow_def)
    ultimately have "tree_blocks (view u) (level kk) e \<subseteq> {..<sb_size ?b} - (bitmap ?b \<union> free_set ?b (view u))" unfolding u(11) by blast
    moreover have "level kk \<le> card (free_set ?b (view u))" using grow_card [OF u(6)] f d cN by (simp add: v_def)
    moreover have "map_ok ?b (view u)" using mo u(6) by (auto simp: v_def intro: grow_map_ok)
    ultimately show ?thesis using u(3,5,12) by (simp add: walk_pre_def u(4) apart_def)
  qed
  moreover have "card {} \<le> k" by simp
  ultimately obtain r N2 w where w: "walk (level kk) 1 e n u = Ret r w" "txn k m {} w" "tframe {} u w" "walk_post ?b (level kk) e n (view u) r N2 (view w)"
    using walk_total [OF t2 _ _ slot(3), of e] unfolding u(4) by blast
  let ?jp = "ip\<lparr>addrs := (addrs ip)[kk := e]\<rparr>"
  have jk: "addrs ?jp ! j = (if j = kk then e else addrs ip ! j)" if "j < 13" for j using ok that by (simp add: file_ok_def ip_def)
  have ja: "addrs ?jp = (addrs ip)[kk := e]" by simp
  note S = file_step [OF ok [folded v_def ip_def] mo [folded v_def] slot(2) u(6) ja u(11) w(4)]
  have P: "r \<noteq> 0" "card N2 \<le> level kk" "tree_addr (view w) (level kk) e n = r"
    "\<And>l. l < NINDIRECT ^ level kk \<Longrightarrow> l \<noteq> n \<Longrightarrow> tree_addr (view w) (level kk) e l = tree_addr (view u) (level kk) e l \<and>
       (tree_addr (view u) (level kk) e l \<noteq> 0 \<longrightarrow> view w (tree_addr (view u) (level kk) e l) = view u (tree_addr (view u) (level kk) e l))"
    "if tree_addr (view u) (level kk) e n \<noteq> 0 then r = tree_addr (view u) (level kk) e n \<and> view w = view u \<and> N2 = {} else r \<in> N2 \<and> view w r = replicate BSIZE 0"
    using w(4) unfolding walk_post_def by blast+
  have nu: "tree_addr (view u) (level kk) e l = (if addrs ip ! kk \<noteq> 0 then tree_addr v (level kk) (addrs ip ! kk) l else if level kk = 0 then e else 0)"
    if "l < NINDIRECT ^ level kk" for l
    using u(13) tree_fresh(3) [of "view u" e, OF _ u(5) that] by (auto split: if_splits)
  have "file_addr (view w) ?jp l = file_addr v ip l \<and> (file_addr v ip l \<noteq> 0 \<longrightarrow> view w (file_addr v ip l) = v (file_addr v ip l))" if l: "l < MAXFILE" "l \<noteq> bn" for l
  proof -
    obtain j q where q: "file_slot l = Some (j, level j, q)" "j < 13" "q < NINDIRECT ^ level j" using file_slot_Some [OF l(1)] by blast
    show ?thesis
    proof (cases "j = kk")
      case True
      then have "q \<noteq> n" using file_slot_inj [OF slot(1), of l] q(1) l(2) by auto
      note Q = P(4) [OF q(3) [unfolded True] this]
      have "level kk \<noteq> 0" if "addrs ip ! kk = 0" using \<open>q \<noteq> n\<close> q(3) slot(3) True by (cases "level kk") simp_all
      then show ?thesis using Q nu [OF q(3) [unfolded True]] u(13) True jk [OF q(2)] by (auto simp: file_addr_def q(1) split: if_splits)
    next
      case False
      have s: "\<And>x. x \<in> tree_blocks v (level j) (addrs ip ! j) \<Longrightarrow> view w x = v x" using S(4) [OF q(2) False] by (simp add: ino_tree_def)
      have "tree_addr (view w) (level j) (addrs ip ! j) q = tree_addr v (level j) (addrs ip ! j) q" using tree_frame [of v "level j" "addrs ip ! j" "view w"] s q(3) by blast
      then show ?thesis using False jk [OF q(2)] s tree_addr_blocks [OF q(3), of v "addrs ip ! j"] by (simp add: file_addr_def q(1))
    qed
  qed
  moreover have "file_addr (view w) ?jp bn = r" using P(3) jk [OF slot(2)] by (simp add: file_addr_def slot(1))
  moreover have c: "if file_addr v ip bn \<noteq> 0 then r = file_addr v ip bn \<and> view w = v \<and> (addrs ip)[kk := e] = addrs ip \<and> N1 \<union> N2 = {} else r \<in> N1 \<union> N2 \<and> view w r = replicate BSIZE 0"
    using P(5) nu [OF slot(3)] u(13) u(5) by (auto simp: file_addr_def slot(1) split: if_splits)
  moreover have "card (N1 \<union> N2) \<le> 4" using card_Un_le [of N1 N2] cN P(2) d by simp
  moreover have bm: "bmap i bn s = Ret r w"
    using u(1) w(1) i(2) by (simp add: bmap_is_walk slot(1) kbind_Ret [of "iaddr a b" for a b] del: One_nat_def)
  moreover have iw: "inodes w = (inodes s)[i := ?jp]" "sb w = ?b" using tframe_fs [OF w(3)] u(4,7) by simp_all
  moreover have gw: "fs_geom w" using u(3) w(3) by (rule fs_geom_frame)
  moreover have pw: "mypid w = mypid s" "\<forall>j. sleeplocks w (SInode j) = sleeplocks s (SInode j)" "disksize w = disksize s" using u(8-10) w(3) by (simp_all add: tframe_def)
  moreover have "(if file_addr v ip bn \<noteq> 0 then r = file_addr v ip bn \<and> view w = v \<and> ?jp = ip \<and> N1 \<union> N2 = {} else r \<in> N1 \<union> N2 \<and> view w r = replicate BSIZE 0)"
    using c by (auto split: if_splits)
  ultimately have "bmap_post ?b v ip bn r ?jp (N1 \<union> N2) (view w)" unfolding bmap_post_def using P(1) S(1-3) by simp
  then show ?thesis using bm w(2) iw gw pw by blast
qed

text \<open>What is needed of the file \<open>i\<close> inside a transaction.\<close>

definition ftxn :: "nat \<Rightarrow> nat \<Rightarrow> nat \<Rightarrow> 'z fsst_scheme \<Rightarrow> bool" where
  "ftxn k m i s \<longleftrightarrow> txn k m {} s \<and> fs_geom s \<and> map_ok (sb s) (view s) \<and> i < length (inodes s) \<and> idev (inodes s ! i) = 1 \<and>
     file_ok (sb s) (view s) (inodes s ! i)"

lemma ftxn_mono: "ftxn k m i s \<Longrightarrow> k' \<le> k \<Longrightarrow> m' \<le> m \<Longrightarrow> ftxn k' m' i s"
  by (auto simp: ftxn_def elim: txn_mono)

lemma file_slot_None: "\<not> bn < MAXFILE \<Longrightarrow> file_slot bn = None"
  by (simp add: file_slot_def fs_consts)

text \<open>C6: Within a transaction with 14 free buffers and 11 free log slots and with 4 free blocks, \<open>bmap\<close> of a block
  number below \<open>MAXFILE\<close> returns the address at which the file now has that block: the old one, with nothing
  changed, if the file had the block, and otherwise a block that was free and now holds zeros. All other blocks of the
  file keep their addresses and their contents, at most four blocks leave the free map, and the file stays well formed. A larger
  block number panics.\<close>

theorem bmap_lookup_insert:
  assumes s: "ftxn 14 11 i s" and f: "4 \<le> card (free_set (sb s) (view s))"
  shows "if bn < MAXFILE then \<exists>r jp N t. bmap i bn s = Ret r t \<and> inodes t = (inodes s)[i := jp] \<and> bmap_post (sb s) (view s) (inodes s ! i) bn r jp N (view t)
    else bmap i bn s = Panic ''bmap: out of range''"
proof (cases "bn < MAXFILE")
  case True
  then show ?thesis using bmap_total [of 0 0 s i bn] s f by (simp add: ftxn_def) blast
next
  case False
  then show ?thesis by (simp add: bmap_is_walk file_slot_None kpanic_def)
qed

lemma disk1_free: "free_set sb1 disk1 \<supseteq> {60, 61, 62, 63}" 
  by (simp add: free_set_def block_used_def bit_used_bit disk1_def sb1_def BBLOCK_def BPB_def BSIZE_def nth_append bit_numeral_rec)

lemma disk1_used: "b \<in> {0, 32, 58} \<Longrightarrow> b \<notin> free_set sb1 disk1" 
  by (auto simp: free_set_def block_used_def bit_used_bit disk1_def sb1_def BBLOCK_def BPB_def BSIZE_def nth_append bit_numeral_rec)

lemma disk1_bitmap: "bitmap sb1 = {58}"
proof -
  have "BBLOCK b sb1 = 58" if "b < 100" for b using that by (simp add: BBLOCK_def BPB_def sb1_def)
  then have "bitmap sb1 = (\<lambda>_. 58) ` {..<100 :: nat}" unfolding bitmap_def by (intro image_cong) (simp_all add: sb1_def)
  then show ?thesis by (simp add: image_constant [of 0])
qed

lemma ftxn_fsst1: "k \<le> NBUF \<Longrightarrow> m \<le> LOGSIZE \<Longrightarrow> ftxn k m 3 fsst1"
proof -
  assume "k \<le> NBUF" "m \<le> LOGSIZE"
  moreover have "map_ok sb1 disk1" using disk1_used by (simp add: map_ok_def disk1_bitmap) (simp add: sb1_def)
  moreover have "file_ok sb1 disk1 ip1" by (simp add: file_ok_def ino_tree_def ip1_def)
  moreover have "idev ip1 = 1" by (simp add: ip1_def)
  moreover have "fs_geom fsst1" using layout_fsst0 by (simp add: fs_layout_def fs_geom_def)
  ultimately show ?thesis by (simp add: ftxn_def txn_fsst1)
qed

lemma card_free: "4 \<le> card (free_set sb1 disk1)"
  using card_mono [OF _ disk1_free] by (simp add: free_set_def)

lemma file_addr_ip1: "file_addr v ip1 n = 0"
  by (auto simp: file_addr_def ip1_def split: option.split dest: file_slot_ok(1))

theorem bmap_lookup_insert_witness:
  "\<exists>r jp N t. bmap 3 700 fsst1 = Ret r t \<and> inodes t = (inodes fsst1)[3 := jp] \<and> bmap_post sb1 disk1 ip1 700 r jp N (view t)"
proof -
  have s: "ftxn 14 11 3 fsst1" by (rule ftxn_fsst1) (simp_all add: NBUF_def LOGSIZE_def)
  have m: "700 < MAXFILE" by (simp add: fs_consts)
  show ?thesis using bmap_lookup_insert [OF s, of 700] m card_free by simp
qed

end
