(* ===== verification/Filedata.thy ===== *)
theory Filedata
  imports Filemap
begin

text \<open>
  The contents of a file (\<^verbatim>\<open>src/xv6-public/fs.c\<close>: \<open>readi\<close>, \<open>writei\<close>). A file is the function \<open>file_byte\<close> from
  offsets to bytes; \<open>readi\<close> returns a segment of it and \<open>writei\<close> replaces one, with the buffers and the log space
  it needs counted by the blocks it touches (\<open>touched\<close>) and those of them that do not exist yet (\<open>holes\<close>).
\<close>

unbundle bit_operations_syntax

section \<open>Looking up a block that exists\<close>

text \<open>No block is allocated, and the transaction keeps its budget.\<close>

lemma walk_lookup:
  assumes "txn k m H s" and "card H + d \<le> k" and "tree_ok (view s) d a" and "tree_blocks (view s) d a \<subseteq> {..<disksize s}"
    and "\<forall>i \<in> H. blockno (bufs s ! i) \<notin> tree_blocks (view s) d a" and "bn < NINDIRECT ^ d" and "tree_addr (view s) d a bn \<noteq> 0"
  shows "\<exists>t. walk d 1 a bn s = Ret (tree_addr (view s) d a bn) t \<and> txn k m H t \<and> tframe H s t \<and> view t = view s"
  using assms
proof (induction d arbitrary: H s a bn)
  case 0
  then show ?case by (simp add: kret_def)
next
  case (Suc d)
  let ?v = "view s" and ?idx = "bn div NINDIRECT ^ d" and ?m = "bn mod NINDIRECT ^ d"
  have a: "a \<noteq> 0" "tree_addr ?v d (ind ?v a ?idx) ?m \<noteq> 0" using Suc.prems(7) by (auto split: if_splits)
  have idx: "?idx < NINDIRECT" using Suc.prems(6) by (rule div_index(1))
  have sub: "tree_ok ?v d (ind ?v a ?idx)" "a \<notin> tree_blocks ?v d (ind ?v a ?idx)" "tree_blocks ?v d (ind ?v a ?idx) \<subseteq> tree_blocks ?v (Suc d) a" "a \<in> tree_blocks ?v (Suc d) a"
    using Suc.prems(3) a(1) idx by auto
  have "card H < k" "a < disksize s" using Suc.prems(2,4) sub(4) by auto
  moreover have "blockno (bufs s ! i) \<noteq> a" if "i \<in> H" for i using Suc.prems(5) that sub(4) by auto
  ultimately obtain bp u where u: "bread 1 a s = Ret bp u" "txn k m (insert bp H) u" "bp \<notin> H" "blockno (bufs u ! bp) = a" "synced u bp" "view u = ?v" "tframe H s u"
    using txn_bread [OF Suc.prems(1)] by blast
  have "bdata (bufs u ! bp) = ?v a" using held_view(1) [OF u(2), of bp] u(4,6) by simp
  moreover have e0: "ind ?v a ?idx \<noteq> 0" using a(2) by (metis tree_zero(1))
  ultimately have b: "baddr 1 bp ?idx u = Ret (ind ?v a ?idx) u" by (simp add: baddr_def ind_def kret_def)
  have c: "card (insert bp H) + d \<le> k" using Suc.prems(2) u(3) txn_finite [OF Suc.prems(1)] by simp
  have "\<forall>i \<in> insert bp H. blockno (bufs u ! i) \<notin> tree_blocks ?v d (ind ?v a ?idx)" using u(4,7) Suc.prems(5) sub(2,3) by (auto simp: tframe_def)
  moreover have "tree_blocks ?v d (ind ?v a ?idx) \<subseteq> {..<disksize u}" using Suc.prems(4) sub(3) u(7) by (auto simp: tframe_def)
  ultimately obtain w where w: "walk d 1 (ind ?v a ?idx) ?m u = Ret (tree_addr ?v d (ind ?v a ?idx) ?m) w" "txn k m (insert bp H) w" "tframe (insert bp H) u w" "view w = ?v"
    using Suc.IH [OF u(2) c _ _ _ div_index(2), of "ind ?v a ?idx"] sub(1) a(2) unfolding u(6) by blast
  have sy: "synced w bp" using u(5) w(3) by (simp add: tframe_def)
  from txn_brelse [OF w(2) insertI1 sy] u(3) obtain x where x: "brelse bp w = Ret () x" "txn k m H x" "view x = view w" "tframe (insert bp H) w x"
    by (metis Diff_insert_absorb)
  have "tframe H s x" using tframe_trans [OF u(7) tframe_mono [OF tframe_trans [OF w(3) x(4)]]] by blast
  moreover have "walk (Suc d) 1 a bn s = Ret (tree_addr ?v (Suc d) a bn) x"
    using a(1) u(1) b w(1) x(1) by (simp add: kbind_Ret [of "bread d n" for d n] kbind_Ret [of "baddr d b n" for d b n] kbind_Ret [of "walk d x b n" for d x b n] kseq_Ret [of "brelse bp"] del: One_nat_def)
  ultimately show ?case using x(2,3) w(4) by auto
qed

lemma bmap_lookup:
  assumes t: "txn k m {} s" and k: "3 \<le> k" and g: "fs_geom s" and i: "idev (inodes s ! i) = 1" and ok: "file_ok (sb s) (view s) (inodes s ! i)"
    and bn: "file_addr (view s) (inodes s ! i) bn \<noteq> 0"
  shows "\<exists>t. bmap i bn s = Ret (file_addr (view s) (inodes s ! i) bn) t \<and> txn k m {} t \<and> tframe {} s t \<and> view t = view s"
proof -
  let ?ip = "inodes s ! i"
  from bn obtain kk d n where sl: "file_slot bn = Some (kk, d, n)" by (auto simp: file_addr_def split: option.splits)
  note so = file_slot_ok [OF sl]
  have fa: "file_addr (view s) ?ip bn = tree_addr (view s) d (addrs ?ip ! kk) n" by (simp add: file_addr_def sl)
  have "addrs ?ip ! kk \<noteq> 0" using bn unfolding fa by (metis tree_zero(1))
  then have ia: "iaddr i kk s = Ret (addrs ?ip ! kk) s" by (simp add: iaddr_def kret_def)
  have T: "tree_ok (view s) d (addrs ?ip ! kk)" "tree_blocks (view s) d (addrs ?ip ! kk) \<subseteq> {..<sb_size (sb s)}"
    using ok so(1,2) by (auto simp: file_ok_def ino_tree_def)
  then have "tree_blocks (view s) d (addrs ?ip ! kk) \<subseteq> {..<disksize s}" using g by (auto simp: fs_geom_def)
  moreover have "card {} + d \<le> k" using so(4) k by simp
  ultimately obtain t where "walk d 1 (addrs ?ip ! kk) n s = Ret (tree_addr (view s) d (addrs ?ip ! kk) n) t" "txn k m {} t" "tframe {} s t" "view t = view s"
    using walk_lookup [OF t _ T(1) _ _ so(3)] bn unfolding fa by blast
  then show ?thesis unfolding fa using i ia by (simp add: bmap_is_walk sl kbind_Ret [of "iaddr a b" for a b] del: One_nat_def)
qed

lemma file_addr_used:
  assumes "file_ok b v ip" and "file_addr v ip bn \<noteq> 0"
  shows "file_addr v ip bn < sb_size b" and "file_addr v ip bn \<in> file_blocks v ip"
proof -
  from assms(2) obtain kk d n where sl: "file_slot bn = Some (kk, d, n)" by (auto simp: file_addr_def split: option.splits)
  note so = file_slot_ok [OF sl]
  have "file_addr v ip bn \<in> ino_tree v ip kk" using tree_addr_blocks [OF so(3)] assms(2) so(2) by (auto simp: file_addr_def sl ino_tree_def)
  then show "file_addr v ip bn < sb_size b" "file_addr v ip bn \<in> file_blocks v ip" using assms(1) so(1) by (auto simp: file_ok_def file_blocks_def)
qed

section \<open>Reading\<close>

definition file_byte :: "(nat \<Rightarrow> byte list) \<Rightarrow> inode \<Rightarrow> nat \<Rightarrow> byte" where
  "file_byte v ip off = v (file_addr v ip (off div BSIZE)) ! (off mod BSIZE)"

text \<open>All blocks of the file up to its size exist.\<close>

definition no_holes :: "(nat \<Rightarrow> byte list) \<Rightarrow> inode \<Rightarrow> bool" where
  "no_holes v ip \<longleftrightarrow> (\<forall>off < isize ip. file_addr v ip (off div BSIZE) \<noteq> 0)"

lemma within_block:
  assumes "off mod B + j < (B :: nat)"
  shows "(off + j) div B = off div B" and "(off + j) mod B = off mod B + j"
proof -
  have "j < B" using assms by simp
  then show "(off + j) div B = off div B" using assms by (simp add: div_add1_eq [of off j])
  have "(off + j) mod B = (off mod B + j) mod B" by (simp add: mod_add_left_eq)
  then show "(off + j) mod B = off mod B + j" using assms by simp
qed

lemma block_slice:
  assumes "length (v (file_addr v ip (off div BSIZE))) = BSIZE" and "l \<le> BSIZE - off mod BSIZE"
  shows "take l (drop (off mod BSIZE) (v (file_addr v ip (off div BSIZE)))) = map (file_byte v ip) [off..<off + l]"
proof (rule nth_equalityI)
  show "length (take l (drop (off mod BSIZE) (v (file_addr v ip (off div BSIZE))))) = length (map (file_byte v ip) [off..<off + l])"
    using assms by simp
next
  fix j assume "j < length (take l (drop (off mod BSIZE) (v (file_addr v ip (off div BSIZE)))))"
  then have j: "j < l" "off mod BSIZE + j < BSIZE" using assms by auto
  note within_block [OF j(2)]
  then show "take l (drop (off mod BSIZE) (v (file_addr v ip (off div BSIZE)))) ! j = map (file_byte v ip) [off..<off + l] ! j"
    using j assms by (simp add: file_byte_def)
qed

lemma readi_loop_total:
  assumes "txn k m {} s" and "3 \<le> k" and "fs_geom s" and "idev (inodes s ! i) = 1" and "file_ok (sb s) (view s) (inodes s ! i)"
    and "no_holes (view s) (inodes s ! i)" and "off + n \<le> isize (inodes s ! i)"
  shows "\<exists>t. readi_loop i off n s = Ret (map (file_byte (view s) (inodes s ! i)) [off..<off + n]) t \<and> txn k m {} t \<and> tframe {} s t \<and> view t = view s"
  using assms
proof (induction n arbitrary: off s rule: less_induct)
  case (less n)
  let ?v = "view s" and ?ip = "inodes s ! i" and ?l = "min n (BSIZE - off mod BSIZE)"
  show ?case
  proof (cases "n = 0")
    case True
    then show ?thesis using less.prems by (simp add: readi_loop.simps [of i off] kret_def)
  next
    case False
    then have nz: "file_addr ?v ?ip (off div BSIZE) \<noteq> 0" using less.prems(6,7) by (simp add: no_holes_def)
    let ?a = "file_addr ?v ?ip (off div BSIZE)"
    from bmap_lookup [OF less.prems(1-5) nz] obtain u where u: "bmap i (off div BSIZE) s = Ret ?a u" "txn k m {} u" "tframe {} s u" "view u = ?v" by blast
    have "?a < disksize u" using file_addr_used(1) [OF less.prems(5) nz] less.prems(3) u(3) by (simp add: fs_geom_def tframe_def)
    moreover have "card {} < k" using less.prems(2) by simp
    ultimately obtain bp w where w: "bread 1 ?a u = Ret bp w" "txn k m {bp} w" "blockno (bufs w ! bp) = ?a" "synced w bp" "view w = ?v" "tframe {} u w"
      using txn_bread [OF u(2)] unfolding u(4) by blast
    have d: "bdata (bufs w ! bp) = ?v ?a" using held_view(1) [OF w(2), of bp] w(3,5) by simp
    from txn_brelse [OF w(2) singletonI w(4)] obtain x where x: "brelse bp w = Ret () x" "txn k m {} x" "view x = ?v" "tframe {bp} w x"
      unfolding w(5) by (metis Diff_cancel)
    have sx: "tframe {} s x" using tframe_trans [OF tframe_trans [OF u(3) w(6)] tframe_mono [OF x(4)]] by blast
    note fx = tframe_fs [OF sx]
    have sl: "take ?l (drop (off mod BSIZE) (?v ?a)) = map (file_byte ?v ?ip) [off..<off + ?l]"
      by (rule block_slice) (simp_all add: txn_length_view [OF less.prems(1)])
    have l: "?l \<le> n" "n - ?l < n" using False block_rest [of off] by auto
    have "\<exists>t. readi_loop i (off + ?l) (n - ?l) x = Ret (map (file_byte (view x) (inodes x ! i)) [off + ?l..<off + ?l + (n - ?l)]) t \<and> txn k m {} t \<and> tframe {} x t \<and> view t = view x"
      using less.prems fx x(3) l fs_geom_frame [OF less.prems(3) sx] by (intro less.IH [OF l(2) x(2)]) simp_all
    then obtain y where y: "readi_loop i (off + ?l) (n - ?l) x = Ret (map (file_byte ?v ?ip) [off + ?l..<off + n]) y" "txn k m {} y" "tframe {} x y" "view y = ?v"
      using fx x(3) l(1) by auto
    have "[off..<off + n] = [off..<off + ?l] @ [off + ?l..<off + n]" using l(1) upt_add_eq_append [of off "off + ?l" "n - ?l"] by simp
    then have "readi_loop i off n s = Ret (map (file_byte ?v ?ip) [off..<off + n]) y"
      using False u(1) w(1) x(1) y(1) less.prems(4)
      by (simp add: readi_loop.simps [of i off] kbind_Ret [of "bmap a b" for a b] kbind_Ret [of "bread a b" for a b] kseq_Ret [of "brelse bp"] d sl kbind_Ret [of "readi_loop a b c" for a b c] del: One_nat_def)
    then show ?thesis using y tframe_trans [OF sx y(3)] by blast
  qed
qed

lemma readi_total:
  assumes "txn k m {} s" and "3 \<le> k" and "fs_geom s" and "ip = inodes s ! i" and "idev ip = 1" and "file_ok (sb s) (view s) ip" and "no_holes (view s) ip" and "itype ip \<noteq> T_DEV"
  shows "if off > isize ip \<or> (off + n) mod 2 ^ 32 < off then readi dv i off n s = Ret (- 1, []) s
    else \<exists>t. readi dv i off n s = Ret (int (min n (isize ip - off)), map (file_byte (view s) ip) [off..<off + min n (isize ip - off)]) t \<and>
      view t = view s \<and> inodes t = inodes s"
proof (cases "off > isize ip \<or> (off + n) mod 2 ^ 32 < off")
  case True
  then show ?thesis using assms(4,8) by (auto simp: readi_def kret_def)
next
  case False
  let ?n = "min n (isize ip - off)"
  have n: "(if off + n > isize ip then isize ip - off else n) = ?n" "off + ?n \<le> isize ip" using False by auto
  have "\<exists>t. readi_loop i off ?n s = Ret (map (file_byte (view s) (inodes s ! i)) [off..<off + ?n]) t \<and> txn k m {} t \<and> tframe {} s t \<and> view t = view s"
    using assms n(2) by (intro readi_loop_total) simp_all
  then obtain t where t: "readi_loop i off ?n s = Ret (map (file_byte (view s) ip) [off..<off + ?n]) t" "tframe {} s t" "view t = view s" using assms(4) by blast
  have "readi dv i off n s = (let n' = (if off + n > isize ip then isize ip - off else n) in kbind (readi_loop i off n') (\<lambda>xs. kret (int n', xs))) s"
    using False assms(4,8) by (simp add: readi_def Let_def)
  also have "\<dots> = Ret (int ?n, map (file_byte (view s) ip) [off..<off + ?n]) t"
    unfolding Let_def n(1) using t(1) by (simp add: kbind_Ret [of "readi_loop a b c" for a b c] kret_def)
  finally have "readi dv i off n s = Ret (int ?n, map (file_byte (view s) ip) [off..<off + ?n]) t" .
  then show ?thesis using False t(3) tframe_fs [OF t(2)] by auto
qed

section \<open>Writing\<close>

text \<open>Writing to a data block does not touch the tree that leads to it.\<close>

lemma tree_leaf_write:
  assumes "tree_ok v d a" and "bn < NINDIRECT ^ d" and "tree_addr v d a bn = l" and "l \<noteq> 0"
  shows "tree_blocks (v(l := x)) d a = tree_blocks v d a \<and> tree_ok (v(l := x)) d a \<and>
    (\<forall>n < NINDIRECT ^ d. tree_addr (v(l := x)) d a n = tree_addr v d a n \<and> (n \<noteq> bn \<longrightarrow> tree_addr v d a n \<noteq> l))"
  using assms
proof (induction d arbitrary: a bn)
  case 0
  then show ?case by simp
next
  case (Suc d)
  let ?v = "v(l := x)" and ?idx = "bn div NINDIRECT ^ d" and ?T = "\<lambda>k. tree_blocks v d (ind v a k)"
  have a: "a \<noteq> 0" "tree_addr v d (ind v a ?idx) (bn mod NINDIRECT ^ d) = l" using Suc.prems(3,4) by (auto split: if_splits)
  have idx: "?idx < NINDIRECT" using Suc.prems(2) by (rule div_index(1))
  have ok: "tree_ok v d (ind v a k)" "a \<notin> ?T k" "\<And>j. j < NINDIRECT \<Longrightarrow> j \<noteq> k \<Longrightarrow> ?T j \<inter> ?T k = {}" if "k < NINDIRECT" for k
    using Suc.prems(1) a(1) that by auto
  have l: "l \<in> ?T ?idx" using tree_addr_blocks [OF div_index(2), of v d "ind v a ?idx" bn] a(2) Suc.prems(4) by simp
  then have "a \<noteq> l" using ok(2) [OF idx] by auto
  then have i: "ind ?v a k = ind v a k" for k by (simp add: ind_def)
  note IH = Suc.IH [OF ok(1) [OF idx] div_index(2) a(2) Suc.prems(4)]
  have F: "tree_blocks ?v d (ind v a k) = ?T k \<and> tree_ok ?v d (ind v a k) \<and> (\<forall>n < NINDIRECT ^ d. tree_addr ?v d (ind v a k) n = tree_addr v d (ind v a k) n)" if "k < NINDIRECT" for k
  proof (cases "k = ?idx")
    case True
    then show ?thesis using IH by blast
  next
    case False
    then have "l \<notin> ?T k" using l ok(3) [OF idx that] by blast
    then have "\<And>b. b \<in> ?T k \<Longrightarrow> ?v b = v b" by auto
    from tree_frame [of v d "ind v a k" ?v, OF this] show ?thesis using ok(1) [OF that] by blast
  qed
  have "tree_addr v (Suc d) a n \<noteq> l" if "n < NINDIRECT ^ Suc d" "n \<noteq> bn" for n
  proof (cases "n div NINDIRECT ^ d = ?idx")
    case True
    then have "n mod NINDIRECT ^ d \<noteq> bn mod NINDIRECT ^ d" using that(2) by (metis div_mult_mod_eq)
    then show ?thesis using IH True a(1) div_index(2) [of n d] by simp
  next
    case False
    have j: "n div NINDIRECT ^ d < NINDIRECT" using that(1) by (rule div_index(1))
    then have "l \<notin> ?T (n div NINDIRECT ^ d)" using l ok(3) [OF idx j False] by blast
    moreover have "tree_addr v d (ind v a (n div NINDIRECT ^ d)) (n mod NINDIRECT ^ d) \<noteq> 0 \<Longrightarrow>
        tree_addr v d (ind v a (n div NINDIRECT ^ d)) (n mod NINDIRECT ^ d) \<in> ?T (n div NINDIRECT ^ d)" by (rule tree_addr_blocks [OF div_index(2)])
    ultimately show ?thesis using a(1) Suc.prems(4) by auto
  qed
  moreover have "tree_addr ?v (Suc d) a n = tree_addr v (Suc d) a n" if "n < NINDIRECT ^ Suc d" for n
    using F [OF div_index(1) [OF that]] div_index(2) [of n d] a(1) by (simp add: i)
  moreover have "tree_blocks ?v (Suc d) a = tree_blocks v (Suc d) a" using F a(1) by (simp add: i)
  moreover have "tree_ok ?v (Suc d) a" using F ok a(1) by (simp add: i)
  ultimately show ?case by blast
qed

lemma free_set_put: "a \<notin> bitmap b \<Longrightarrow> free_set b (v(a := x)) = free_set b v"
  by (auto simp: free_set_def block_used_def bitmap_def)

lemma file_leaf_write:
  assumes ok: "file_ok b v ip" and l: "file_addr v ip bn = l" "l \<noteq> 0"
  shows "file_ok b (v(l := x)) ip" and "file_blocks (v(l := x)) ip = file_blocks v ip" and "\<And>n. file_addr (v(l := x)) ip n = file_addr v ip n"
    and "\<And>n. n \<noteq> bn \<Longrightarrow> file_addr v ip n \<noteq> l" and "free_set b (v(l := x)) = free_set b v" and "l \<notin> bitmap b"
proof -
  let ?v = "v(l := x)"
  from l obtain kk d q where sl: "file_slot bn = Some (kk, d, q)" by (auto simp: file_addr_def split: option.splits)
  note so = file_slot_ok [OF sl]
  have F: "length (addrs ip) = 13" "\<And>j. j < 13 \<Longrightarrow> tree_ok v (level j) (addrs ip ! j)"
    "\<And>j. j < 13 \<Longrightarrow> ino_tree v ip j \<subseteq> {..<sb_size b} - (bitmap b \<union> free_set b v)"
    "\<And>i j. i < 13 \<Longrightarrow> j < 13 \<Longrightarrow> i \<noteq> j \<Longrightarrow> ino_tree v ip i \<inter> ino_tree v ip j = {}"
    using ok unfolding file_ok_def by blast+
  have ta: "tree_addr v (level kk) (addrs ip ! kk) q = l" using l(1) so(2) by (simp add: file_addr_def sl)
  have li: "l \<in> ino_tree v ip kk" using tree_addr_blocks [OF so(3) [unfolded so(2)], of v "addrs ip ! kk"] ta l(2) by (simp add: ino_tree_def)
  show lb: "l \<notin> bitmap b" using F(3) [OF so(1)] li by blast
  then show fs: "free_set b ?v = free_set b v" by (rule free_set_put)
  note W = tree_leaf_write [OF F(2) [OF so(1)] so(3) [unfolded so(2)] ta l(2), of x]
  have T: "ino_tree ?v ip j = ino_tree v ip j \<and> tree_ok ?v (level j) (addrs ip ! j) \<and> (\<forall>n < NINDIRECT ^ level j. tree_addr ?v (level j) (addrs ip ! j) n = tree_addr v (level j) (addrs ip ! j) n)"
    if "j < 13" for j
  proof (cases "j = kk")
    case True
    then show ?thesis using W unfolding ino_tree_def by blast
  next
    case False
    then have "l \<notin> ino_tree v ip j" using li F(4) [OF so(1) that] by blast
    then have "\<And>b. b \<in> tree_blocks v (level j) (addrs ip ! j) \<Longrightarrow> ?v b = v b" by (auto simp: ino_tree_def)
    from tree_frame [of v "level j" "addrs ip ! j" ?v, OF this] show ?thesis using F(2) [OF that] unfolding ino_tree_def by blast
  qed
  show "file_blocks ?v ip = file_blocks v ip" using T by (simp add: file_blocks_def)
  show "file_ok b ?v ip" unfolding file_ok_def fs using F T by simp
  show "file_addr ?v ip n = file_addr v ip n" for n
  proof (cases "file_slot n")
    case (Some y)
    then obtain j e p where y: "file_slot n = Some (j, e, p)" by (cases y) auto
    note sy = file_slot_ok [OF y]
    show ?thesis using T [OF sy(1)] sy(2,3) by (simp add: file_addr_def y)
  qed (simp add: file_addr_def)
  show "file_addr v ip n \<noteq> l" if "n \<noteq> bn" for n
  proof (cases "file_slot n")
    case (Some y)
    then obtain j e p where y: "file_slot n = Some (j, e, p)" by (cases y) auto
    note sy = file_slot_ok [OF y]
    show ?thesis
    proof (cases "j = kk")
      case True
      then have "p \<noteq> q" using file_slot_inj [OF y, of bn] sl sy(2) so(2) that by auto
      then show ?thesis using W True sy(2,3) by (simp add: file_addr_def y)
    next
      case False
      have "l \<notin> ino_tree v ip j" using li F(4) [OF so(1) sy(1)] False by blast
      moreover have "file_addr v ip n \<noteq> 0 \<Longrightarrow> file_addr v ip n \<in> ino_tree v ip j"
        using tree_addr_blocks [OF sy(3), of v "addrs ip ! j"] sy(2) by (simp add: file_addr_def y ino_tree_def)
      ultimately show ?thesis using l(2) by auto
    qed
  qed (use l(2) in \<open>simp add: file_addr_def\<close>)
qed

text \<open>The blocks a range of bytes touches.\<close>

definition touched :: "nat \<Rightarrow> nat \<Rightarrow> nat list" where
  "touched off n = (if n = 0 then [] else [off div BSIZE..<Suc ((off + n - 1) div BSIZE)])"

lemma touched_Cons:
  assumes "0 < n" and "l = min n (BSIZE - off mod BSIZE)"
  shows "touched off n = off div BSIZE # touched (off + l) (n - l)" and "off div BSIZE \<notin> set (touched (off + l) (n - l))"
proof -
  have B: "off mod BSIZE < BSIZE" by (rule block_rest)
  have "touched off n = off div BSIZE # touched (off + l) (n - l) \<and> off div BSIZE \<notin> set (touched (off + l) (n - l))"
  proof (cases "n \<le> BSIZE - off mod BSIZE")
    case True
    then have "(off + (n - 1)) div BSIZE = off div BSIZE" using assms(1) B by (intro within_block) simp
    moreover have "l = n" using True assms(2) by simp
    ultimately show ?thesis using assms(1) by (simp add: touched_def)
  next
    case False
    then have l: "l = BSIZE - off mod BSIZE" "n - l \<noteq> 0" using assms(2) by auto
    have "off + l = (off div BSIZE + 1) * BSIZE" 
    proof -
      have "off = off div BSIZE * BSIZE + off mod BSIZE" by simp
      then show ?thesis using l(1) B by (simp only: distrib_right mult_1)
    qed
    then have d: "(off + l) div BSIZE = off div BSIZE + 1" using B by simp
    have "(off + l) div BSIZE \<le> (off + n - 1) div BSIZE" using l(2) by (intro div_le_mono) simp
    then have "[off div BSIZE..<Suc ((off + n - 1) div BSIZE)] = off div BSIZE # [off div BSIZE + 1..<Suc ((off + n - 1) div BSIZE)]"
      using d by (simp add: upt_conv_Cons)
    moreover have "off + l + (n - l) = off + n" using l(2) by simp
    ultimately show ?thesis using assms(1) l(2) d by (simp add: touched_def)
  qed
  then show "touched off n = off div BSIZE # touched (off + l) (n - l)" "off div BSIZE \<notin> set (touched (off + l) (n - l))" by blast+
qed

definition holes :: "(nat \<Rightarrow> byte list) \<Rightarrow> inode \<Rightarrow> nat list \<Rightarrow> nat" where
  "holes v ip bs = length (filter (\<lambda>b. file_addr v ip b = 0) bs)"

definition fkeep :: "'z fsst_scheme \<Rightarrow> 'z fsst_scheme \<Rightarrow> bool" where
  "fkeep s t \<longleftrightarrow> sb t = sb s \<and> disksize t = disksize s \<and> mypid t = mypid s \<and> (\<forall>j. sleeplocks t (SInode j) = sleeplocks s (SInode j))"

lemma fkeep_trans [trans]: "fkeep s t \<Longrightarrow> fkeep t u \<Longrightarrow> fkeep s u"
  by (simp add: fkeep_def)

lemma tframe_fkeep: "tframe H s t \<Longrightarrow> fkeep s t"
  using tframe_fs [of H s t] by (simp add: fkeep_def tframe_def)

lemma bmap_any:
  assumes s: "ftxn (k + 3 + (if h then 14 else 0)) (m + (if h then 11 else 0)) i s" and bn: "bn < MAXFILE" and h: "h \<longleftrightarrow> file_addr (view s) (inodes s ! i) bn = 0"
    and f: "h \<longrightarrow> 4 \<le> card (free_set (sb s) (view s))"
  shows "\<exists>r jp N t. bmap i bn s = Ret r t \<and> ftxn (k + 3) m i t \<and> inodes t = (inodes s)[i := jp] \<and> fkeep s t \<and> (h \<or> N = {}) \<and>
    bmap_post (sb s) (view s) (inodes s ! i) bn r jp N (view t)"
proof (cases h)
  case False
  have S: "txn (k + 3) m {} s" "3 \<le> k + 3" "fs_geom s" "map_ok (sb s) (view s)" "i < length (inodes s)" "idev (inodes s ! i) = 1" "file_ok (sb s) (view s) (inodes s ! i)"
    using s False by (simp_all add: ftxn_def)
  have nz: "file_addr (view s) (inodes s ! i) bn \<noteq> 0" using h False by simp
  from bmap_lookup [OF S(1-3,6,7) nz] obtain t where t: "bmap i bn s = Ret (file_addr (view s) (inodes s ! i) bn) t" "txn (k + 3) m {} t" "tframe {} s t" "view t = view s" by blast
  note ft = tframe_fs [OF t(3)]
  have "bmap_post (sb s) (view s) (inodes s ! i) bn (file_addr (view s) (inodes s ! i) bn) (inodes s ! i) {} (view t)"
    using nz S(7) by (simp add: bmap_post_def t(4) grow_def)
  moreover have "ftxn (k + 3) m i t" using S t ft fs_geom_frame [OF S(3) t(3)] by (simp add: ftxn_def)
  ultimately show ?thesis using t(1) ft tframe_fkeep [OF t(3)]
    by (intro exI [of _ "file_addr (view s) (inodes s ! i) bn"] exI [of _ "inodes s ! i"] exI [of _ "{}"] exI [of _ t]) simp
next
  case True
  have S: "fs_geom s" "map_ok (sb s) (view s)" "i < length (inodes s)" "idev (inodes s ! i) = 1" "file_ok (sb s) (view s) (inodes s ! i)"
    using s by (simp_all add: ftxn_def)
  have t0: "txn (k + 3 + 14) (m + 11) {} s" using s True by (simp add: ftxn_def)
  have f0: "4 \<le> card (free_set (sb s) (view s))" using f True by simp
  from bmap_total [OF t0 S(1,2) f0 S(3-5) bn] obtain r jp N t where t: "bmap i bn s = Ret r t" "txn (k + 3) m {} t" "fs_geom t" "sb t = sb s" "inodes t = (inodes s)[i := jp]"
    "disksize t = disksize s" "mypid t = mypid s" "\<forall>j. sleeplocks t (SInode j) = sleeplocks s (SInode j)" "bmap_post (sb s) (view s) (inodes s ! i) bn r jp N (view t)" by blast
  have g: "grow (sb s) (view s) (file_blocks (view s) (inodes s ! i)) N (view t)" "file_ok (sb s) (view t) jp" "idev jp = 1"
    using t(9) S(4) unfolding bmap_post_def by (blast, blast, metis inode.select_convs(1) inode.surjective inode.update_convs(10))
  have "ftxn (k + 3) m i t" using t(2-5) g grow_map_ok [OF S(2) g(1)] S(3) by (simp add: ftxn_def)
  then show ?thesis using t True by (intro exI [of _ r] exI [of _ jp] exI [of _ N] exI [of _ t]) (simp add: fkeep_def)
qed

text \<open>
  \<open>written v ip v' jp off src\<close>: the bytes from \<open>off\<close> on are those of \<open>src\<close>, and all other bytes of the file are as before.
\<close>

definition written :: "(nat \<Rightarrow> byte list) \<Rightarrow> inode \<Rightarrow> (nat \<Rightarrow> byte list) \<Rightarrow> inode \<Rightarrow> nat \<Rightarrow> byte list \<Rightarrow> bool" where
  "written v ip v' jp off src \<longleftrightarrow>
     (\<forall>p. off \<le> p \<longrightarrow> p < off + length src \<longrightarrow> file_addr v' jp (p div BSIZE) \<noteq> 0 \<and> file_byte v' jp p = src ! (p - off)) \<and>
     (\<forall>p. p < off \<or> off + length src \<le> p \<longrightarrow> file_addr v ip (p div BSIZE) \<noteq> 0 \<longrightarrow>
        file_addr v' jp (p div BSIZE) \<noteq> 0 \<and> file_byte v' jp p = file_byte v ip p)"

lemma written_append:
  "written v ip v1 jp1 off xs \<Longrightarrow> written v1 jp1 v2 jp2 (off + length xs) ys \<Longrightarrow> written v ip v2 jp2 off (xs @ ys)"
  unfolding written_def
proof (intro conjI allI impI, goal_cases)
  case (1 p)
  then show ?case by (cases "p < off + length xs") (simp_all add: nth_append)
next
  case (2 p)
  have "(xs @ ys) ! (p - off) = (if p < off + length xs then xs ! (p - off) else ys ! (p - (off + length xs)))"
    using 2(3) by (auto simp: nth_append less_diff_conv2 diff_diff_left)
  then show ?case using 2 by (cases "p < off + length xs") simp_all
next
  case (3 p)
  then show ?case by auto
next
  case (4 p)
  then show ?case by auto
qed

lemma length_splice: "off + length xs \<le> length d \<Longrightarrow> length (splice off xs d) = length d"
  by (simp add: splice_def)

lemma nth_splice: "off + length xs \<le> length d \<Longrightarrow> j < length d \<Longrightarrow>
    splice off xs d ! j = (if off \<le> j \<and> j < off + length xs then xs ! (j - off) else d ! j)"
  by (auto simp: splice_def nth_append min_def)

lemma kseq_assoc: "kseq (kseq m n) p = kseq m (kseq n p)" "kseq (kbind m f) p = kbind m (\<lambda>x. kseq (f x) p)"
  by (simp_all add: fun_eq_iff kbind_def kseq_def split: kres.split)

lemma file_addr_max: "file_addr v ip n \<noteq> 0 \<Longrightarrow> n < MAXFILE"
proof -
  assume "file_addr v ip n \<noteq> 0"
  then have "file_slot n \<noteq> None" by (auto simp: file_addr_def split: option.splits)
  then show ?thesis by (auto simp: file_slot_def fs_consts split: if_splits)
qed

lemma written_block:
  assumes post: "bmap_post b v ip bn r jp N v1" and len: "length (v1 r) = BSIZE" and bn: "bn = off div BSIZE" "bn < MAXFILE" and xs: "off mod BSIZE + length xs \<le> BSIZE"
  shows "written v ip (v1(r := splice (off mod BSIZE) xs (v1 r))) jp off xs"
    and "\<And>n. n < MAXFILE \<Longrightarrow> n \<noteq> bn \<Longrightarrow> file_addr (v1(r := splice (off mod BSIZE) xs (v1 r))) jp n = file_addr v ip n"
proof -
  let ?v = "v1(r := splice (off mod BSIZE) xs (v1 r))"
  have P: "r \<noteq> 0" "file_addr v1 jp bn = r" "file_ok b v1 jp"
    "\<And>n. n < MAXFILE \<Longrightarrow> n \<noteq> bn \<Longrightarrow> file_addr v1 jp n = file_addr v ip n \<and> (file_addr v ip n \<noteq> 0 \<longrightarrow> v1 (file_addr v ip n) = v (file_addr v ip n))"
    "file_addr v ip bn \<noteq> 0 \<Longrightarrow> r = file_addr v ip bn \<and> v1 = v" using post unfolding bmap_post_def by metis+
  note L = file_leaf_write(1,2,3,5) [where x = "splice (off mod BSIZE) xs (v1 r)", OF P(3,2,1)] and L4 = file_leaf_write(4) [OF P(3,2,1)]
  show "file_addr ?v jp n = file_addr v ip n" if "n < MAXFILE" "n \<noteq> bn" for n using L(3) P(4) [OF that] by simp
  have other: "file_addr ?v jp n = file_addr v ip n \<and> ?v (file_addr ?v jp n) = v (file_addr v ip n)" if "n \<noteq> bn" "file_addr v ip n \<noteq> 0" for n
    using L(3) [of n] L4 [OF that(1)] P(4) [OF file_addr_max [OF that(2)] that(1)] that(2) by auto
  have inb: "p div BSIZE = bn" "p mod BSIZE = off mod BSIZE + (p - off)" if "off \<le> p" "p < off + length xs" for p
    using within_block [of off BSIZE "p - off"] that xs bn(1) by simp_all
  have byte: "file_byte ?v jp p = (if off mod BSIZE \<le> p mod BSIZE \<and> p mod BSIZE < off mod BSIZE + length xs then xs ! (p mod BSIZE - off mod BSIZE) else v1 r ! (p mod BSIZE))"
    if "p div BSIZE = bn" for p
    using that L(3) [of bn] P(2) nth_splice [of "off mod BSIZE" xs "v1 r" "p mod BSIZE"] xs len block_rest [of p] by (simp add: file_byte_def)
  show "written v ip ?v jp off xs"
    unfolding written_def
  proof (intro conjI allI impI, goal_cases)
    case (1 p)
    then show ?case using inb(1) [OF 1] L(3) [of bn] P(1,2) by simp
  next
    case (2 p)
    obtain j where j: "p = off + j" "j < length xs" using 2 by (metis le_Suc_ex nat_add_left_cancel_less)
    then show ?case using inb [OF 2] byte [OF inb(1) [OF 2]] by simp
  next
    case (3 p)
    then show ?case using other L(3) [of bn] P(1,2) by (cases "p div BSIZE = bn") auto
  next
    case (4 p)
    show ?case
    proof (cases "p div BSIZE = bn")
      case True
      have "\<not> (off mod BSIZE \<le> p mod BSIZE \<and> p mod BSIZE < off mod BSIZE + length xs)"
      proof -
        have "p = bn * BSIZE + p mod BSIZE" "off = bn * BSIZE + off mod BSIZE" using True bn(1) by (metis div_mult_mod_eq)+
        then show ?thesis using 4(1) by linarith
      qed
      then show ?thesis using byte [OF True] P(5) 4(2) True by (auto simp: file_byte_def)
    next
      case False
      show ?thesis unfolding file_byte_def other [OF False 4(2), THEN conjunct2] ..
    qed
  qed
qed

lemma write_round:
  assumes s: "ftxn (k + 4 + (if h then 14 else 0)) (m + 1 + (if h then 11 else 0)) i s" and bn: "bn = off div BSIZE" "bn < MAXFILE"
    and h: "h \<longleftrightarrow> file_addr (view s) (inodes s ! i) bn = 0" and f: "h \<longrightarrow> 4 \<le> card (free_set (sb s) (view s))" and xs: "off mod BSIZE + length xs \<le> BSIZE"
  shows "\<exists>jp t. kbind (bmap i bn) (\<lambda>a. kbind (bread 1 a) (\<lambda>bp. kseq (kmod (bmod bp (\<lambda>c. c\<lparr>bdata := splice (off mod BSIZE) xs (bdata c)\<rparr>)))
      (kseq (log_write bp) (kseq (brelse bp) R)))) s = R t \<and>
    ftxn (k + 3) m i t \<and> inodes t = (inodes s)[i := jp] \<and> jp = (inodes s ! i)\<lparr>addrs := addrs jp\<rparr> \<and> fkeep s t \<and>
    written (view s) (inodes s ! i) (view t) jp off xs \<and>
    (\<forall>n < MAXFILE. n \<noteq> bn \<longrightarrow> file_addr (view t) jp n = file_addr (view s) (inodes s ! i) n) \<and>
    card (free_set (sb s) (view s)) \<le> card (free_set (sb s) (view t)) + (if h then 4 else 0) \<and>
    file_blocks (view t) jp \<subseteq> file_blocks (view s) (inodes s ! i) \<union> free_set (sb s) (view s) \<and> free_set (sb s) (view t) \<subseteq> free_set (sb s) (view s)"
proof -
  let ?v = "view s" and ?ip = "inodes s ! i" and ?b = "sb s"
  have s1: "ftxn ((k + 1) + 3 + (if h then 14 else 0)) (m + 1 + (if h then 11 else 0)) i s" by (rule ftxn_mono [OF s]) simp_all
  from bmap_any [OF s1 bn(2) h f] obtain r jp N u where u: "bmap i bn s = Ret r u" "ftxn (k + 1 + 3) (m + 1) i u" "inodes u = (inodes s)[i := jp]" "fkeep s u" "h \<or> N = {}"
    "bmap_post ?b ?v ?ip bn r jp N (view u)" by blast
  have P: "r \<noteq> 0" "file_addr (view u) jp bn = r" "file_ok ?b (view u) jp" "card N \<le> 4" "grow ?b ?v (file_blocks ?v ?ip) N (view u)" "jp = ?ip\<lparr>addrs := addrs jp\<rparr>"
    using u(6) unfolding bmap_post_def by metis+
  have U: "txn (Suc (k + 3)) (Suc m) {} u" "fs_geom u" "map_ok ?b (view u)" "i < length (inodes u)" "idev (inodes u ! i) = 1" "sb u = ?b" "disksize u = disksize s"
    using u(2,4) by (simp_all add: ftxn_def fkeep_def)
  have "r < disksize u" using file_addr_used(1) [OF P(3)] P(1,2) U(2,6) by (auto simp: fs_geom_def intro: less_le_trans)
  moreover have len: "length (view u r) = BSIZE" using txn_length_view [OF U(1)] .
  ultimately have "\<exists>t. kbind (bread 1 r) (\<lambda>bp. kseq (kmod (bmod bp (\<lambda>c. c\<lparr>bdata := splice (off mod BSIZE) xs (bdata c)\<rparr>))) (kseq (log_write bp) (brelse bp))) u = Ret () t \<and>
      txn (k + 3) m {} t \<and> view t = (view u)(r := splice (off mod BSIZE) xs (view u r)) \<and> tframe {} u t"
    using xs by (intro modify_block [OF U(1)]) (simp_all add: length_splice)
  then obtain t where t: "kbind (bread 1 r) (\<lambda>bp. kseq (kmod (bmod bp (\<lambda>c. c\<lparr>bdata := splice (off mod BSIZE) xs (bdata c)\<rparr>))) (kseq (log_write bp) (brelse bp))) u = Ret () t"
    "txn (k + 3) m {} t" "view t = (view u)(r := splice (off mod BSIZE) xs (view u r))" "tframe {} u t" by blast
  note ft = tframe_fs [OF t(4)]
  note L = file_leaf_write(1,2,3,5) [where x = "splice (off mod BSIZE) xs (view u r)", OF P(3,2,1)]
  have ju: "inodes u ! i = jp" using u(3) U(4) by simp
  have "ftxn (k + 3) m i t"
    using t(2) U(3-6) ft L(1,4) ju fs_geom_frame [OF U(2) t(4)] unfolding ftxn_def t(3) by (simp add: map_ok_def)
  moreover have "fkeep s t" using fkeep_trans [OF u(4) tframe_fkeep [OF t(4)]] .
  moreover have "card (free_set ?b ?v) \<le> card (free_set ?b (view t)) + (if h then 4 else 0)"
    using grow_card [OF P(5)] P(4) u(5) L(4) by (auto simp: t(3))
  moreover have "kbind (bmap i bn) (\<lambda>a. kbind (bread 1 a) (\<lambda>bp. kseq (kmod (bmod bp (\<lambda>c. c\<lparr>bdata := splice (off mod BSIZE) xs (bdata c)\<rparr>)))
      (kseq (log_write bp) (kseq (brelse bp) R)))) s = R t"
  proof -
    have "kseq (kbind (bread 1 r) (\<lambda>bp. kseq (kmod (bmod bp (\<lambda>c. c\<lparr>bdata := splice (off mod BSIZE) xs (bdata c)\<rparr>))) (kseq (log_write bp) (brelse bp)))) R u = R t"
      by (rule kseq_Ret) (rule t(1))
    then show ?thesis using u(1) by (simp add: kseq_assoc kbind_Ret [of "bmap a b" for a b] del: One_nat_def)
  qed
  moreover have "file_blocks (view t) jp \<subseteq> file_blocks ?v ?ip \<union> free_set ?b ?v" "free_set ?b (view t) \<subseteq> free_set ?b ?v"
    using L(2,4) u(6) P(5) unfolding t(3) bmap_post_def grow_def by auto
  moreover note written_block [OF u(6) len bn xs]
  ultimately show ?thesis using u(3) ft P(6) unfolding t(3) by (intro exI [of _ jp] exI [of _ t]) (simp add: t(3) del: fun_upd_apply)
qed

lemma writei_loop_total:
  assumes "ftxn (k + 3 + length (touched off (length src)) + 14 * holes (view s) (inodes s ! i) (touched off (length src)))
      (m + length (touched off (length src)) + 11 * holes (view s) (inodes s ! i) (touched off (length src))) i s"
    and "off + length src \<le> MAXFILE * BSIZE" and "4 * holes (view s) (inodes s ! i) (touched off (length src)) \<le> card (free_set (sb s) (view s))"
  shows "\<exists>jp t. writei_loop i off src s = Ret () t \<and> ftxn (k + 3) m i t \<and> inodes t = (inodes s)[i := jp] \<and> jp = (inodes s ! i)\<lparr>addrs := addrs jp\<rparr> \<and> fkeep s t \<and>
    written (view s) (inodes s ! i) (view t) jp off src \<and> file_blocks (view t) jp \<subseteq> file_blocks (view s) (inodes s ! i) \<union> free_set (sb s) (view s)"
  using assms
proof (induction "length src" arbitrary: off src s rule: less_induct)
  case less
  let ?v = "view s" and ?ip = "inodes s ! i" and ?b = "sb s" and ?bn = "off div BSIZE" and ?l = "min (length src) (BSIZE - off mod BSIZE)"
  show ?case
  proof (cases "src = []")
    case True
    then show ?thesis using less.prems(1)
      by (intro exI [of _ ?ip] exI [of _ s]) (auto simp: writei_loop.simps [of i off] kret_def touched_def holes_def written_def ftxn_def fkeep_def)
  next
    case False
    let ?xs = "take (BSIZE - off mod BSIZE) src" and ?ys = "drop (BSIZE - off mod BSIZE) src" and ?h = "file_addr ?v ?ip ?bn = 0"
    have n: "0 < length src" using False by simp
    note tc = touched_Cons [OF n refl]
    have ly: "length ?ys = length src - ?l" by (simp add: min_def)
    let ?rest = "touched (off + ?l) (length ?ys)"
    have T: "touched off (length src) = ?bn # ?rest" "?bn \<notin> set ?rest" using tc unfolding ly by simp_all
    have bn: "?bn < MAXFILE" by (rule less_mult_imp_div_less) (use less.prems(2) n in linarith)
    have hl: "holes ?v ?ip (touched off (length src)) = (if ?h then 1 else 0) + holes ?v ?ip ?rest" by (simp add: T(1) holes_def)
    have s1: "ftxn ((k + length ?rest + 14 * holes ?v ?ip ?rest) + 4 + (if ?h then 14 else 0)) ((m + length ?rest + 11 * holes ?v ?ip ?rest) + 1 + (if ?h then 11 else 0)) i s"
      by (rule ftxn_mono [OF less.prems(1)]) (simp_all add: hl, simp_all add: T(1))
    have f1: "?h \<longrightarrow> 4 \<le> card (free_set ?b ?v)" using less.prems(3) hl by auto
    have x1: "off mod BSIZE + length ?xs \<le> BSIZE" using block_rest [of off] by simp
    from write_round [OF s1 refl bn refl f1 x1, of "writei_loop i (off + ?l) ?ys"] obtain jp u where
      u: "kbind (bmap i ?bn) (\<lambda>a. kbind (bread 1 a) (\<lambda>bp. kseq (kmod (bmod bp (\<lambda>c. c\<lparr>bdata := splice (off mod BSIZE) ?xs (bdata c)\<rparr>)))
          (kseq (log_write bp) (kseq (brelse bp) (writei_loop i (off + ?l) ?ys))))) s = writei_loop i (off + ?l) ?ys u"
        "ftxn ((k + length ?rest + 14 * holes ?v ?ip ?rest) + 3) (m + length ?rest + 11 * holes ?v ?ip ?rest) i u" "inodes u = (inodes s)[i := jp]" "jp = ?ip\<lparr>addrs := addrs jp\<rparr>" "fkeep s u"
        "written ?v ?ip (view u) jp off ?xs" "\<forall>n < MAXFILE. n \<noteq> ?bn \<longrightarrow> file_addr (view u) jp n = file_addr ?v ?ip n"
        "card (free_set ?b ?v) \<le> card (free_set ?b (view u)) + (if ?h then 4 else 0)"
        "file_blocks (view u) jp \<subseteq> file_blocks ?v ?ip \<union> free_set ?b ?v" "free_set ?b (view u) \<subseteq> free_set ?b ?v" by blast
    have i: "i < length (inodes s)" "idev ?ip = 1" using s1 by (simp_all add: ftxn_def)
    have ju: "inodes u ! i = jp" using u(3) i by simp
    have sbu: "sb u = ?b" using u(5) by (simp add: fkeep_def)
    have bs: "b < MAXFILE \<and> b \<noteq> ?bn" if "b \<in> set ?rest" for b
    proof -
      have "b \<in> set (touched off (length src))" using that T(1) by simp
      then have "b \<le> (off + length src - 1) div BSIZE" using n by (auto simp: touched_def)
      also have "\<dots> < MAXFILE" by (rule less_mult_imp_div_less) (use less.prems(2) n in linarith)
      finally show ?thesis using that T(2) by auto
    qed
    have hu: "holes (view u) jp ?rest = holes ?v ?ip ?rest"
      unfolding holes_def using u(7) bs by (intro arg_cong [of _ _ length] filter_cong) auto
    have "\<exists>kp t. writei_loop i (off + ?l) ?ys u = Ret () t \<and> ftxn (k + 3) m i t \<and> inodes t = (inodes u)[i := kp] \<and> kp = (inodes u ! i)\<lparr>addrs := addrs kp\<rparr> \<and> fkeep u t \<and>
      written (view u) (inodes u ! i) (view t) kp (off + ?l) ?ys \<and> file_blocks (view t) kp \<subseteq> file_blocks (view u) (inodes u ! i) \<union> free_set (sb u) (view u)"
    proof (rule less.hyps)
      show "length ?ys < length src" unfolding length_drop by (rule diff_less) (use n block_rest [of off] in simp_all)
      show "ftxn (k + 3 + length ?rest + 14 * holes (view u) (inodes u ! i) ?rest) (m + length ?rest + 11 * holes (view u) (inodes u ! i) ?rest) i u"
        unfolding ju hu by (rule ftxn_mono [OF u(2)]) simp_all
      show "off + ?l + length ?ys \<le> MAXFILE * BSIZE" using less.prems(2) ly by simp
      show "4 * holes (view u) (inodes u ! i) ?rest \<le> card (free_set (sb u) (view u))" using less.prems(3) u(8) hl unfolding ju hu sbu by (cases ?h) simp_all
    qed
    then obtain kp t where t: "writei_loop i (off + ?l) ?ys u = Ret () t" "ftxn (k + 3) m i t" "inodes t = (inodes u)[i := kp]" "kp = jp\<lparr>addrs := addrs kp\<rparr>" "fkeep u t"
      "written (view u) jp (view t) kp (off + ?l) ?ys" "file_blocks (view t) kp \<subseteq> file_blocks (view u) jp \<union> free_set ?b (view u)" unfolding ju sbu by blast
    have "written ?v ?ip (view t) kp off (?xs @ ?ys)"
      by (rule written_append [OF u(6)]) (use t(6) in \<open>simp add: min.commute\<close>)
    then have "written ?v ?ip (view t) kp off src" by simp
    moreover have "kp = ?ip\<lparr>addrs := addrs kp\<rparr>" using t(4) u(4) by (metis inode.surjective inode.update_convs(10))
    moreover have "file_blocks (view t) kp \<subseteq> file_blocks ?v ?ip \<union> free_set ?b ?v" using t(7) u(9,10) by blast
    moreover have "writei_loop i off src s = Ret () t"
      using False i(2) u(1) t(1) by (simp add: writei_loop.simps [of i off] del: One_nat_def)
    ultimately show ?thesis using t(2,3) u(3) fkeep_trans [OF u(5) t(5)] by (intro exI [of _ kp] exI [of _ t]) simp
  qed
qed

lemma file_frame:
  assumes "\<And>b. b \<in> file_blocks v ip \<Longrightarrow> v' b = v b"
  shows "file_addr v' ip n = file_addr v ip n" and "file_addr v ip (p div BSIZE) \<noteq> 0 \<Longrightarrow> file_byte v' ip p = file_byte v ip p"
    and "file_blocks v' ip = file_blocks v ip" and "file_ok b v ip \<Longrightarrow> free_set b v' = free_set b v \<Longrightarrow> file_ok b v' ip"
proof -
  have "\<And>b. k < 13 \<Longrightarrow> b \<in> tree_blocks v (level k) (addrs ip ! k) \<Longrightarrow> v' b = v b" for k using assms by (auto simp: file_blocks_def ino_tree_def)
  then have T: "ino_tree v' ip k = ino_tree v ip k \<and> tree_ok v' (level k) (addrs ip ! k) = tree_ok v (level k) (addrs ip ! k) \<and>
      (\<forall>n < NINDIRECT ^ level k. tree_addr v' (level k) (addrs ip ! k) n = tree_addr v (level k) (addrs ip ! k) n)" if "k < 13" for k
    unfolding ino_tree_def using that by (intro tree_frame) blast
  show fa: "file_addr v' ip n = file_addr v ip n" for n
  proof (cases "file_slot n")
    case (Some y)
    then obtain j e p where y: "file_slot n = Some (j, e, p)" by (cases y) auto
    show ?thesis using T file_slot_ok [OF y] by (simp add: file_addr_def y)
  qed (simp add: file_addr_def)
  show "file_blocks v' ip = file_blocks v ip" using T by (simp add: file_blocks_def)
  show "file_ok b v ip \<Longrightarrow> free_set b v' = free_set b v \<Longrightarrow> file_ok b v' ip" using T by (simp add: file_ok_def)
  show "file_byte v' ip p = file_byte v ip p" if z: "file_addr v ip (p div BSIZE) \<noteq> 0"
  proof -
    obtain j e q where y: "file_slot (p div BSIZE) = Some (j, e, q)" using z by (auto simp: file_addr_def split: option.splits)
    note sy = file_slot_ok [OF y]
    have "file_addr v ip (p div BSIZE) \<in> file_blocks v ip"
      using tree_addr_blocks [OF sy(3), of v "addrs ip ! j"] z sy(1,2) by (auto simp: file_addr_def y file_blocks_def ino_tree_def)
    then show ?thesis using assms fa by (simp add: file_byte_def)
  qed
qed

lemma file_size_irrelevant [simp]:
  "file_addr v (ip\<lparr>isize := z\<rparr>) n = file_addr v ip n" "file_byte v (ip\<lparr>isize := z\<rparr>) p = file_byte v ip p"
  "file_blocks v (ip\<lparr>isize := z\<rparr>) = file_blocks v ip" "file_ok b v (ip\<lparr>isize := z\<rparr>) = file_ok b v ip"
  by (simp_all add: file_addr_def file_byte_def file_blocks_def file_ok_def ino_tree_def cong: option.case_cong)

text \<open>The contents of the file after the write.\<close>

definition put_bytes :: "nat \<Rightarrow> byte list \<Rightarrow> (nat \<Rightarrow> byte) \<Rightarrow> nat \<Rightarrow> byte" where
  "put_bytes off src f p = (if off \<le> p \<and> p < off + length src then src ! (p - off) else f p)"

lemma writei_total:
  assumes s: "ftxn (4 + length (touched off (length src)) + 14 * holes (view s) ip (touched off (length src)))
      (1 + length (touched off (length src)) + 11 * holes (view s) ip (touched off (length src))) i s" and ip: "ip = inodes s ! i" "itype ip \<noteq> T_DEV" "no_holes (view s) ip"
    and off: "off \<le> isize ip" "off + length src \<le> MAXFILE * BSIZE" and f: "4 * holes (view s) ip (touched off (length src)) \<le> card (free_set (sb s) (view s))"
    and ib: "IBLOCK (inum ip) (sb s) < disksize s" "IBLOCK (inum ip) (sb s) \<notin> file_blocks (view s) ip \<union> free_set (sb s) (view s) \<union> bitmap (sb s)"
  shows "\<exists>jp t. writei dv i src off (length src) s = Ret (int (length src)) t \<and> inodes t = (inodes s)[i := jp] \<and> jp = ip\<lparr>addrs := addrs jp, isize := max (isize ip) (off + length src)\<rparr> \<and>
    ftxn 3 0 i t \<and> no_holes (view t) jp \<and> fkeep s t \<and> (\<forall>p < isize jp. file_byte (view t) jp p = put_bytes off src (file_byte (view s) ip) p)"
proof -
  let ?n = "length src" and ?v = "view s"
  have s1: "ftxn (1 + 3 + length (touched off ?n) + 14 * holes ?v (inodes s ! i) (touched off ?n)) (1 + length (touched off ?n) + 11 * holes ?v (inodes s ! i) (touched off ?n)) i s"
    by (rule ftxn_mono [OF s]) (simp_all add: ip(1))
  from writei_loop_total [OF s1 off(2)] f obtain kp t where t: "writei_loop i off src s = Ret () t" "ftxn (1 + 3) 1 i t" "inodes t = (inodes s)[i := kp]" "kp = ip\<lparr>addrs := addrs kp\<rparr>" "fkeep s t"
    "written ?v ip (view t) kp off src" "file_blocks (view t) kp \<subseteq> file_blocks ?v ip \<union> free_set (sb s) ?v" unfolding ip(1) by blast
  have i: "i < length (inodes s)" using s by (simp add: ftxn_def)
  have T: "txn 4 1 {} t" "fs_geom t" "map_ok (sb t) (view t)" "i < length (inodes t)" "inodes t ! i = kp" "idev kp = 1" "file_ok (sb t) (view t) kp" "sb t = sb s" "disksize t = disksize s"
    using t(2,3,5) i by (simp_all add: ftxn_def fkeep_def)
  have kp: "isize kp = isize ip" "inum kp = inum ip" "itype kp = itype ip" by (subst t(4), simp)+
  define z where "z = max (isize ip) (off + ?n)"
  have W: "file_addr (view t) kp (p div BSIZE) \<noteq> 0 \<and> file_byte (view t) kp p = put_bytes off src (file_byte ?v ip) p" if "p < z" for p
  proof (cases "off \<le> p \<and> p < off + ?n")
    case True
    then show ?thesis using t(6) by (simp add: written_def put_bytes_def)
  next
    case False
    then have "p < isize ip" "p < off \<or> off + ?n \<le> p" using that off(1) by (auto simp: z_def)
    then have "file_addr ?v ip (p div BSIZE) \<noteq> 0" "p < off \<or> off + ?n \<le> p" using ip(3) by (simp_all add: no_holes_def)
    then show ?thesis using t(6) False by (auto simp: written_def put_bytes_def)
  qed
  have m: "\<not> (off + ?n) mod 2 ^ 32 < off"
  proof -
    have "off + ?n < 2 ^ 32" using off(2) by (simp add: fs_consts BSIZE_def)
    then show ?thesis by simp
  qed
  have e: "writei dv i src off ?n s = kseq (kwhen (?n > 0 \<and> off + ?n > isize ip) (kseq (kmod (imod i (\<lambda>p. p\<lparr>isize := off + ?n\<rparr>))) (iupdate i))) (kret (int ?n)) t"
    using m off ip(1,2) t(1) by (simp add: writei_def not_less kseq_Ret [of "writei_loop a b c" for a b c])
  show ?thesis
  proof (cases "?n > 0 \<and> off + ?n > isize ip")
    case False
    then have z: "z = isize ip" using off(1) by (auto simp: z_def)
    have jp: "kp = ip\<lparr>addrs := addrs kp, isize := z\<rparr>" using t(4) z by (metis inode.surjective inode.update_convs(9,10) kp(1) t(4))
    have "writei dv i src off ?n s = Ret (int ?n) t" unfolding e using False by (auto simp: kwhen_def kret_def)
    moreover have "ftxn 3 0 i t" by (rule ftxn_mono [OF t(2)]) simp_all
    moreover have "no_holes (view t) kp" using W kp(1) z by (simp add: no_holes_def)
    ultimately show ?thesis using t(3,5) jp W kp(1) z unfolding z_def by (intro exI [of _ kp] exI [of _ t]) simp
  next
    case True
    then have z: "z = off + ?n" by (simp add: z_def)
    let ?jp = "kp\<lparr>isize := z\<rparr>" and ?u = "imod i (\<lambda>p. p\<lparr>isize := off + ?n\<rparr>) t" and ?B = "IBLOCK (inum ip) (sb s)"
    have u: "inodes ?u = (inodes s)[i := ?jp]" "inodes ?u ! i = ?jp" using t(3) i z by (simp_all add: upd_def)
    have "\<exists>w. iupdate i ?u = Ret () w \<and> txn 3 0 {} w \<and> tframe {} ?u w \<and> view w = (view ?u)(IBLOCK (inum (inodes ?u ! i)) (sb ?u) := put_dinode (doff (inum (inodes ?u ! i))) (inodes ?u ! i) (view ?u (IBLOCK (inum (inodes ?u ! i)) (sb ?u))))"
    proof (rule iupdate_total)
      show "txn (Suc 3) (Suc 0) {} ?u" using T(1) by simp
      show "idev (inodes ?u ! i) = 1" unfolding u(2) using T(6) by simp
      show "IBLOCK (inum (inodes ?u ! i)) (sb ?u) < disksize ?u" unfolding u(2) using ib(1) T(8,9) kp(2) by simp
    qed simp_all
    then obtain w where w: "iupdate i ?u = Ret () w" "txn 3 0 {} w" "tframe {} ?u w" "view w = (view t)(?B := put_dinode (doff (inum ip)) ?jp (view t ?B))"
      unfolding u(2) using kp(2) T(8) by auto
    note fw = tframe_fs [OF w(3)]
    have nb: "?B \<notin> file_blocks (view t) kp" "?B \<notin> bitmap (sb s)" using ib(2) t(7) by auto
    have same: "\<And>b. b \<in> file_blocks (view t) kp \<Longrightarrow> view w b = view t b" using nb(1) by (auto simp: w(4))
    note FF = file_frame [where v = "view t" and v' = "view w" and ip = kp, OF same]
    have fs: "free_set (sb s) (view w) = free_set (sb s) (view t)" unfolding w(4) using nb(2) by (rule free_set_put)
    have gw: "fs_geom w" using T(2) w(3) fw by (simp add: fs_geom_def tframe_def)
    have "file_ok (sb s) (view w) kp" using FF(4) [of "sb s"] fs T(7,8) by simp
    then have "ftxn 3 0 i w" using w(2) gw fw u i T(3,6,8) fs by (simp add: ftxn_def map_ok_def)
    moreover have "no_holes (view w) ?jp" using W FF(1) by (simp add: no_holes_def)
    moreover have "file_byte (view w) ?jp p = put_bytes off src (file_byte ?v ip) p" if "p < z" for p using W [OF that] FF(2) [of p] by simp
    moreover have "fkeep s w" using t(5) w(3) fw by (simp add: fkeep_def tframe_def)
    moreover have "writei dv i src off ?n s = Ret (int ?n) w" unfolding e using True w(1) by (simp add: kwhen_def kseq_assoc kseq_Ret [of "iupdate i"] kret_def)
    moreover have "?jp = ip\<lparr>addrs := addrs ?jp, isize := z\<rparr>" using t(4) by (metis inode.surjective inode.update_convs(9,10))
    moreover have "inodes w = (inodes s)[i := ?jp]" using fw u(1) by simp
    moreover have "isize ?jp = z" by simp
    ultimately show ?thesis unfolding z_def [symmetric] by (intro exI [of _ ?jp] exI [of _ w]) (simp del: file_size_irrelevant)
  qed
qed

lemma no_holes_size:
  assumes "no_holes v ip" shows "isize ip \<le> MAXFILE * BSIZE"
proof (rule ccontr)
  assume "\<not> isize ip \<le> MAXFILE * BSIZE"
  then have "file_addr v ip (MAXFILE * BSIZE div BSIZE) \<noteq> 0" using assms unfolding no_holes_def by (meson not_le)
  from file_addr_max [OF this] show False by (simp add: BSIZE_def)
qed

text \<open>C2: A write followed by a read: \<open>writei\<close> of \<open>src\<close> at an offset within the file writes all of it, the
  size becomes the maximum of the old size and the end of the write, and every \<open>readi\<close> of the
  file within the new size returns the new bytes inside the written segment and the old ones outside.\<close>

theorem writei_then_readi:
  assumes s: "ftxn (4 + length (touched off (length src)) + 14 * holes (view s) ip (touched off (length src)))
      (1 + length (touched off (length src)) + 11 * holes (view s) ip (touched off (length src))) i s" and ip: "ip = inodes s ! i" "itype ip \<noteq> T_DEV" "no_holes (view s) ip"
    and off: "off \<le> isize ip" "off + length src \<le> MAXFILE * BSIZE" and f: "4 * holes (view s) ip (touched off (length src)) \<le> card (free_set (sb s) (view s))"
    and ib: "IBLOCK (inum ip) (sb s) < disksize s" "IBLOCK (inum ip) (sb s) \<notin> file_blocks (view s) ip \<union> free_set (sb s) (view s) \<union> bitmap (sb s)"
  shows "\<exists>t. writei dv i src off (length src) s = Ret (int (length src)) t \<and> isize (inodes t ! i) = max (isize ip) (off + length src) \<and>
    (\<forall>a n. a + n \<le> max (isize ip) (off + length src) \<longrightarrow> (\<exists>u. readi dv i a n t = Ret (int n, map (put_bytes off src (file_byte (view s) ip)) [a..<a + n]) u))"
proof -
  from writei_total [OF assms] obtain jp t where t: "writei dv i src off (length src) s = Ret (int (length src)) t" "inodes t = (inodes s)[i := jp]"
    "jp = ip\<lparr>addrs := addrs jp, isize := max (isize ip) (off + length src)\<rparr>" "ftxn 3 0 i t" "no_holes (view t) jp"
    "\<forall>p < isize jp. file_byte (view t) jp p = put_bytes off src (file_byte (view s) ip) p" by blast
  have j: "inodes t ! i = jp" "itype jp = itype ip" using t(2) s t(3) by (simp add: ftxn_def) (subst t(3), simp)
  have z: "isize jp = max (isize ip) (off + length src)" by (subst t(3)) simp
  have "\<exists>u. readi dv i a n t = Ret (int n, map (put_bytes off src (file_byte (view s) ip)) [a..<a + n]) u" if an: "a + n \<le> isize jp" for a n
  proof -
    have "a + n < 2 ^ 32" using an no_holes_size [OF t(5)] by (simp add: fs_consts BSIZE_def)
    then have "\<not> (a > isize jp \<or> (a + n) mod 2 ^ 32 < a)" "min n (isize jp - a) = n" using an by auto
    then have "\<exists>u. readi dv i a n t = Ret (int n, map (file_byte (view t) jp) [a..<a + n]) u"
      using readi_total [of 3 0 t jp i a n dv] t(4,5) j ip(2) by (auto simp: ftxn_def)
    moreover have "map (file_byte (view t) jp) [a..<a + n] = map (put_bytes off src (file_byte (view s) ip)) [a..<a + n]" using t(6) an by simp
    ultimately show ?thesis by simp
  qed
  then show ?thesis using t(1) j z by (intro exI [of _ t]) simp
qed

theorem writei_then_readi_witness:
  "\<exists>t. writei (\<lambda>_. None) 3 [104, 105] 0 2 fsst1 = Ret 2 t \<and> isize (inodes t ! 3) = 2 \<and> (\<exists>u. readi (\<lambda>_. None) 3 0 2 t = Ret (2, [104, 105]) u)"
proof -
  let ?t = "touched 0 2"
  have t: "?t = [0]" by (simp add: touched_def BSIZE_def)
  have h: "holes disk1 ip1 ?t = 1" by (simp add: t holes_def file_addr_ip1)
  have s: "ftxn (4 + length (touched 0 (length [104, 105 :: byte])) + 14 * holes (view fsst1) ip1 (touched 0 (length [104, 105 :: byte])))
      (1 + length (touched 0 (length [104, 105 :: byte])) + 11 * holes (view fsst1) ip1 (touched 0 (length [104, 105 :: byte]))) 3 fsst1"
    by (rule ftxn_fsst1) (simp_all add: t h [unfolded t] NBUF_def LOGSIZE_def numeral_2_eq_2 [symmetric])
  have z: "isize ip1 = 0" "itype ip1 \<noteq> T_DEV" "inum ip1 = 5" by (simp_all add: ip1_def inode0_def T_DEV_def)
  have b: "IBLOCK (inum ip1) (sb fsst1) = 32" by (simp add: IBLOCK_def IPB_def BSIZE_def z(3)) (simp add: sb1_def)
  have e: "file_blocks disk1 ip1 = {}" by (simp add: file_blocks_def ino_tree_def ip1_def)
  have "\<exists>t. writei (\<lambda>_. None) 3 [104, 105] 0 (length [104, 105 :: byte]) fsst1 = Ret (int (length [104, 105 :: byte])) t \<and> isize (inodes t ! 3) = max (isize ip1) (0 + length [104, 105 :: byte]) \<and>
    (\<forall>a n. a + n \<le> max (isize ip1) (0 + length [104, 105 :: byte]) \<longrightarrow> (\<exists>u. readi (\<lambda>_. None) 3 a n t = Ret (int n, map (put_bytes 0 [104, 105] (file_byte (view fsst1) ip1)) [a..<a + n]) u))"
  proof (rule writei_then_readi [OF s])
    show "4 * holes (view fsst1) ip1 (touched 0 (length [104, 105 :: byte])) \<le> card (free_set (sb fsst1) (view fsst1))"
      using card_free by (simp add: h numeral_2_eq_2 [symmetric])
    show "IBLOCK (inum ip1) (sb fsst1) \<notin> file_blocks (view fsst1) ip1 \<union> free_set (sb fsst1) (view fsst1) \<union> bitmap (sb fsst1)"
      unfolding b using disk1_used [of 32] by (simp add: e disk1_bitmap)
    show "IBLOCK (inum ip1) (sb fsst1) < disksize fsst1" unfolding b by simp
    show "itype ip1 \<noteq> T_DEV" by (rule z(2))
  qed (simp_all add: z no_holes_def fs_consts BSIZE_def)
  then obtain t where t: "writei (\<lambda>_. None) 3 [104, 105] 0 2 fsst1 = Ret 2 t" "isize (inodes t ! 3) = 2"
    "\<And>a n. a + n \<le> 2 \<Longrightarrow> \<exists>u. readi (\<lambda>_. None) 3 a n t = Ret (int n, map (put_bytes 0 [104, 105] (file_byte disk1 ip1)) [a..<a + n]) u"
    by (auto simp: z numeral_2_eq_2)
  have "map (put_bytes 0 [104, 105] (file_byte disk1 ip1)) [0..<0 + 2] = [104, 105]" by (simp add: put_bytes_def upt_rec)
  then show ?thesis using t(1,2) t(3) [of 0 2] by auto
qed

end
