(* ===== verification/Icache.thy ===== *)
theory Icache
  imports Inode "HOL-Library.Multiset"
begin

text \<open>
  The inode cache (\<^verbatim>\<open>src/xv6-public/fs.c\<close>: \<open>iget\<close>, \<open>idup\<close>, \<open>iput\<close>) as what it stands for: the multiset of references
  to inodes that the kernel holds, each named by device and inode number. An entry with \<open>ref\<close> references to an inode is
  that many copies of its name. \<open>icache_ok\<close> is what the cache relies on: no two entries in use name the same inode.
\<close>

definition ikey :: "inode \<Rightarrow> nat \<times> nat" where
  "ikey ip = (idev ip, inum ip)"

definition irefs :: "inode list \<Rightarrow> (nat \<times> nat) multiset" where
  "irefs is = (\<Sum>ip \<leftarrow> is. replicate_mset (nat (iref ip)) (ikey ip))"

definition icache_ok :: "inode list \<Rightarrow> bool" where
  "icache_ok is \<longleftrightarrow> (\<forall>ip \<in> set is. 0 \<le> iref ip) \<and> distinct (map ikey (filter (\<lambda>ip. 0 < iref ip) is))"

lemma irefs_update:
  assumes "i < length is"
  shows "irefs (is[i := ip]) + replicate_mset (nat (iref (is ! i))) (ikey (is ! i)) = irefs is + replicate_mset (nat (iref ip)) (ikey ip)"
proof -
  have a: "is = take i is @ is ! i # drop (Suc i) is" using assms by (rule id_take_nth_drop)
  have b: "is[i := ip] = take i is @ ip # drop (Suc i) is" using assms by (rule upd_conv_take_nth_drop)
  show ?thesis unfolding b by (subst (2) a) (simp add: irefs_def ac_simps)
qed

lemma icache_ok_iff:
  "icache_ok is \<longleftrightarrow> (\<forall>i < length is. 0 \<le> iref (is ! i)) \<and>
     (\<forall>i < length is. \<forall>j < length is. 0 < iref (is ! i) \<longrightarrow> 0 < iref (is ! j) \<longrightarrow> ikey (is ! i) = ikey (is ! j) \<longrightarrow> i = j)"
proof -
  have "distinct (map ikey (filter (\<lambda>ip. 0 < iref ip) is)) \<longleftrightarrow>
     (\<forall>i < length is. \<forall>j < length is. 0 < iref (is ! i) \<longrightarrow> 0 < iref (is ! j) \<longrightarrow> ikey (is ! i) = ikey (is ! j) \<longrightarrow> i = j)"
  proof (induction "is")
    case (Cons ip "is")
    have e: "(\<forall>i < Suc (length is). P i) \<longleftrightarrow> P 0 \<and> (\<forall>i < length is. P (Suc i))" for P by (auto simp: less_Suc_eq_0_disj)
    have "0 < iref ip \<Longrightarrow> ikey ip \<in> ikey ` {x \<in> set is. 0 < iref x} \<longleftrightarrow> (\<exists>j < length is. 0 < iref (is ! j) \<and> ikey ip = ikey (is ! j))"
      by (auto simp: in_set_conv_nth)
    then show ?case using Cons by (auto simp: e)
  qed simp
  then show ?thesis by (auto simp: icache_ok_def all_set_conv_all_nth)
qed

lemma icache_in_refs: "icache_ok is \<Longrightarrow> k \<in># irefs is \<longleftrightarrow> (\<exists>i < length is. 0 < iref (is ! i) \<and> ikey (is ! i) = k)"
proof -
  have "k \<in># irefs is \<longleftrightarrow> (\<exists>ip \<in> set is. 0 < iref ip \<and> ikey ip = k)" by (induction "is") (auto simp: irefs_def)
  then show ?thesis by (metis in_set_conv_nth)
qed

text \<open>Entry \<open>i\<close> counts all references to its inode.\<close>

lemma icache_count:
  assumes "icache_ok is" and "i < length is" and "0 < iref (is ! i)"
  shows "int (count (irefs is) (ikey (is ! i))) = iref (is ! i)"
proof -
  let ?is = "is[i := (is ! i)\<lparr>iref := 0\<rparr>]"
  have "icache_ok ?is" using assms unfolding icache_ok_iff by (auto simp: nth_list_update)
  then have "ikey (is ! i) \<notin># irefs ?is" using assms icache_in_refs [of ?is] unfolding icache_ok_iff [of "is"]
    by (auto simp: nth_list_update split: if_splits)
  then have "count (irefs ?is) (ikey (is ! i)) = 0" by (simp add: not_in_iff)
  moreover have "irefs ?is + replicate_mset (nat (iref (is ! i))) (ikey (is ! i)) = irefs is" using irefs_update [OF assms(2), of "(is ! i)\<lparr>iref := 0\<rparr>"] by simp
  ultimately show ?thesis using assms(3) by (metis count_replicate_mset count_union add_0 int_nat_eq less_imp_le)
qed

lemma irefs_ref:
  assumes "i < length is" and "0 \<le> iref (is ! i)"
  shows "irefs (is[i := (is ! i)\<lparr>iref := iref (is ! i) + 1\<rparr>]) = add_mset (ikey (is ! i)) (irefs is)"
proof -
  have "nat (iref (is ! i) + 1) = Suc (nat (iref (is ! i)))" using assms(2) by simp
  then show ?thesis using irefs_update [OF assms(1), of "(is ! i)\<lparr>iref := iref (is ! i) + 1\<rparr>"] by (simp add: ikey_def)
qed

lemma irefs_unref:
  assumes "i < length is" and "0 < iref (is ! i)"
  shows "irefs (is[i := (is ! i)\<lparr>iref := iref (is ! i) - 1\<rparr>]) = irefs is - {#ikey (is ! i)#}"
proof -
  obtain n where n: "iref (is ! i) = 1 + int n" using assms(2) by (metis zless_iff_Suc_zadd add.commute add_0 of_nat_Suc)
  show ?thesis using irefs_update [OF assms(1), of "(is ! i)\<lparr>iref := iref (is ! i) - 1\<rparr>"] by (simp add: n ikey_def nat_add_distrib) (metis add_mset_remove_trivial)
qed

lemma irefs_fresh:
  assumes "i < length is" and "iref (is ! i) = 0" and "iref ip = 1"
  shows "irefs (is[i := ip]) = add_mset (ikey ip) (irefs is)"
  using irefs_update [OF assms(1), of ip] assms(2,3) by simp

lemma qheld_imod [simp]: "qheld L (imod i f s) = qheld L s"
  by (simp add: imod_def qheld_def kready_def cpu_of_def)

lemma lock_st_inodes [simp]: "inodes (lock_st lk s) = inodes s" "inodes (unlock_st lk s) = inodes s"
  by (simp_all add: lock_st_def unlock_st_def)

definition ref_get :: "nat \<times> nat \<Rightarrow> 'z fsst_scheme \<Rightarrow> (nat, 'z fsst_scheme) kres \<Rightarrow> bool" where
  "ref_get k s r \<longleftrightarrow> (if k \<in># irefs (inodes s) \<or> (\<exists>ip \<in> set (inodes s). iref ip = 0)
     then \<exists>i t. r = Ret i t \<and> quiet t \<and> i < length (inodes t) \<and> ikey (inodes t ! i) = k \<and> 0 < iref (inodes t ! i) \<and> icache_ok (inodes t) \<and>
       irefs (inodes t) = add_mset k (irefs (inodes s)) \<and> (k \<notin># irefs (inodes s) \<longrightarrow> \<not> ivalid (inodes t ! i)) \<and>
       (\<forall>j. j \<noteq> i \<longrightarrow> inodes t ! j = inodes s ! j) \<and> (k \<in># irefs (inodes s) \<longrightarrow> inodes t ! i = (inodes s ! i)\<lparr>iref := iref (inodes s ! i) + 1\<rparr>)
     else r = Panic ''iget: no inodes'')"

lemma iget_refs:
  assumes q: "quiet s" and ok: "icache_ok (inodes s)"
  shows "ref_get (d, n) s (iget d n s)"
proof -
  let ?is = "inodes s" and ?P = "\<lambda>ip. iref ip > 0 \<and> idev ip = d \<and> inum ip = n"
  note a = acquire_first [OF q, of LIcache]
  have run: "kseq (kmod (imod i f)) (kseq (release LIcache) (kret i)) (lock_st LIcache s) = Ret i (unlock_st LIcache (imod i f (lock_st LIcache s))) \<and>
      quiet (unlock_st LIcache (imod i f (lock_st LIcache s)))" for i f
    using a(3) by (simp add: release_last kret_def)
  have key: "(d, n) \<in># irefs ?is \<longleftrightarrow> (\<exists>i < length ?is. ?P (?is ! i))" using icache_in_refs [OF ok] by (auto simp: ikey_def)
  show ?thesis
  proof (cases "first_index ?P ?is")
    case (Some i)
    then have i: "i < length ?is" "?P (?is ! i)" by blast+
    let ?jp = "(?is ! i)\<lparr>iref := iref (?is ! i) + 1\<rparr>"
    let ?t = "unlock_st LIcache (imod i (\<lambda>ip. ip\<lparr>iref := iref ip + 1\<rparr>) (lock_st LIcache s))"
    have t: "iget d n s = Ret i ?t" "quiet ?t" unfolding iget_def a(2) using run [of i "\<lambda>ip. ip\<lparr>iref := iref ip + 1\<rparr>"] Some by simp_all
    have it: "inodes ?t = ?is[i := ?jp]" by (simp add: upd_def)
    have k: "(d, n) \<in># irefs ?is" using key i by blast
    have "icache_ok (?is[i := ?jp])" using ok i unfolding icache_ok_iff by (auto simp: nth_list_update ikey_def)
    moreover have "irefs (?is[i := ?jp]) = add_mset (d, n) (irefs ?is)" using irefs_ref [OF i(1)] i(2) by (simp add: ikey_def)
    moreover have "ikey ?jp = (d, n)" "0 < iref ?jp" using i(2) by (simp_all add: ikey_def)
    ultimately show ?thesis unfolding ref_get_def using t i(1) k by (intro if_P [THEN iffD2] exI [of _ i] exI [of _ ?t]) (simp_all add: it upd_def)
  next
    case None
    then have nk: "(d, n) \<notin># irefs ?is" using key by (auto simp: first_index_None)
    show ?thesis
    proof (cases "first_index (\<lambda>ip. iref ip = 0) ?is")
      case e: None
      then have "iget d n s = Panic ''iget: no inodes''" by (simp add: iget_def a(2) None kpanic_def)
      then show ?thesis unfolding ref_get_def using nk e by (simp add: first_index_None)
    next
      case (Some i)
      then have i: "i < length ?is" "iref (?is ! i) = 0" by blast+
      let ?jp = "(?is ! i)\<lparr>idev := d, inum := n, iref := 1, ivalid := False\<rparr>"
      let ?t = "unlock_st LIcache (imod i (\<lambda>ip. ip\<lparr>idev := d, inum := n, iref := 1, ivalid := False\<rparr>) (lock_st LIcache s))"
      have t: "iget d n s = Ret i ?t" "quiet ?t" unfolding iget_def a(2) using run [of i "\<lambda>ip. ip\<lparr>idev := d, inum := n, iref := 1, ivalid := False\<rparr>"] Some None by simp_all
      have it: "inodes ?t = ?is[i := ?jp]" by (simp add: upd_def)
      have "icache_ok (?is[i := ?jp])" using ok i nk icache_in_refs [OF ok] unfolding icache_ok_iff by (auto simp: nth_list_update ikey_def)
      moreover have "irefs (?is[i := ?jp]) = add_mset (d, n) (irefs ?is)" using irefs_fresh [OF i, of ?jp] by (simp add: ikey_def)
      moreover have "ikey ?jp = (d, n)" "0 < iref ?jp" by (simp_all add: ikey_def)
      moreover have "\<exists>ip \<in> set ?is. iref ip = 0" using i nth_mem by blast
      ultimately show ?thesis unfolding ref_get_def using t i(1) nk by (intro if_P [THEN iffD2] exI [of _ i] exI [of _ ?t]) (simp_all add: it upd_def)
    qed
  qed
qed

lemma idup_refs:
  assumes q: "quiet s" and ok: "icache_ok (inodes s)" and i: "i < length (inodes s)" "0 < iref (inodes s ! i)"
  shows "\<exists>t. idup i s = Ret i t \<and> quiet t \<and> icache_ok (inodes t) \<and> inodes t = (inodes s)[i := (inodes s ! i)\<lparr>iref := iref (inodes s ! i) + 1\<rparr>] \<and>
    irefs (inodes t) = add_mset (ikey (inodes s ! i)) (irefs (inodes s))"
proof -
  let ?u = "imod i (\<lambda>ip. ip\<lparr>iref := iref ip + 1\<rparr>) (lock_st LIcache s)"
  note a = acquire_first [OF q, of LIcache]
  have "qheld {LIcache} ?u" using a(3) by simp
  note r = release_last [OF this]
  have it: "inodes (unlock_st LIcache ?u) = (inodes s)[i := (inodes s ! i)\<lparr>iref := iref (inodes s ! i) + 1\<rparr>]" by (simp add: upd_def)
  have "icache_ok (inodes (unlock_st LIcache ?u))" using ok i unfolding it icache_ok_iff by (auto simp: nth_list_update ikey_def)
  then show ?thesis using irefs_ref [OF i(1)] i(2) it by (intro exI [of _ "unlock_st LIcache ?u"]) (simp add: idup_def a(2) r kret_def upd_def)
qed

lemma iput_refs:
  assumes q: "quiet s" and ok: "icache_ok (inodes s)" and i: "i < length (inodes s)" "0 < iref (inodes s ! i)" and f: "\<not> slocked (sleeplocks s (SInode i))"
    and nt: "\<not> ivalid (inodes s ! i) \<or> nlink (inodes s ! i) \<noteq> 0 \<or> iref (inodes s ! i) \<noteq> 1"
  shows "\<exists>t. iput i s = Ret () t \<and> quiet t \<and> icache_ok (inodes t) \<and> inodes t = (inodes s)[i := (inodes s ! i)\<lparr>iref := iref (inodes s ! i) - 1\<rparr>] \<and>
    irefs (inodes t) = irefs (inodes s) - {#ikey (inodes s ! i)#}"
proof -
  from acquiresleep_returns [OF q f] obtain u where u: "acquiresleep (SInode i) s = Ret () u" "quiet u" by blast
  have iu: "inodes u = inodes s" using acquiresleep_Ret(4) [OF u(1)] by (rule sst_more_fs(1))
  define v where "v = (if ivalid (inodes s ! i) \<and> nlink (inodes s ! i) = 0 then unlock_st LIcache (lock_st LIcache u) else u)"
  note a = acquire_first [OF u(2), of LIcache]
  have v: "quiet v" "inodes v = inodes s" using release_last(3) [OF a(3)] u(2) iu by (simp_all add: v_def)
  have c: "kwhen (ivalid (inodes s ! i) \<and> nlink (inodes s ! i) = 0) (
       kseq (acquire LIcache) (
       kbind (kget (\<lambda>s. iref (inodes s ! i))) (\<lambda>r.
       kseq (release LIcache) (
       kwhen (r = 1) (
         kseq (itrunc i) (
         kseq (kmod (imod i (\<lambda>ip. ip\<lparr>itype := 0\<rparr>))) (
         kseq (iupdate i)
           (kmod (imod i (\<lambda>ip. ip\<lparr>ivalid := False\<rparr>)))))))))) u = Ret () v"
    using nt by (auto simp: kwhen_def v_def a(2) release_last [OF a(3)] iu kret_def)
  from releasesleep_returns [OF v(1)] obtain w where w: "releasesleep (SInode i) v = Ret () w" "quiet w" by blast
  have iw: "inodes w = inodes s" using sst_more_fs(1) [OF releasesleep_Ret(2) [OF w(1)]] v(2) by simp
  let ?x = "imod i (\<lambda>ip. ip\<lparr>iref := iref ip - 1\<rparr>) (lock_st LIcache w)"
  note b = acquire_first [OF w(2), of LIcache]
  have "qheld {LIcache} ?x" using b(3) by simp
  note r = release_last [OF this]
  have it: "inodes (unlock_st LIcache ?x) = (inodes s)[i := (inodes s ! i)\<lparr>iref := iref (inodes s ! i) - 1\<rparr>]" by (simp add: upd_def iw)
  have "icache_ok (inodes (unlock_st LIcache ?x))" using ok i unfolding it icache_ok_iff by (auto simp: nth_list_update ikey_def)
  moreover have "iput i s = Ret () (unlock_st LIcache ?x)"
    unfolding iput_def using r by (simp add: kseq_Ret [of "acquiresleep l" for l, OF u(1)] iu kseq_Ret [of "kwhen b x" u "()" v for b x] c kseq_Ret [of "releasesleep l" for l, OF w(1)] b(2))
  ultimately show ?thesis using r(3) irefs_unref [OF i] it by (intro exI [of _ "unlock_st LIcache ?x"]) (simp add: upd_def)
qed

text \<open>C5: The inode cache implements counting of references. While no two entries in use name the same inode, \<open>iget\<close>
  adds one reference to the inode asked for, in the entry that already has it, unchanged otherwise, or in an unused
  entry marked as not read yet, and panics only if there is neither; \<open>idup\<close> adds one reference and \<open>iput\<close>, when the
  inode is not to be freed, takes one away; the count in an entry is the number of all references to
  its inode, and after each operation still no inode is cached twice.\<close>

theorem icache_refines_references:
  assumes "quiet s" and "icache_ok (inodes s)"
  shows "ref_get (d, n) s (iget d n s) \<and>
    (\<forall>i < length (inodes s). 0 < iref (inodes s ! i) \<longrightarrow>
      iref (inodes s ! i) = int (count (irefs (inodes s)) (ikey (inodes s ! i))) \<and>
      (\<exists>t. idup i s = Ret i t \<and> icache_ok (inodes t) \<and> irefs (inodes t) = add_mset (ikey (inodes s ! i)) (irefs (inodes s))) \<and>
      (\<not> slocked (sleeplocks s (SInode i)) \<longrightarrow> \<not> (ivalid (inodes s ! i) \<and> nlink (inodes s ! i) = 0 \<and> iref (inodes s ! i) = 1) \<longrightarrow>
        (\<exists>t. iput i s = Ret () t \<and> icache_ok (inodes t) \<and> irefs (inodes t) = irefs (inodes s) - {#ikey (inodes s ! i)#})))"
  using iget_refs [OF assms, of d n] icache_count [OF assms(2)] idup_refs [OF assms] iput_refs [OF assms] by simp metis

lemma inodes_fsst1: "inodes fsst1 = replicate 3 inode0 @ ip1 # replicate 46 inode0"
proof -
  have "replicate NINODE inode0 = replicate 3 inode0 @ inode0 # replicate 46 inode0"
    by (simp add: NINODE_def replicate_add [symmetric] flip: replicate_Suc)
  then show ?thesis by (simp add: fsst1_def upd_def list_update_append)
qed

lemma irefs_fsst1: "irefs (inodes fsst1) = {#(1, 5)#}" "icache_ok (inodes fsst1)"
proof -
  have z: "irefs (replicate n inode0) = {#}" for n by (induction n) (simp_all add: irefs_def inode0_def)
  show "irefs (inodes fsst1) = {#(1, 5)#}" using z by (simp add: inodes_fsst1 irefs_def ikey_def) (simp add: ip1_def)
  show "icache_ok (inodes fsst1)" by (auto simp: icache_ok_def inodes_fsst1) (simp_all add: inode0_def ip1_def)
qed

theorem icache_refines_references_witness:
  "(\<exists>i t. iget 1 5 fsst1 = Ret i t \<and> irefs (inodes t) = {#(1, 5), (1, 5)#}) \<and> (\<exists>i t. iget 1 9 fsst1 = Ret i t \<and> irefs (inodes t) = {#(1, 5), (1, 9)#}) \<and>
   (\<exists>t. idup 3 fsst1 = Ret 3 t \<and> irefs (inodes t) = {#(1, 5), (1, 5)#})"
proof -
  have q: "quiet fsst1" using txn_fsst1 [of 0 0] by (simp add: txn_quiet)
  have e: "inode0 \<in> set (inodes fsst1)" "iref inode0 = 0" by (simp_all add: inodes_fsst1 inode0_def)
  have i: "0 < iref (inodes fsst1 ! 3)" "ikey (inodes fsst1 ! 3) = (1, 5)" by (simp_all add: ip1_def ikey_def)
  note C = icache_refines_references [OF q irefs_fsst1(2)]
  have f: "\<exists>ip \<in> set (inodes fsst1). iref ip = 0" using e by blast
  have "\<exists>i t. iget 1 k fsst1 = Ret i t \<and> irefs (inodes t) = {#(1, k), (1, 5)#}" for k
    using C [THEN conjunct1, of 1 k] unfolding ref_get_def irefs_fsst1(1) if_P [OF disjI2 [OF f]] by blast
  from this [of 5] this [of 9] have "\<exists>i t. iget 1 5 fsst1 = Ret i t \<and> irefs (inodes t) = {#(1, 5), (1, 5)#}" "\<exists>i t. iget 1 9 fsst1 = Ret i t \<and> irefs (inodes t) = {#(1, 5), (1, 9)#}"
    unfolding add_mset_commute [of "(1, 9)" "(1, 5)"] by blast+
  moreover have "\<exists>t. idup 3 fsst1 = Ret 3 t \<and> irefs (inodes t) = {#(1, 5), (1, 5)#}" using C [THEN conjunct2, rule_format, OF fsst1_sel(2) i(1)] unfolding irefs_fsst1(1) i(2) by blast
  ultimately show ?thesis by blast
qed

end
