(* ===== verification/Words.thy ===== *)
theory Words
  imports Prelude
begin

text \<open>
  Facts about 32-bit words that several components share: the signed reading of a word, and buffers
  indexed by counters that run modulo \<open>2 ^ 32\<close>. The latter is the locale \<open>ring\<close>, which the pipe
  interprets.
\<close>

section \<open>Signed words\<close>

lemma sint32: "sint (w :: 32 word) = (if uint w < 2 ^ 31 then uint w else uint w - 2 ^ 32)"
proof -
  have b: "0 \<le> uint w" "uint w < 2 ^ 32" using unsigned_less [of w] by simp_all
  have "sint w = (uint w + 2 ^ 31) mod 2 ^ 32 - 2 ^ 31"
    by (simp add: sint_uint signed_take_bit_eq_take_bit_shift take_bit_eq_mod)
  also have "(uint w + 2 ^ 31) mod 2 ^ 32 = (if uint w < 2 ^ 31 then uint w + 2 ^ 31 else uint w - 2 ^ 31)"
    using b by (simp add: mod_pos_pos_trivial mod_add_right_eq) (smt (verit) mod_pos_pos_trivial minus_mod_self2)
  finally show ?thesis by simp
qed

lemma uint_neg32: "w \<noteq> 0 \<Longrightarrow> uint (- w :: 32 word) = 2 ^ 32 - uint w"
proof -
  assume "w \<noteq> 0"
  then have "0 < uint w" by (metis le_less uint_0_iff uint_ge_0)
  moreover have "uint w < 2 ^ 32" using unsigned_less [of w] by simp
  ultimately show ?thesis by (simp add: uint_word_ariths zmod_zminus1_eq_if)
qed

lemma unat_lt32: "unat (w :: 32 word) < 2 ^ 32"
  using unsigned_less [of w] by simp

lemma unat_add_nowrap: "unat a + unat b < 2 ^ 32 \<Longrightarrow> unat (a + b :: 32 word) = unat a + unat b"
  by (simp add: unat_word_ariths)

section \<open>Ring buffers\<close>

text \<open>
  A ring buffer of \<open>N\<close> cells is written at the cell \<open>slot w\<close> and read at the cell \<open>slot r\<close>, where the counters \<open>r\<close> and \<open>w\<close>
  only grow, modulo \<open>2 ^ 32\<close>. The law it relies on is that \<open>N\<close> consecutive counter values, even across
  the wrap-around, have different cells.
\<close>

definition ring_list :: "(32 word \<Rightarrow> nat) \<Rightarrow> 'a list \<Rightarrow> 32 word \<Rightarrow> 32 word \<Rightarrow> 'a list" where
  "ring_list slot buf r w = map (\<lambda>i. buf ! slot (r + of_nat i)) [0..<unat (w - r)]"

lemma length_ring_list [simp]: "length (ring_list slot buf r w) = unat (w - r)"
  by (simp add: ring_list_def)

lemma ring_list_empty [simp]: "ring_list slot buf r r = []"
  by (simp add: ring_list_def)

lemma unat_diff_Suc:
  assumes "r \<noteq> (w :: 32 word)"
  shows "unat (w - r) = Suc (unat (w - (r + 1)))"
proof -
  have "w - r \<noteq> 0" using assms by simp
  then have "unat (w - r - 1) = unat (w - r) - 1" "0 < unat (w - r)"
    by (simp_all add: unat_minus_one unat_gt_0)
  then show ?thesis by (simp add: diff_diff_eq)
qed

locale ring =
  fixes N :: nat and slot :: "32 word \<Rightarrow> nat"
  assumes slot_less: "slot i < N"
    and slot_inj: "unat (j - i) < N \<Longrightarrow> slot i = slot j \<Longrightarrow> i = j"
    and small: "N < 2 ^ 32"
begin

lemma get:
  assumes "r \<noteq> w"
  shows "ring_list slot buf r w = buf ! slot r # ring_list slot buf (r + 1) w"
  unfolding ring_list_def unat_diff_Suc [OF assms] upt_conv_Cons [OF zero_less_Suc] 
  by (simp add: map_Suc_upt [symmetric] comp_def add.assoc del: upt_Suc)

lemma room: "unat (w - r :: 32 word) < N \<Longrightarrow> unat (w + 1 - r) = Suc (unat (w - r))"
proof -
  assume a: "unat (w - r :: 32 word) < N"
  have "unat (w - r + 1) = unat (w - r) + unat (1 :: 32 word)"
    by (rule unat_add_nowrap) (use a small in simp)
  then show ?thesis by (simp add: algebra_simps)
qed

lemma put:
  assumes "unat (w - r) < N" and "length buf = N"
  shows "ring_list slot (buf[slot w := c]) r (w + 1) = ring_list slot buf r w @ [c]"
proof (rule nth_equalityI)
  show "length (ring_list slot (buf[slot w := c]) r (w + 1)) = length (ring_list slot buf r w @ [c])"
    using room [OF assms(1)] by simp
next
  fix i assume "i < length (ring_list slot (buf[slot w := c]) r (w + 1))"
  then have i: "i < Suc (unat (w - r))" using room [OF assms(1)] by simp
  show "ring_list slot (buf[slot w := c]) r (w + 1) ! i = (ring_list slot buf r w @ [c]) ! i"
  proof (cases "i = unat (w - r)")
    case True
    then show ?thesis using assms(2) slot_less [of w] room [OF assms(1)]
      by (simp add: ring_list_def nth_append)
  next
    case False
    have u: "unat (of_nat i :: 32 word) = i" using i assms(1) small by (simp add: unat_of_nat)
    have "slot (r + of_nat i) \<noteq> slot w"
    proof
      assume e: "slot (r + of_nat i) = slot w"
      have "of_nat i < w - r" using i False u by (simp add: word_less_nat_alt)
      then have "unat (w - r - of_nat i) = unat (w - r) - unat (of_nat i :: 32 word)" by (intro unat_sub order.strict_implies_order)
      then have "unat (w - (r + of_nat i)) < N" using assms(1) u by (simp add: diff_diff_eq)
      from slot_inj [OF this e] have "w - r = of_nat i" by (simp add: algebra_simps)
      then show False using False u by simp
    qed
    then show ?thesis using i False room [OF assms(1)] by (simp add: ring_list_def nth_append)
  qed
qed

end

text \<open>Reducing the counter modulo a power of two gives such cells.\<close>

lemma slot_mod_inj:
  assumes "N = 2 ^ k" and "k < 32" and "unat (j - i) < N" and "unat (i mod of_nat N) = unat (j mod of_nat N)"
  shows "i = (j :: 32 word)"
proof -
  have "(2 :: nat) ^ k < 2 ^ 32" by (rule power_strict_increasing) (use assms(2) in simp_all)
  then have "N < 2 ^ 32" using assms(1) by simp
  then have N: "unat (of_nat N :: 32 word) = N" by (simp add: unat_of_nat)
  have e: "unat i mod N = unat j mod N" using assms(4) by (simp add: unat_mod_distrib N)
  have "(2 :: nat) ^ k dvd 2 ^ 32" by (rule le_imp_power_dvd) (use assms(2) in simp)
  then have "int N dvd int (2 ^ 32)" using assms(1) by (simp only: of_nat_dvd_iff)
  then have d: "int N dvd 2 ^ 32" by simp
  have "int (unat (j - i)) mod int N = (uint j - uint i) mod 2 ^ 32 mod int N"
    by (simp add: uint_word_ariths)
  also have "\<dots> = (int (unat j) - int (unat i)) mod int N"
    unfolding mod_mod_cancel [OF d] by simp
  also have "\<dots> = 0"
  proof (rule dvd_imp_mod_0)
    have "int (unat j mod N) = int (unat i mod N)" by (simp only: e)
    then show "int N dvd int (unat j) - int (unat i)" by (simp only: of_nat_mod mod_eq_dvd_iff)
  qed
  finally have "int (unat (j - i) mod N) = 0" by (simp only: of_nat_mod)
  then have "unat (j - i) mod N = 0" by (simp only: of_nat_eq_0_iff)
  then have "unat (j - i) = 0" using assms(3) by simp
  then show ?thesis by (simp add: unat_eq_0)
qed

end
