(* ===== verification/Pipe.thy ===== *)
theory Pipe
  imports Filedata Icache Words
begin

text \<open>
  \<^verbatim>\<open>pipe.c\<close> without \<open>pipealloc\<close>, which allocates files and is in the theory of \<^verbatim>\<open>file.c\<close>. A pipe is the page
  at the address \<open>kalloc\<close> returned; \<open>pipes\<close> is what the structures at these addresses hold. \<open>nread\<close> and
  \<open>nwrite\<close> count bytes modulo \<open>2 ^ 32\<close>.

  A writer that finds the pipe full blocks; when it is woken it continues with \<open>pipewrite_loop\<close> on the
  bytes it has not written. A reader that blocks starts again.
\<close>

section \<open>Operations\<close>

definition PIPESIZE :: nat where "PIPESIZE = 512"

record pipe =
  pdata :: "byte list"
  nread :: "32 word"
  nwrite :: "32 word"
  readopen :: bool
  writeopen :: bool

record pipest = fsst +
  pipes :: "addr \<Rightarrow> pipe"

definition pipemod :: "addr \<Rightarrow> (pipe \<Rightarrow> pipe) \<Rightarrow> 'z pipest_scheme \<Rightarrow> 'z pipest_scheme" where
  "pipemod p f s = s\<lparr>pipes := (pipes s)(p := f (pipes s p))\<rparr>"

definition am_killed :: "('z pst_scheme, bool) kop" where
  "am_killed = kbind curproc (\<lambda>p. kget (\<lambda>s. killed (procs s ! p)))"

definition pipeclose :: "addr \<Rightarrow> bool \<Rightarrow> ('z pipest_scheme, unit) kop" where
  "pipeclose p wr =
     kseq (acquire (LPipe (unat p))) (
     kseq (if wr
           then kseq (kmod (pipemod p (\<lambda>q. q\<lparr>writeopen := False\<rparr>))) (wakeup (CPipeR (unat p)))
           else kseq (kmod (pipemod p (\<lambda>q. q\<lparr>readopen := False\<rparr>))) (wakeup (CPipeW (unat p)))) (
     kbind (kget (\<lambda>s. pipes s p)) (\<lambda>q.
     if \<not> readopen q \<and> \<not> writeopen q
     then kseq (release (LPipe (unat p))) (kfree p)
     else release (LPipe (unat p)))))"

definition pipe_put :: "byte \<Rightarrow> pipe \<Rightarrow> pipe" where
  "pipe_put c q = q\<lparr>pdata := (pdata q)[unat (nwrite q mod of_nat PIPESIZE) := c], nwrite := nwrite q + 1\<rparr>"

primrec pipewrite_loop :: "addr \<Rightarrow> int \<Rightarrow> byte list \<Rightarrow> ('z pipest_scheme, int) kop" where
  "pipewrite_loop p n [] =
     kseq (wakeup (CPipeR (unat p))) (
     kseq (release (LPipe (unat p)))
       (kret n))"
| "pipewrite_loop p n (c # cs) =
     kbind (kget (\<lambda>s. pipes s p)) (\<lambda>q.
     if nwrite q = nread q + of_nat PIPESIZE then
       kbind (if \<not> readopen q then kret True else am_killed) (\<lambda>stop.
       if stop then kseq (release (LPipe (unat p))) (kret (- 1))
       else
         kseq (wakeup (CPipeR (unat p))) (
         kseq (sleep (CPipeW (unat p)) (LPipe (unat p)))
           (kret 0)))
     else
       kseq (kmod (pipemod p (pipe_put c)))
         (pipewrite_loop p n cs))"

definition pipewrite :: "addr \<Rightarrow> byte list \<Rightarrow> int \<Rightarrow> ('z pipest_scheme, int) kop" where
  "pipewrite p src n =
     kseq (acquire (LPipe (unat p)))
       (pipewrite_loop p n (take (nat n) src))"

definition pipe_get :: "pipe \<Rightarrow> byte \<times> pipe" where
  "pipe_get q = (pdata q ! unat (nread q mod of_nat PIPESIZE), q\<lparr>nread := nread q + 1\<rparr>)"

primrec piperead_copy :: "nat \<Rightarrow> pipe \<Rightarrow> byte list \<times> pipe" where
  "piperead_copy 0 q = ([], q)"
| "piperead_copy (Suc n) q =
     (if nread q = nwrite q then ([], q)
      else let (c, q1) = pipe_get q; (cs, q2) = piperead_copy n q1 in (c # cs, q2))"

definition piperead :: "addr \<Rightarrow> int \<Rightarrow> ('z pipest_scheme, int \<times> byte list) kop" where
  "piperead p n =
     kseq (acquire (LPipe (unat p))) (
     kbind (kget (\<lambda>s. pipes s p)) (\<lambda>q.
     if nread q = nwrite q \<and> writeopen q then
       kbind am_killed (\<lambda>k.
       if k then kseq (release (LPipe (unat p))) (kret (- 1, []))
       else
         kseq (sleep (CPipeR (unat p)) (LPipe (unat p)))
           (kret (0, [])))
     else
       kbind (kget (\<lambda>s. fst (piperead_copy (nat n) (pipes s p)))) (\<lambda>cs.
       kseq (kmod (pipemod p (\<lambda>q. snd (piperead_copy (nat n) q)))) (
       kseq (wakeup (CPipeW (unat p))) (
       kseq (release (LPipe (unat p)))
         (kret (int (length cs), cs)))))))"

section \<open>Waking up\<close>

text \<open>The state after a \<open>wakeup\<close> that returns.\<close>

definition wake_st :: "Prelude.chan \<Rightarrow> 'z pst_scheme \<Rightarrow> 'z pst_scheme" where
  "wake_st ch s = (unlock_st LPtable (lock_st LPtable s))\<lparr>procs :=
     map (\<lambda>p. if state p = SLEEPING \<and> chan p = ch then p\<lparr>state := RUNNABLE\<rparr> else p) (procs s)\<rparr>"

lemma wakeup_then:
  assumes "qheld L s" and "LPtable \<notin> L"
  shows "wakeup ch s = Ret () (wake_st ch s)" and "kseq (wakeup ch) m s = m (wake_st ch s)" and "qheld L (wake_st ch s)"
proof -
  have a: "kready s" "spin s LPtable = unlocked" using assms by (simp_all add: qheld_def)
  show w: "wakeup ch s = Ret () (wake_st ch s)" using wakeup_Ret [OF a] by (simp add: wake_st_def)
  then show "kseq (wakeup ch) m s = m (wake_st ch s)" by (rule kseq_Ret)
  show "qheld L (wake_st ch s)" using qheld_wakeup [OF assms, of ch] w by simp
qed

lemma wake_st_sel [simp]:
  "pst.more (wake_st ch s) = pst.more s" "ncli (wake_st ch s) = ncli s" "cur (wake_st ch s) = cur s"
  "length (procs (wake_st ch s)) = length (procs s)"
  "i < length (procs s) \<Longrightarrow> killed (procs (wake_st ch s) ! i) = killed (procs s ! i)"
  by (simp_all add: wake_st_def lock_st_def unlock_st_def)

lemma wake_st_pipes [simp]: "pipes (wake_st ch s) = pipes s"
  by (simp add: wake_st_def lock_st_def unlock_st_def)

lemma am_killed_Ret: "qheld L s \<Longrightarrow> 0 < ncli s \<Longrightarrow> kbind am_killed f s = f (killed (procs s ! the (cur s))) s"
  by (auto simp: am_killed_def qheld_def kdefs curproc_Ret)

section \<open>The contents of a pipe\<close>

abbreviation pipe_slot :: "32 word \<Rightarrow> nat" where
  "pipe_slot i \<equiv> unat (i mod of_nat PIPESIZE)"

interpretation pipe_ring: ring PIPESIZE pipe_slot
proof
  show "pipe_slot i < PIPESIZE" for i by (simp add: PIPESIZE_def unat_mod_distrib)
  show "i = j" if "unat (j - i) < PIPESIZE" and "pipe_slot i = pipe_slot j" for i j
    using slot_mod_inj [of PIPESIZE 9 j i] that by (simp add: PIPESIZE_def)
  show "PIPESIZE < 2 ^ 32" by (simp add: PIPESIZE_def)
qed

definition pipe_list :: "pipe \<Rightarrow> byte list" where
  "pipe_list q = ring_list pipe_slot (pdata q) (nread q) (nwrite q)"

definition pipe_ok :: "pipe \<Rightarrow> bool" where
  "pipe_ok q \<longleftrightarrow> length (pdata q) = PIPESIZE \<and> length (pipe_list q) \<le> PIPESIZE"

lemma pipe_full: "pipe_ok q \<Longrightarrow> nwrite q = nread q + of_nat PIPESIZE \<longleftrightarrow> length (pipe_list q) = PIPESIZE"
proof -
  have "unat (nwrite q - nread q) = PIPESIZE \<longleftrightarrow> nwrite q - nread q = of_nat PIPESIZE"
    by (simp add: PIPESIZE_def word_unat_eq_iff)
  then show ?thesis by (auto simp: pipe_list_def algebra_simps)
qed

lemma pipe_empty: "nread q = nwrite q \<longleftrightarrow> pipe_list q = []"
  by (metis eq_iff_diff_eq_0 length_0_conv length_ring_list pipe_list_def unat_eq_zero)

lemma pipe_put_list:
  assumes "pipe_ok q" and "length (pipe_list q) < PIPESIZE"
  shows "pipe_list (pipe_put c q) = pipe_list q @ [c]" and "pipe_ok (pipe_put c q)"
proof -
  show l: "pipe_list (pipe_put c q) = pipe_list q @ [c]"
    using assms pipe_ring.put [of "nwrite q" "nread q" "pdata q" c] by (simp add: pipe_list_def pipe_put_def pipe_ok_def)
  show "pipe_ok (pipe_put c q)" using assms unfolding pipe_ok_def l by (simp add: pipe_put_def)
qed

lemma pipe_get_list:
  assumes "pipe_ok q" and "pipe_list q \<noteq> []"
  shows "pipe_list q = fst (pipe_get q) # pipe_list (snd (pipe_get q))" and "pipe_ok (snd (pipe_get q))"
proof -
  have "nread q \<noteq> nwrite q" using assms(2) pipe_empty by blast
  from pipe_ring.get [OF this, of "pdata q"]
  show l: "pipe_list q = fst (pipe_get q) # pipe_list (snd (pipe_get q))" by (simp add: pipe_list_def pipe_get_def)
  show "pipe_ok (snd (pipe_get q))" using assms(1) l by (simp add: pipe_ok_def pipe_get_def)
qed

lemma piperead_copy_list:
  "pipe_ok q \<Longrightarrow> fst (piperead_copy n q) = take n (pipe_list q) \<and> pipe_list (snd (piperead_copy n q)) = drop n (pipe_list q) \<and>
     pipe_ok (snd (piperead_copy n q))"
proof (induction n arbitrary: q)
  case 0
  then show ?case by simp
next
  case (Suc n)
  show ?case
  proof (cases "pipe_list q = []")
    case True
    then show ?thesis using Suc.prems by (simp add: pipe_empty)
  next
    case False
    from pipe_get_list [OF Suc.prems this] Suc.IH [of "snd (pipe_get q)"] show ?thesis
      using False by (simp add: pipe_empty case_prod_beta)
  qed
qed

section \<open>Writing and reading\<close>

lemma pipemod_sel [simp]:
  "pipes (pipemod p f s) = (pipes s)(p := f (pipes s p))" "ncli (pipemod p f s) = ncli s" "cur (pipemod p f s) = cur s"
  "procs (pipemod p f s) = procs s"
  by (simp_all add: pipemod_def)

lemma qheld_pipemod [simp]: "qheld L (pipemod p f s) = qheld L s"
  by (simp add: pipemod_def qheld_def kready_def cpu_of_def)

lemma lock_st_pipes [simp]: "pipes (lock_st lk s) = pipes s" "pipes (unlock_st lk s) = pipes s" "pipes (sleep_st i ch lk s) = pipes s"
  by (simp_all add: lock_st_def unlock_st_def sleep_st_def pmod_def)

text \<open>
  \<open>pipe_was s p xs t\<close>: between \<open>s\<close> and \<open>t\<close> only the pipe \<open>p\<close> changed, and it now holds \<open>xs\<close>.
\<close>

definition pipe_was :: "'z pipest_scheme \<Rightarrow> addr \<Rightarrow> byte list \<Rightarrow> 'z pipest_scheme \<Rightarrow> bool" where
  "pipe_was s p xs t \<longleftrightarrow> (\<forall>p'. p' \<noteq> p \<longrightarrow> pipes t p' = pipes s p') \<and> pipe_ok (pipes t p) \<and> pipe_list (pipes t p) = xs \<and>
     readopen (pipes t p) = readopen (pipes s p) \<and> writeopen (pipes t p) = writeopen (pipes s p)"

definition pipe_stop :: "'z pipest_scheme \<Rightarrow> addr \<Rightarrow> bool" where
  "pipe_stop s p \<longleftrightarrow> \<not> readopen (pipes s p) \<or> killed (procs s ! the (cur s))"

lemma pipe_was_put:
  assumes "pipe_ok (pipes s p)" and "length (pipe_list (pipes s p)) < PIPESIZE"
    and "pipe_was (pipemod p (pipe_put c) s) p xs t"
  shows "pipe_was s p xs t"
  using assms by (simp add: pipe_was_def pipe_put_def)

lemma sleep_st_sleeps: "i < length (procs s) \<Longrightarrow>
    state (procs (sleep_st i ch lk s) ! i) = SLEEPING \<and> chan (procs (sleep_st i ch lk s) ! i) = ch"
  by (simp add: sleep_st_def pmod_def asleep_def)

lemma pipewrite_fits:
  assumes "qheld {LPipe (unat p)} s" and "pipe_ok (pipes s p)" and "length (pipe_list (pipes s p)) + length cs \<le> PIPESIZE"
  shows "\<exists>t. pipewrite_loop p n cs s = Ret n t \<and> quiet t \<and> pipe_was s p (pipe_list (pipes s p) @ cs) t"
  using assms
proof (induction cs arbitrary: s)
  case Nil
  note w = wakeup_then [OF Nil.prems(1), of "CPipeR (unat p)"]
  show ?case using Nil.prems(2) by (simp add: w release_last [OF w(3)] pipe_was_def)
next
  case (Cons c cs)
  let ?s = "pipemod p (pipe_put c) s"
  have l: "length (pipe_list (pipes s p)) < PIPESIZE" using Cons.prems(3) by simp
  note put = pipe_put_list [OF Cons.prems(2) l, of c]
  have f: "nwrite (pipes s p) \<noteq> nread (pipes s p) + of_nat PIPESIZE"
    using pipe_full [OF Cons.prems(2)] l by simp
  have "\<exists>t. pipewrite_loop p n cs ?s = Ret n t \<and> quiet t \<and> pipe_was ?s p (pipe_list (pipes ?s p) @ cs) t"
    using Cons.prems put by (intro Cons.IH) simp_all
  then show ?case using f pipe_was_put [OF Cons.prems(2) l] by (auto simp: put)
qed

lemma pipewrite_full:
  assumes "qheld {LPipe (unat p)} s" and "ncli s = 1" and "pipe_ok (pipes s p)" and "PIPESIZE < length (pipe_list (pipes s p)) + length cs"
  defines "ys \<equiv> pipe_list (pipes s p) @ take (PIPESIZE - length (pipe_list (pipes s p))) cs"
  shows "if pipe_stop s p then \<exists>t. pipewrite_loop p n cs s = Ret (- 1) t \<and> quiet t \<and> pipe_was s p ys t
    else \<exists>t. pipewrite_loop p n cs s = Block t \<and> pipe_was s p ys t \<and>
      state (procs t ! the (cur s)) = SLEEPING \<and> chan (procs t ! the (cur s)) = CPipeW (unat p)"
  using assms(1-4) unfolding ys_def
proof (induction cs arbitrary: s)
  case Nil
  then show ?case by (simp add: pipe_ok_def)
next
  case (Cons c cs)
  show ?case
  proof (cases "length (pipe_list (pipes s p)) = PIPESIZE")
    case True
    then have f: "nwrite (pipes s p) = nread (pipes s p) + of_nat PIPESIZE" using pipe_full [OF Cons.prems(3)] by simp
    note w = wakeup_then [OF Cons.prems(1), of "CPipeR (unat p)"]
    obtain i where i: "cur s = Some i" "i < length (procs s)" using Cons.prems(1) by (auto simp: qheld_def)
    have k: "kbind (if \<not> readopen (pipes s p) then kret True else am_killed) g s = g (pipe_stop s p) s" for g :: "bool \<Rightarrow> _"
      using am_killed_Ret [OF Cons.prems(1), of g] Cons.prems(2) by (simp add: pipe_stop_def)
    have "sleep (CPipeW (unat p)) (LPipe (unat p)) (wake_st (CPipeR (unat p)) s) = Block (sleep_st i (CPipeW (unat p)) (LPipe (unat p)) (wake_st (CPipeR (unat p)) s))"
      by (rule sleep_locked) (use w Cons.prems i in simp_all)
    moreover have "pipe_was s p (pipe_list (pipes s p)) t" if "pipes t = pipes s" for t
      using that Cons.prems(3) by (simp add: pipe_was_def)
    ultimately show ?thesis using True f i
      by (simp add: k w release_last [OF Cons.prems(1)] kseq_stop sleep_st_sleeps)
  next
    case False
    then have l: "length (pipe_list (pipes s p)) < PIPESIZE" using Cons.prems(3) by (simp add: pipe_ok_def)
    let ?s = "pipemod p (pipe_put c) s"
    note put = pipe_put_list [OF Cons.prems(3) l, of c]
    have f: "nwrite (pipes s p) \<noteq> nread (pipes s p) + of_nat PIPESIZE" using pipe_full [OF Cons.prems(3)] False by simp
    have st: "pipe_stop ?s p = pipe_stop s p" by (simp add: pipe_stop_def pipe_put_def)
    have tk: "pipe_list (pipes ?s p) @ take (PIPESIZE - length (pipe_list (pipes ?s p))) cs =
        pipe_list (pipes s p) @ take (PIPESIZE - length (pipe_list (pipes s p))) (c # cs)"
      using l by (simp add: put take_Cons' Suc_diff_Suc)
    show ?thesis
      using Cons.IH [of ?s] Cons.prems put f pipe_was_put [OF Cons.prems(3) l] unfolding tk st
      by (auto split: if_splits)
  qed
qed

lemma pipe_was_lock: "pipe_was (lock_st lk s) p xs t = pipe_was s p xs t"
  by (simp add: pipe_was_def)

lemma pipe_stop_lock: "pipe_stop (lock_st lk s) p = pipe_stop s p"
  by (simp add: pipe_stop_def)

lemma piperead_takes:
  assumes "quiet s" and "pipe_ok (pipes s p)" and "pipe_list (pipes s p) \<noteq> [] \<or> \<not> writeopen (pipes s p)"
  shows "\<exists>t. piperead p n s = Ret (int (length (take (nat n) (pipe_list (pipes s p)))), take (nat n) (pipe_list (pipes s p))) t \<and>
    quiet t \<and> pipe_was s p (drop (nat n) (pipe_list (pipes s p))) t"
proof -
  let ?l = "LPipe (unat p)" and ?q = "pipes s p"
  let ?s = "pipemod p (\<lambda>q. snd (piperead_copy (nat n) q)) (lock_st ?l s)"
  note a = acquire_first [OF assms(1), of ?l]
  have "qheld {?l} ?s" using a(3) by simp
  note w = wakeup_then [OF this, of "CPipeW (unat p)"]
  have e: "\<not> (nread ?q = nwrite ?q \<and> writeopen ?q)" using assms(3) by (auto simp: pipe_empty)
  note c = piperead_copy_list [OF assms(2), of "nat n"]
  have o: "readopen (snd (piperead_copy m q)) = readopen q \<and> writeopen (snd (piperead_copy m q)) = writeopen q" for m q
    by (induction m arbitrary: q) (simp_all add: case_prod_beta pipe_get_def)
  have "piperead p n s = Ret (int (length (take (nat n) (pipe_list ?q))), take (nat n) (pipe_list ?q))
      (unlock_st ?l (wake_st (CPipeW (unat p)) ?s))"
    unfolding piperead_def using e c by (auto simp: a(2) w release_last [OF w(3)] kret_def)
  then show ?thesis using c o release_last(3) [OF w(3)] by (simp add: pipe_was_def)
qed

lemma piperead_waits:
  assumes "quiet s" and "ncli s = 0" and "pipe_list (pipes s p) = []" and "writeopen (pipes s p)"
  shows "if killed (procs s ! the (cur s)) then \<exists>t. piperead p n s = Ret (- 1, []) t \<and> quiet t \<and> pipes t = pipes s
    else \<exists>t. piperead p n s = Block t \<and> pipes t = pipes s \<and> state (procs t ! the (cur s)) = SLEEPING \<and> chan (procs t ! the (cur s)) = CPipeR (unat p)"
proof -
  let ?l = "LPipe (unat p)" and ?s = "lock_st (LPipe (unat p)) s"
  note a = acquire_first [OF assms(1), of ?l]
  obtain i where i: "cur s = Some i" "i < length (procs s)" using assms(1) by (auto simp: qheld_def)
  have n: "ncli ?s = 1" using assms(2) by simp
  have e: "nread (pipes s p) = nwrite (pipes s p)" using assms(3) by (simp add: pipe_empty)
  have "sleep (CPipeR (unat p)) ?l ?s = Block (sleep_st i (CPipeR (unat p)) ?l ?s)"
    by (rule sleep_locked [OF a(3) n]) (use i in simp_all)
  then show ?thesis
    unfolding piperead_def using e assms(4) i n
    by (simp add: a(2) am_killed_Ret [OF a(3)] release_last [OF a(3)] kseq_stop sleep_st_sleeps)
qed

text \<open>
  The abstract pipe is a queue of at most \<open>PIPESIZE\<close> bytes. What its two operations promise of the result \<open>r\<close> of a
  call from the state \<open>s\<close>:
\<close>

definition queue_write :: "'z pipest_scheme \<Rightarrow> addr \<Rightarrow> byte list \<Rightarrow> int \<Rightarrow> (int, 'z pipest_scheme) kres \<Rightarrow> bool" where
  "queue_write s p cs n r =
     (let xs = pipe_list (pipes s p); me = the (cur s); ys = xs @ take (PIPESIZE - length xs) cs in
      if length xs + length cs \<le> PIPESIZE then \<exists>t. r = Ret n t \<and> quiet t \<and> pipe_was s p (xs @ cs) t
      else if pipe_stop s p then \<exists>t. r = Ret (- 1) t \<and> quiet t \<and> pipe_was s p ys t
      else \<exists>t. r = Block t \<and> pipe_was s p ys t \<and> state (procs t ! me) = SLEEPING \<and> chan (procs t ! me) = CPipeW (unat p))"

definition queue_read :: "'z pipest_scheme \<Rightarrow> addr \<Rightarrow> nat \<Rightarrow> (int \<times> byte list, 'z pipest_scheme) kres \<Rightarrow> bool" where
  "queue_read s p n r =
     (let xs = pipe_list (pipes s p); me = the (cur s) in
      if xs \<noteq> [] \<or> \<not> writeopen (pipes s p) then
        \<exists>t. r = Ret (int (length (take n xs)), take n xs) t \<and> quiet t \<and> pipe_was s p (drop n xs) t
      else if killed (procs s ! me) then \<exists>t. r = Ret (- 1, []) t \<and> quiet t \<and> pipes t = pipes s
      else \<exists>t. r = Block t \<and> pipes t = pipes s \<and> state (procs t ! me) = SLEEPING \<and> chan (procs t ! me) = CPipeR (unat p))"

lemma pipewrite_queue:
  assumes "quiet s" and "ncli s = 0" and "pipe_ok (pipes s p)"
  shows "queue_write s p cs n (pipewrite_loop p n cs (lock_st (LPipe (unat p)) s))"
proof -
  note a = acquire_first [OF assms(1), of "LPipe (unat p)"]
  show ?thesis
  proof (cases "length (pipe_list (pipes s p)) + length cs \<le> PIPESIZE")
    case True
    then show ?thesis using pipewrite_fits [OF a(3), of cs n] assms(3) by (simp add: queue_write_def Let_def pipe_was_lock)
  next
    case False
    then have "PIPESIZE < length (pipe_list (pipes (lock_st (LPipe (unat p)) s) p)) + length cs" by simp
    with pipewrite_full [OF a(3) _ _ this, of n] False assms(2,3) show ?thesis
      by (simp add: queue_write_def Let_def pipe_was_lock pipe_stop_lock split: if_splits)
  qed
qed

text \<open>C7: A pipe is a bounded queue of bytes. Whatever the two counters are, also across their overflow at
  \<open>2 ^ 32\<close>: \<open>pipewrite\<close> appends all its bytes and returns their number when they fit; otherwise it appends
  exactly as many as fit, and then fails with -1 when the read end is closed or the process is
  killed, and else sleeps until a reader makes room. \<open>piperead\<close> takes the oldest bytes, as many as there are up to
  \<open>n\<close>; from an empty pipe it returns 0 when no writer is left, and otherwise sleeps, or fails when
  killed. Nothing else changes, no other pipe and neither end's flag.\<close>

theorem pipe_refines_queue:
  assumes "quiet s" and "ncli s = 0" and "pipe_ok (pipes s p)"
  shows "queue_write s p (take (nat n) src) n (pipewrite p src n s) \<and> queue_read s p (nat n) (piperead p n s)"
proof
  show "queue_write s p (take (nat n) src) n (pipewrite p src n s)"
    using pipewrite_queue [OF assms] by (simp add: pipewrite_def acquire_first(2) [OF assms(1)])
  show "queue_read s p (nat n) (piperead p n s)"
    using piperead_takes [OF assms(1,3), of n] piperead_waits [OF assms(1,2), of p n]
    by (cases "pipe_list (pipes s p) \<noteq> [] \<or> \<not> writeopen (pipes s p)") (simp_all add: queue_read_def Let_def)
qed

text \<open>An empty pipe whose counters are about to overflow, with no writer left.\<close>

definition pipest0 :: pipest where
  "pipest0 = fsst.extend (fsst0 disk1) (pipest.fields (\<lambda>_. \<lparr>pdata = replicate PIPESIZE 0, nread = - 1, nwrite = - 1, readopen = True, writeopen = False\<rparr>))"

lemma pipest0_sel [simp]:
  "pipes pipest0 = (\<lambda>_. \<lparr>pdata = replicate PIPESIZE 0, nread = - 1, nwrite = - 1, readopen = True, writeopen = False\<rparr>)"
  by (simp add: pipest0_def fsst.defs pipest.defs)

lemma quiet_fsst0: "quiet (fsst0 disk1)"
  by (rule txn_quiet [OF txn_fsst0]) (rule length_disk1)

lemma quiet_pipest0: "quiet pipest0" "ncli pipest0 = 0"
proof -
  have n: "ncli (fsst0 disk1) = 0" by (simp add: fsst0_def lst_extend_sel)
  have e: "kst.truncate pipest0 = kst.truncate (fsst0 disk1)" "cur pipest0 = cur (fsst0 disk1)" "procs pipest0 = procs (fsst0 disk1)"
    "spin pipest0 = spin (fsst0 disk1)" "ncli pipest0 = ncli (fsst0 disk1)" "ifl pipest0 = ifl (fsst0 disk1)" "cpu_of pipest0 = cpu_of (fsst0 disk1)"
    by (simp_all add: pipest0_def fsst.defs kst.defs cpu_of_def)
  show "quiet pipest0" "ncli pipest0 = 0" using quiet_fsst0 n by (simp_all add: qheld_def kready_def e)
qed

theorem pipe_refines_queue_witness:
  "(\<exists>t. pipewrite 4096 [65, 66] 2 pipest0 = Ret 2 t \<and> pipe_list (pipes t 4096) = [65, 66]) \<and> (\<exists>t. piperead 4096 2 pipest0 = Ret (0, []) t)"
proof -
  have "pipe_list (pipes pipest0 4096) = []" by (simp add: pipe_empty [symmetric])
  then show ?thesis using pipe_refines_queue [OF quiet_pipest0, of 4096 2 "[65, 66]"]
    by (auto simp: queue_write_def queue_read_def pipe_ok_def pipe_was_def PIPESIZE_def split: if_splits)
qed

end
