(* ===== verification/Vm.thy ===== *)
theory Vm
  imports Sched
begin

text \<open>
  \<^verbatim>\<open>vm.c\<close>: page tables. A page table is in kernel memory, where the processor finds it: \<open>pd\<close> (\<open>pgdir\<close> in the source) is the
  kernel address of the page directory, an array of 1024 entries, and a present entry holds the
  physical address of a page table page with 1024 entries. Entries are words of the memory \<open>mem\<close>.

  Messages printed with \<open>cprintf\<close> are left out. \<open>loaduvm\<close>, which reads from a file, is in the theory of
  \<^verbatim>\<open>exec.c\<close>; \<open>switchuvm\<close> and \<open>switchkvm\<close> are with the scheduler.
\<close>

unbundle bit_operations_syntax

section \<open>Addresses and entries\<close>

definition PDX :: "addr \<Rightarrow> addr" where "PDX va = drop_bit 22 va AND 0x3FF"
definition PTX :: "addr \<Rightarrow> addr" where "PTX va = drop_bit 12 va AND 0x3FF"
definition PGADDR :: "addr \<Rightarrow> addr \<Rightarrow> addr \<Rightarrow> addr" where
  "PGADDR d t off = push_bit 22 d OR push_bit 12 t OR off"

definition PTE_P :: addr where "PTE_P = 0x001"
definition PTE_W :: addr where "PTE_W = 0x002"
definition PTE_U :: addr where "PTE_U = 0x004"
definition PTE_ADDR :: "addr \<Rightarrow> addr" where "PTE_ADDR pte = pte AND NOT 0xFFF"
definition PTE_FLAGS :: "addr \<Rightarrow> addr" where "PTE_FLAGS pte = pte AND 0xFFF"

definition EXTMEM :: addr where "EXTMEM = 0x100000"
definition DEVSPACE :: addr where "DEVSPACE = 0xFE000000"
definition KERNLINK :: addr where "KERNLINK = KERNBASE + EXTMEM"

definition mmod :: "(memory \<Rightarrow> memory) \<Rightarrow> ('z mst_scheme, unit) kop" where
  "mmod f = kmod (\<lambda>s. s\<lparr>mem := f (mem s)\<rparr>)"

definition mload :: "addr \<Rightarrow> ('z mst_scheme, addr) kop" where
  "mload a = kget (\<lambda>s. load32 (mem s) a)"

section \<open>Walking a page table\<close>

definition walkpgdir :: "addr \<Rightarrow> addr \<Rightarrow> bool \<Rightarrow> ('z mst_scheme, addr) kop" where
  "walkpgdir pd va alloc =
     kbind (mload (pd + 4 * PDX va)) (\<lambda>pde.
     if pde AND PTE_P \<noteq> 0 then kret (P2V (PTE_ADDR pde) + 4 * PTX va)
     else if \<not> alloc then kret 0
     else
       kbind kalloc (\<lambda>pgtab.
       if pgtab = 0 then kret 0
       else
         kseq (mmod (memset pgtab 0 PGSIZE)) (
         kseq (mmod (store32 (pd + 4 * PDX va) (V2P pgtab OR PTE_P OR PTE_W OR PTE_U)))
           (kret (pgtab + 4 * PTX va)))))"

text \<open>
  The loop of \<open>mappages\<close> visits \<open>a\<close> and the pages after it until \<open>a == last\<close>; both are multiples of the
  page size, so it ends after \<open>n + 1\<close> rounds where \<open>n\<close> is the number of pages from \<open>a\<close> to \<open>last\<close>, even if
  the addresses wrap around on the way (they do for the device space, which ends at \<open>2 ^ 32\<close>).
\<close>

definition mappages1 :: "addr \<Rightarrow> addr \<Rightarrow> addr \<Rightarrow> addr \<Rightarrow> ('z mst_scheme, int) kop" where
  "mappages1 pd a pa perm =
     kbind (walkpgdir pd a True) (\<lambda>pte.
     if pte = 0 then kret (- 1)
     else
       kbind (mload pte) (\<lambda>e.
       if e AND PTE_P \<noteq> 0 then kpanic ''remap''
       else
         kseq (mmod (store32 pte (pa OR perm OR PTE_P)))
           (kret 0)))"

primrec mappages_loop :: "addr \<Rightarrow> nat \<Rightarrow> addr \<Rightarrow> addr \<Rightarrow> addr \<Rightarrow> ('z mst_scheme, int) kop" where
  "mappages_loop pd 0 a pa perm = mappages1 pd a pa perm"
| "mappages_loop pd (Suc n) a pa perm =
     kbind (mappages1 pd a pa perm) (\<lambda>r.
     if r < 0 then kret r else mappages_loop pd n (a + PGSIZE) (pa + PGSIZE) perm)"

definition mappages :: "addr \<Rightarrow> addr \<Rightarrow> addr \<Rightarrow> addr \<Rightarrow> addr \<Rightarrow> ('z mst_scheme, int) kop" where
  "mappages pd va n pa perm =
     (let a = PGROUNDDOWN va; last = PGROUNDDOWN (va + n - 1)
      in mappages_loop pd (unat ((last - a) div PGSIZE)) a pa perm)"

section \<open>Removing pages\<close>

text \<open>
  Loops of the form \<open>for(a = ...; a < z; a += PGSIZE)\<close>. If \<open>z\<close> lies in the last page of the address
  space, the address wraps around to 0 and the loop goes on for ever: this is \<open>kspin\<close>.
\<close>

definition kspin :: "('s, 'a) kop" where
  "kspin s = Block s"

definition next_page :: "addr \<Rightarrow> addr option \<Rightarrow> addr" where
  "next_page a j = (case j of None \<Rightarrow> a + PGSIZE | Some b \<Rightarrow> b + PGSIZE)"

text \<open>
  The body of a loop either goes on with the next page (\<open>None\<close>), goes on with the page after the
  address \<open>b\<close> it assigned to the loop variable (\<open>Some (Inl b)\<close>), or leaves the function with a value
  (\<open>Some (Inr r)\<close>).
\<close>

lemma wraps_measure: "\<not> c \<le> a \<Longrightarrow> 4294967296 - unat c < 4294967296 - unat (a :: addr)"
proof -
  have "unat c < 2 ^ LENGTH(32)" by (rule unsigned_less)
  then show "\<not> c \<le> a \<Longrightarrow> ?thesis" by (simp add: word_le_nat_alt)
qed

function page_loop :: "(addr \<Rightarrow> ('s, (addr + 'r) option) kop) \<Rightarrow> addr \<Rightarrow> addr \<Rightarrow> 'r \<Rightarrow> ('s, 'r) kop" where
  "page_loop body z a r =
     (if \<not> a < z then kret r
      else
        kbind (body a) (\<lambda>x.
        case x of
          Some (Inr r') \<Rightarrow> kret r'
        | Some (Inl b) \<Rightarrow> if b + PGSIZE \<le> a then kspin else page_loop body z (b + PGSIZE) r
        | None \<Rightarrow> if a + PGSIZE \<le> a then kspin else page_loop body z (a + PGSIZE) r))"
  by pat_completeness auto
termination
  by (relation "measure (\<lambda>(body, z, a, r). 2 ^ 32 - unat a)") (simp_all add: wraps_measure)

declare page_loop.simps [simp del]

definition deallocuvm1 :: "addr \<Rightarrow> addr \<Rightarrow> ('z mst_scheme, (addr + addr) option) kop" where
  "deallocuvm1 pd a =
     kbind (walkpgdir pd a False) (\<lambda>pte.
     if pte = 0 then kret (Some (Inl (PGADDR (PDX a + 1) 0 0 - PGSIZE)))
     else
       kbind (mload pte) (\<lambda>e.
       if e AND PTE_P = 0 then kret None
       else
         let pa = PTE_ADDR e
         in if pa = 0 then kpanic ''kfree''
            else
              kseq (kfree (P2V pa)) (
              kseq (mmod (store32 pte 0))
                (kret None))))"

definition deallocuvm :: "addr \<Rightarrow> addr \<Rightarrow> addr \<Rightarrow> ('z mst_scheme, addr) kop" where
  "deallocuvm pd oldsz newsz =
     (if newsz \<ge> oldsz then kret oldsz
      else page_loop (deallocuvm1 pd) oldsz (PGROUNDUP newsz) newsz)"

definition freevm :: "addr \<Rightarrow> ('z mst_scheme, unit) kop" where
  "freevm pd =
     (if pd = 0 then kpanic ''freevm: no pgdir''
      else
        kseq (deallocuvm pd KERNBASE 0) (
        kseq (kfor (\<lambda>i.
          kbind (mload (pd + 4 * of_nat i)) (\<lambda>pde.
          kwhen (pde AND PTE_P \<noteq> 0) (kfree (P2V (PTE_ADDR pde))))) [0..<1024])
          (kfree pd)))"

section \<open>The kernel part\<close>

definition kmap :: "addr \<Rightarrow> (addr \<times> addr \<times> addr \<times> addr) list" where
  "kmap data =
     [(KERNBASE, 0, EXTMEM, PTE_W),
      (KERNLINK, V2P KERNLINK, V2P data, 0),
      (data, V2P data, PHYSTOP, PTE_W),
      (DEVSPACE, DEVSPACE, 0, PTE_W)]"

primrec setupkvm_loop :: "addr \<Rightarrow> (addr \<times> addr \<times> addr \<times> addr) list \<Rightarrow> ('z mst_scheme, addr) kop" where
  "setupkvm_loop pd [] = kret pd"
| "setupkvm_loop pd (k # ks) =
     (case k of (virt, phys_start, phys_end, perm) \<Rightarrow>
        kbind (mappages pd virt (phys_end - phys_start) phys_start perm) (\<lambda>r.
        if r < 0 then kseq (freevm pd) (kret 0)
        else setupkvm_loop pd ks))"

definition setupkvm :: "('z mst_scheme, addr) kop" where
  "setupkvm =
     kbind kalloc (\<lambda>pd.
     if pd = 0 then kret 0
     else
       kseq (mmod (memset pd 0 PGSIZE))
         (if P2V PHYSTOP > DEVSPACE then kpanic ''PHYSTOP too high''
          else kbind (kget kdata) (\<lambda>data. setupkvm_loop pd (kmap data))))"

definition kvmalloc :: "('z pst_scheme, unit) kop" where
  "kvmalloc =
     kbind setupkvm (\<lambda>d.
     kseq (kmod (\<lambda>s. s\<lparr>kpgdir := d\<rparr>))
       switchkvm)"

section \<open>User memory\<close>

definition inituvm :: "addr \<Rightarrow> addr \<Rightarrow> addr \<Rightarrow> ('z mst_scheme, unit) kop" where
  "inituvm pd init n =
     (if n \<ge> PGSIZE then kpanic ''inituvm: more than a page''
      else
        kbind kalloc (\<lambda>mp.
        kseq (mmod (memset mp 0 PGSIZE)) (
        kseq (mappages pd 0 PGSIZE (V2P mp) (PTE_W OR PTE_U))
          (mmod (memmove mp init n)))))"

definition allocuvm1 :: "addr \<Rightarrow> addr \<Rightarrow> addr \<Rightarrow> addr \<Rightarrow> ('z mst_scheme, (addr + addr) option) kop" where
  "allocuvm1 pd oldsz newsz a =
     kbind kalloc (\<lambda>mp.
     if mp = 0 then kseq (deallocuvm pd newsz oldsz) (kret (Some (Inr 0)))
     else
       kseq (mmod (memset mp 0 PGSIZE)) (
       kbind (mappages pd a PGSIZE (V2P mp) (PTE_W OR PTE_U)) (\<lambda>r.
       if r < 0 then
         kseq (deallocuvm pd newsz oldsz) (
         kseq (kfree mp)
           (kret (Some (Inr 0))))
       else kret None)))"

definition allocuvm :: "addr \<Rightarrow> addr \<Rightarrow> addr \<Rightarrow> ('z mst_scheme, addr) kop" where
  "allocuvm pd oldsz newsz =
     (if newsz \<ge> KERNBASE then kret 0
      else if newsz < oldsz then kret oldsz
      else page_loop (allocuvm1 pd oldsz newsz) newsz (PGROUNDUP oldsz) newsz)"

definition clearpteu :: "addr \<Rightarrow> addr \<Rightarrow> ('z mst_scheme, unit) kop" where
  "clearpteu pd uva =
     kbind (walkpgdir pd uva False) (\<lambda>pte.
     if pte = 0 then kpanic ''clearpteu''
     else mmod (\<lambda>m. store32 pte (load32 m pte AND NOT PTE_U) m))"

definition copyuvm1 :: "addr \<Rightarrow> addr \<Rightarrow> addr \<Rightarrow> ('z mst_scheme, (addr + addr) option) kop" where
  "copyuvm1 pd d i =
     kbind (walkpgdir pd i False) (\<lambda>pte.
     if pte = 0 then kpanic ''copyuvm: pte should exist''
     else
       kbind (mload pte) (\<lambda>e.
       if e AND PTE_P = 0 then kret None
       else
         kbind kalloc (\<lambda>mp.
         if mp = 0 then kseq (freevm d) (kret (Some (Inr 0)))
         else
           kseq (mmod (memmove mp (P2V (PTE_ADDR e)) PGSIZE)) (
           kbind (mappages d i PGSIZE (V2P mp) (PTE_FLAGS e)) (\<lambda>r.
           if r < 0 then
             kseq (kfree mp) (
             kseq (freevm d)
               (kret (Some (Inr 0))))
           else kret None)))))"

definition copyuvm :: "addr \<Rightarrow> addr \<Rightarrow> ('z mst_scheme, addr) kop" where
  "copyuvm pd n =
     kbind setupkvm (\<lambda>d.
     if d = 0 then kret 0
     else page_loop (copyuvm1 pd d) n 0 d)"

section \<open>Copying to another address space\<close>

text \<open>\<open>walkpgdir\<close> returns a null pointer where the page directory has no page table; \<open>uva2ka\<close> reads through it.\<close>

definition uva2ka :: "addr \<Rightarrow> addr \<Rightarrow> ('z mst_scheme, addr) kop" where
  "uva2ka pd uva =
     kbind (walkpgdir pd uva False) (\<lambda>pte.
     if pte = 0 then kpanic ''trap''
     else
       kbind (mload pte) (\<lambda>e.
       if e AND PTE_P = 0 then kret 0
       else if e AND PTE_U = 0 then kret 0
       else kret (P2V (PTE_ADDR e))))"

primrec store_bytes :: "addr \<Rightarrow> byte list \<Rightarrow> memory \<Rightarrow> memory" where
  "store_bytes a [] m = m"
| "store_bytes a (b # bs) m = store_bytes (a + 1) bs (m(a := b))"

definition load_bytes :: "memory \<Rightarrow> addr \<Rightarrow> nat \<Rightarrow> byte list" where
  "load_bytes m a n = map (\<lambda>i. m (a + of_nat i)) [0..<n]"

text \<open>The source of the copy is a kernel buffer, given by its contents.\<close>

function copyout :: "addr \<Rightarrow> addr \<Rightarrow> byte list \<Rightarrow> ('z mst_scheme, int) kop" where
  "copyout pd va buf =
     (if buf = [] then kret 0
      else
        let va0 = PGROUNDDOWN va; n = min (unat (PGSIZE - (va - va0))) (length buf)
        in kbind (uva2ka pd va0) (\<lambda>pa0.
           if pa0 = 0 then kret (- 1)
           else
             kseq (mmod (store_bytes (pa0 + (va - va0)) (take n buf)))
               (if n = 0 then kspin else copyout pd (va0 + PGSIZE) (drop n buf))))"
  by pat_completeness auto
termination
  by (relation "measure (\<lambda>(pd, va, buf). length buf)") auto

declare copyout.simps [simp del]

end
