(* ===== verification/Pagetable.thy ===== *)
theory Pagetable
  imports Vm Words "HOL-Library.Sublist"
begin

text \<open>
  What the operations of \<^verbatim>\<open>src/xv6-public/vm.c\<close> do to a page table: \<open>walkpgdir\<close> and \<open>mappages\<close>. A page table is read by
  \<open>entry\<close>; its pages are kept apart from each other and from the free list by \<open>pt_ok\<close>, so that a store into one
  entry changes no other entry (\<open>store_entry\<close>) and a new, zeroed table changes none at all (\<open>new_table\<close>).
\<close>

unbundle bit_operations_syntax

section \<open>Entries of a page\<close>

text \<open>A page of 1024 words: \<open>slot_at p i\<close> is the address of word \<open>i\<close> of the page \<open>p\<close>.\<close>

abbreviation slot_at :: "addr \<Rightarrow> addr \<Rightarrow> addr" where
  "slot_at p i \<equiv> p + 4 * i"

lemma PDX_less: "PDX va < 1024" "PTX va < 1024"
proof -
  have "x AND 1023 < (1024 :: addr)" for x
  proof (rule le_less_trans)
    show "x AND 1023 \<le> (1023 :: addr)" by (metis and.commute word_and_le1)
  qed simp
  then show "PDX va < 1024" "PTX va < 1024" by (simp_all add: PDX_def PTX_def)
qed

lemma slot_in_page:
  assumes "i < 1024" and "in_range (slot_at p i) 4 x"
  shows "in_range p 4096 x"
proof -
  let ?d = "unat (x - slot_at p i)"
  have d: "?d < 4" using assms(2) by (simp add: in_range_def)
  have i: "unat i < 1024" using assms(1) by (simp add: word_less_nat_alt)
  then have u: "unat (4 * i) = 4 * unat i" by (simp add: unat_word_ariths)
  have "unat (4 * i) + ?d < 2 ^ 32" using u i d by simp
  then have "unat (4 * i + (x - slot_at p i)) = 4 * unat i + ?d" using unat_add_nowrap [of "4 * i" "x - slot_at p i"] u by simp
  moreover have "4 * i + (x - slot_at p i) = x - p" by simp
  ultimately show ?thesis using d i by (simp add: in_range_def)
qed

lemma slots_disjoint:
  assumes "i < 1024" "j < 1024" "i \<noteq> j" "in_range (slot_at p i) 4 x"
  shows "\<not> in_range (slot_at p j) 4 x"
proof
  assume a: "in_range (slot_at p j) 4 x"
  have b: "unat i < 1024" "unat j < 1024" using assms(1,2) by (simp_all add: word_less_nat_alt)
  have u: "unat (4 * i) = 4 * unat i" "unat (4 * j) = 4 * unat j" using b by (simp_all add: unat_word_ariths)
  have "unat (x - p) div 4 = unat k" if "unat k < 1024" "unat (4 * k) = 4 * unat k" "in_range (slot_at p k) 4 x" for k
  proof -
    let ?d = "unat (x - slot_at p k)"
    have d: "?d < 4" using that(3) by (simp add: in_range_def)
    then have "unat (4 * k) + ?d < 2 ^ 32" using that by simp
    then have "unat (4 * k + (x - slot_at p k)) = 4 * unat k + ?d" using unat_add_nowrap [of "4 * k" "x - slot_at p k"] that by simp
    moreover have "4 * k + (x - slot_at p k) = x - p" by simp
    ultimately show ?thesis using d by simp
  qed
  from this [OF b(1) u(1) assms(4)] this [OF b(2) u(2) a] have "unat i = unat j" by simp
  then show False using assms(3) by (simp add: word_unat_eq_iff)
qed

lemma load_slot_cong:
  assumes "j < 1024" and "\<And>x. in_range q 4096 x \<Longrightarrow> m' x = m x"
  shows "load32 m' (slot_at q j) = load32 m (slot_at q j)"
proof (rule load32_cong)
  fix k :: nat assume "k < 4"
  then have "in_range (slot_at q j) 4 (slot_at q j + of_nat k)" by (intro in_range_offset) auto
  then show "m' (slot_at q j + of_nat k) = m (slot_at q j + of_nat k)" using slot_in_page [OF assms(1)] assms(2) by blast
qed

lemma load_store_slot:
  assumes "i < 1024" "j < 1024" "p mod 4096 = 0" "q mod 4096 = 0"
  shows "load32 (store32 (slot_at p i) v m) (slot_at q j) = (if p = q \<and> i = j then v else load32 m (slot_at q j))"
proof (cases "p = q \<and> i = j")
  case False
  have "\<not> in_range (slot_at p i) 4 x" if "in_range (slot_at q j) 4 x" for x
  proof (cases "p = q")
    case True
    then show ?thesis using slots_disjoint [OF assms(2,1), of p x] that False by auto
  next
    case pq: False
    then show ?thesis using page_disjoint [OF assms(4,3), of x] slot_in_page [OF assms(2) that] slot_in_page [OF assms(1), of p x] by auto
  qed
  then have "load32 (store32 (slot_at p i) v m) (slot_at q j) = load32 m (slot_at q j)"
    by (intro load32_cong store32_other) (simp add: in_range_def unat_of_nat)
  then show ?thesis using False by auto
qed simp

lemma load_slot_zero:
  assumes "j < 1024" and "\<And>x. in_range q 4096 x \<Longrightarrow> m x = 0"
  shows "load32 m (slot_at q j) = 0"
proof -
  have "load32 m (slot_at q j) = load32 (\<lambda>_. 0) (slot_at q j)" using assms by (intro load_slot_cong) simp_all
  then show ?thesis by (simp add: load32_def)
qed

lemma aligned_iff: "p mod 4096 = 0 \<longleftrightarrow> p AND 4095 = (0 :: addr)"
proof -
  have "p AND 4095 = take_bit 12 p" using take_bit_eq_mask [of 12 p] by (simp add: mask_eq_exp_minus_1)
  then show ?thesis by (simp add: take_bit_eq_mod)
qed

lemma aligned_unat: "p mod 4096 = (0 :: addr) \<longleftrightarrow> unat p mod 4096 = 0"
  by (simp add: word_unat_eq_iff unat_mod_distrib)

lemma aligned_add: "p mod 4096 = 0 \<Longrightarrow> q mod 4096 = 0 \<Longrightarrow> (p + q) mod 4096 = (0 :: addr)"
proof -
  assume "p mod 4096 = 0" "q mod 4096 = 0"
  then have "4096 dvd unat p + unat q" by (simp add: aligned_unat mod_eq_0_iff_dvd)
  then have "4096 dvd (unat p + unat q) mod 2 ^ 32" by (simp add: dvd_mod_iff)
  then show ?thesis by (simp add: aligned_unat unat_word_ariths mod_eq_0_iff_dvd)
qed

lemma PTE_ADDR_aligned: "P2V (PTE_ADDR d) mod 4096 = 0"
  unfolding P2V_def by (rule aligned_add) (simp_all add: aligned_iff PTE_ADDR_def KERNBASE_def and.assoc)

lemma pde_table:
  assumes "p mod 4096 = 0"
  shows "P2V (PTE_ADDR (V2P p OR PTE_P OR PTE_W OR PTE_U)) = p" and "(V2P p OR PTE_P OR PTE_W OR PTE_U) AND PTE_P \<noteq> 0"
proof -
  have "V2P p mod 4096 = 0" using aligned_add [OF assms, of "- KERNBASE"] by (simp add: V2P_def KERNBASE_def)
  then have "V2P p AND 4095 = 0" by (simp add: aligned_iff)
  then have "V2P p AND NOT 4095 = V2P p" using bit.conj_disj_distrib [of "V2P p" 4095 "NOT 4095"] by simp
  then have "(V2P p OR 7) AND NOT 4095 = V2P p" by (simp add: bit.conj_disj_distrib2)
  then show "P2V (PTE_ADDR (V2P p OR PTE_P OR PTE_W OR PTE_U)) = p" by (simp add: PTE_ADDR_def PTE_P_def PTE_W_def PTE_U_def P2V_def V2P_def or.assoc)
  show "(V2P p OR PTE_P OR PTE_W OR PTE_U) AND PTE_P \<noteq> 0" by (simp add: PTE_P_def PTE_W_def PTE_U_def bit.conj_disj_distrib2)
qed

section \<open>Page tables\<close>

text \<open>
  \<open>entry m pd va\<close> is the page table entry the processor finds for \<open>va\<close>, 0 if there is no page table for it. \<open>pt_ok ps m pd\<close>: the
  directory \<open>pd\<close> and the page tables it points to are different pages, and none of them is one of the free pages \<open>ps\<close>.
\<close>

definition ptab :: "addr \<Rightarrow> addr" where
  "ptab d = P2V (PTE_ADDR d)"

definition entry :: "memory \<Rightarrow> addr \<Rightarrow> addr \<Rightarrow> addr" where
  "entry m pd va = (let d = load32 m (slot_at pd (PDX va)) in if d AND PTE_P = 0 then 0 else load32 m (slot_at (ptab d) (PTX va)))"

definition pt_ok :: "addr list \<Rightarrow> memory \<Rightarrow> addr \<Rightarrow> bool" where
  "pt_ok ps m pd \<longleftrightarrow> pd mod 4096 = 0 \<and> pd \<notin> set ps \<and>
     (\<forall>i < 1024. load32 m (slot_at pd i) AND PTE_P \<noteq> 0 \<longrightarrow>
        ptab (load32 m (slot_at pd i)) \<notin> insert 0 (insert pd (set ps)) \<and>
        (\<forall>j < 1024. j \<noteq> i \<longrightarrow> load32 m (slot_at pd j) AND PTE_P \<noteq> 0 \<longrightarrow> ptab (load32 m (slot_at pd j)) \<noteq> ptab (load32 m (slot_at pd i))))"

lemma slot_nonzero: "p mod 4096 = 0 \<Longrightarrow> p \<noteq> 0 \<Longrightarrow> i < 1024 \<Longrightarrow> slot_at p i \<noteq> 0"
proof
  assume a: "p mod 4096 = 0" "p \<noteq> 0" "i < 1024" "slot_at p i = 0"
  have "in_range (slot_at p i) 4 (slot_at p i)" by (simp add: in_range_def)
  then have "in_range p 4096 0" using slot_in_page [OF a(3), of p] a(4) by simp
  moreover have "in_range 0 4096 0" by (simp add: in_range_def)
  ultimately show False using page_disjoint [of p 0 0] a(1,2) by simp
qed

lemma kmem_inv_mem:
  assumes "kmem_inv ps s" and "\<And>p. p \<in> set ps \<Longrightarrow> load32 m p = load32 (mem s) p"
  shows "kmem_inv ps (s\<lparr>mem := m\<rparr>)"
  using assms flist_cong [of ps m "mem s"] by (simp add: kmem_inv_def)

lemma pt_okD:
  assumes "pt_ok ps m pd"
  shows "pd mod 4096 = 0" "pd \<notin> set ps" 
    and "i < 1024 \<Longrightarrow> load32 m (slot_at pd i) AND PTE_P \<noteq> 0 \<Longrightarrow> ptab (load32 m (slot_at pd i)) \<notin> insert 0 (insert pd (set ps))"
    and "i < 1024 \<Longrightarrow> j < 1024 \<Longrightarrow> i \<noteq> j \<Longrightarrow> load32 m (slot_at pd i) AND PTE_P \<noteq> 0 \<Longrightarrow> load32 m (slot_at pd j) AND PTE_P \<noteq> 0 \<Longrightarrow>
      ptab (load32 m (slot_at pd j)) \<noteq> ptab (load32 m (slot_at pd i))"
  using assms by (auto simp: pt_ok_def)

text \<open>Storing an entry in the page table of \<open>va\<close>.\<close>

lemma store_entry:
  fixes e :: addr
  assumes ok: "pt_ok ps m pd" and p: "load32 m (slot_at pd (PDX va)) AND PTE_P \<noteq> 0"
  defines "m' \<equiv> store32 (slot_at (ptab (load32 m (slot_at pd (PDX va)))) (PTX va)) e m"
  shows "pt_ok ps m' pd" and "entry m' pd w = (if PDX w = PDX va \<and> PTX w = PTX va then e else entry m pd w)"
    and "q \<in> set ps \<Longrightarrow> q mod 4096 = 0 \<Longrightarrow> load32 m' q = load32 m q"
proof -
  let ?t = "ptab (load32 m (slot_at pd (PDX va)))"
  have t: "?t \<notin> insert 0 (insert pd (set ps))" "?t mod 4096 = 0" using pt_okD(3) [OF ok PDX_less(1) p] PTE_ADDR_aligned by (simp_all add: ptab_def)
  have d: "load32 m' (slot_at pd i) = load32 m (slot_at pd i)" if "i < 1024" for i
    using load_store_slot [of "PTX va" i ?t pd e m] that t pt_okD(1) [OF ok] PDX_less unfolding m'_def by auto
  then show "pt_ok ps m' pd" using ok by (simp add: pt_ok_def)
  have l: "load32 m' (slot_at (ptab x) (PTX w)) = (if ?t = ptab x \<and> PTX va = PTX w then e else load32 m (slot_at (ptab x) (PTX w)))" for x
    unfolding m'_def by (rule load_store_slot) (use t(2) PTE_ADDR_aligned [of x] PDX_less in \<open>simp_all add: ptab_def\<close>)
  show "entry m' pd w = (if PDX w = PDX va \<and> PTX w = PTX va then e else entry m pd w)"
  proof (cases "load32 m (slot_at pd (PDX w)) AND PTE_P = 0")
    case True
    then have "PDX w \<noteq> PDX va" using p by auto
    then show ?thesis using True by (simp add: entry_def d [OF PDX_less(1)])
  next
    case False
    have "ptab (load32 m (slot_at pd (PDX w))) = ?t \<longleftrightarrow> PDX w = PDX va"
      using pt_okD(4) [OF ok PDX_less(1) PDX_less(1) _ p False] by fastforce
    then show ?thesis unfolding entry_def Let_def d [OF PDX_less(1)] l using False by auto
  qed
  show "load32 m' q = load32 m q" if "q \<in> set ps" "q mod 4096 = 0"
  proof -
    have "q \<noteq> ?t" using t(1) that(1) by auto
    then show ?thesis using load_store_slot [of "PTX va" 0 ?t q e m] t(2) that(2) PDX_less unfolding m'_def by auto
  qed
qed

text \<open>A new, empty page table for \<open>va\<close>.\<close>

lemma new_table:
  assumes ok: "pt_ok (p # ps) m pd" and n: "load32 m (slot_at pd (PDX va)) AND PTE_P = 0" and p: "p mod 4096 = 0" "p \<noteq> 0" "p \<notin> set ps"
  defines "m' \<equiv> store32 (slot_at pd (PDX va)) (V2P p OR PTE_P OR PTE_W OR PTE_U) (memset p 0 PGSIZE m)"
  shows "pt_ok ps m' pd" and "entry m' pd w = entry m pd w" and "load32 m' (slot_at pd (PDX va)) AND PTE_P \<noteq> 0" and "ptab (load32 m' (slot_at pd (PDX va))) = p"
    and "q \<in> set ps \<Longrightarrow> q mod 4096 = 0 \<Longrightarrow> load32 m' q = load32 m q"
proof -
  let ?e = "V2P p OR PTE_P OR PTE_W OR PTE_U" and ?m = "memset p 0 PGSIZE m"
  note pd = pt_okD(1,2) [OF ok]
  have same: "load32 ?m (slot_at q i) = load32 m (slot_at q i)" if "i < 1024" "q mod 4096 = 0" "q \<noteq> p" for i q
    using that page_disjoint [OF that(2) p(1) that(3)] by (intro load_slot_cong) (simp_all add: memset_spec PGSIZE_def)
  have zero: "load32 ?m (slot_at p i) = 0" if "i < 1024" for i
    using that by (intro load_slot_zero) (simp_all add: memset_spec PGSIZE_def)
  have d: "load32 m' (slot_at pd i) = (if i = PDX va then ?e else load32 m (slot_at pd i))" if "i < 1024" for i
    using load_store_slot [of "PDX va" i pd pd ?e ?m] that same [OF that pd(1)] pd PDX_less unfolding m'_def by auto
  have e: "ptab ?e = p" "?e AND PTE_P \<noteq> 0" using pde_table [OF p(1)] by (simp_all add: ptab_def)
  show "load32 m' (slot_at pd (PDX va)) AND PTE_P \<noteq> 0" "ptab (load32 m' (slot_at pd (PDX va))) = p" using d [OF PDX_less(1), of va] e by simp_all
  show "pt_ok ps m' pd" using ok e p by (auto simp: pt_ok_def d)
  have o: "load32 m' (slot_at q i) = load32 ?m (slot_at q i)" if "i < 1024" "q mod 4096 = 0" "q \<noteq> pd" for q i
    using load_store_slot [of "PDX va" i pd q ?e ?m] that pd(1) PDX_less unfolding m'_def by auto
  show "entry m' pd w = entry m pd w"
  proof (cases "PDX w = PDX va")
    case True
    then show ?thesis using d [OF PDX_less(1), of w] n e o [OF PDX_less(2) p(1), of w] pd(2) zero [OF PDX_less(2), of w] by (auto simp: entry_def Let_def)
  next
    case False
    have "load32 m' (slot_at (ptab x) (PTX w)) = load32 m (slot_at (ptab x) (PTX w))" if "ptab x \<noteq> pd" "ptab x \<noteq> p" for x
      using o [OF PDX_less(2), of "ptab x" w] same [OF PDX_less(2), of "ptab x" w] that PTE_ADDR_aligned by (simp add: ptab_def)
    then show ?thesis using False d [OF PDX_less(1), of w] pt_okD(3) [OF ok PDX_less(1), of w] by (auto simp: entry_def Let_def)
  qed
  show "load32 m' q = load32 m q" if "q \<in> set ps" "q mod 4096 = 0"
  proof -
    have "q \<noteq> pd" "q \<noteq> p" using that(1) pd(2) p(3) by auto
    then show ?thesis using o [of 0 q] same [of 0 q] that(2) by simp
  qed
qed

lemma walkpgdir_total:
  assumes inv: "kmem_inv ps s" and ok: "pt_ok ps (mem s) pd"
  shows "(ps = [] \<and> load32 (mem s) (slot_at pd (PDX va)) AND PTE_P = 0 \<and> (\<exists>t. walkpgdir pd va True s = Ret 0 t \<and> kmem_inv [] t \<and> mem t = mem s)) \<or>
    (\<exists>qs t. walkpgdir pd va True s = Ret (slot_at (ptab (load32 (mem t) (slot_at pd (PDX va)))) (PTX va)) t \<and> load32 (mem t) (slot_at pd (PDX va)) AND PTE_P \<noteq> 0 \<and>
      kmem_inv qs t \<and> pt_ok qs (mem t) pd \<and> (\<forall>w. entry (mem t) pd w = entry (mem s) pd w) \<and> suffix qs ps \<and> length ps \<le> Suc (length qs))"
    (is "?none \<or> ?some")
proof (cases "load32 (mem s) (slot_at pd (PDX va)) AND PTE_P = 0")
  case False
  then have "walkpgdir pd va True s = Ret (slot_at (ptab (load32 (mem s) (slot_at pd (PDX va)))) (PTX va)) s"
    by (simp add: walkpgdir_def mload_def ptab_def kret_def)
  then have ?some using assms False by (intro exI [of _ ps] exI [of _ s]) simp
  then show ?thesis ..
next
  case True
  show ?thesis
  proof (cases ps)
    case Nil
    then obtain t where t: "kalloc s = Ret 0 t" "kmem_inv [] t" "mem t = mem s" using kmem_inv_kalloc_empty inv by blast
    then have "walkpgdir pd va True s = Ret 0 t" using True by (simp add: walkpgdir_def mload_def kbind_Ret [of kalloc] t kret_def)
    then have ?none using Nil True t by simp
    then show ?thesis ..
  next
    case (Cons p qs)
    then obtain t where t: "kalloc s = Ret p t" "kmem_inv qs t" "mem t = mem s" using kmem_inv_kalloc [of p qs s] inv by blast
    have po: "page_ok (kend s) p" "p \<notin> set qs" using inv by (simp_all add: kmem_inv_def Cons)
    then have p: "p mod 4096 = 0" "p \<noteq> 0" "p \<notin> set qs" using page_ok_nonzero [OF po(1)] by (simp_all add: page_ok_def)
    let ?m = "store32 (slot_at pd (PDX va)) (V2P p OR PTE_P OR PTE_W OR PTE_U) (memset p 0 PGSIZE (mem s))"
    note N = new_table [OF ok [unfolded Cons] True p]
    have "walkpgdir pd va True s = Ret (slot_at p (PTX va)) (t\<lparr>mem := ?m\<rparr>)"
      using True t p(2) by (simp add: walkpgdir_def mload_def mmod_def kbind_Ret [of kalloc] t kret_def)
    moreover have "kmem_inv qs (t\<lparr>mem := ?m\<rparr>)"
    proof (rule kmem_inv_mem [OF t(2)])
      fix q assume q: "q \<in> set qs"
      then have "q mod 4096 = 0" using t(2) by (simp add: kmem_inv_def page_ok_def)
      then show "load32 ?m q = load32 (mem t) q" using N(5) [OF q] t(3) by simp
    qed
    ultimately have ?some using N(1-4) by (intro exI [of _ qs] exI [of _ "t\<lparr>mem := ?m\<rparr>"]) (simp add: Cons suffix_ConsI)
    then show ?thesis ..
  qed
qed

definition maps1 :: "addr \<Rightarrow> addr \<Rightarrow> addr \<Rightarrow> memory \<Rightarrow> memory \<Rightarrow> bool" where
  "maps1 pd a e m m' \<longleftrightarrow> (\<forall>w. entry m' pd w = (if PDX w = PDX a \<and> PTX w = PTX a then e else entry m pd w))"

lemma mappages1_total:
  assumes inv: "kmem_inv ps s" and ok: "pt_ok ps (mem s) pd"
  shows "if entry (mem s) pd a AND PTE_P \<noteq> 0 then mappages1 pd a pa perm s = Panic ''remap''
    else \<exists>r qs t. mappages1 pd a pa perm s = Ret r t \<and> kmem_inv qs t \<and> pt_ok qs (mem t) pd \<and> suffix qs ps \<and> length ps \<le> Suc (length qs) \<and>
      (r = 0 \<and> maps1 pd a (pa OR perm OR PTE_P) (mem s) (mem t) \<or> r = - 1 \<and> ps = [] \<and> mem t = mem s)"
  using walkpgdir_total [OF assms, of a]
proof
  assume "ps = [] \<and> load32 (mem s) (slot_at pd (PDX a)) AND PTE_P = 0 \<and> (\<exists>t. walkpgdir pd a True s = Ret 0 t \<and> kmem_inv [] t \<and> mem t = mem s)"
  then obtain t where t: "ps = []" "load32 (mem s) (slot_at pd (PDX a)) AND PTE_P = 0" "walkpgdir pd a True s = Ret 0 t" "kmem_inv [] t" "mem t = mem s" by blast
  have "mappages1 pd a pa perm s = Ret (- 1) t" by (simp add: mappages1_def kbind_Ret [of "walkpgdir x y z" for x y z] t(3) kret_def)
  then show ?thesis using t ok by (intro if_not_P [THEN iffD2] exI [of _ "- 1"] exI [of _ "[]"] exI [of _ t]) (simp_all add: entry_def)
next
  assume "\<exists>qs t. walkpgdir pd a True s = Ret (slot_at (ptab (load32 (mem t) (slot_at pd (PDX a)))) (PTX a)) t \<and> load32 (mem t) (slot_at pd (PDX a)) AND PTE_P \<noteq> 0 \<and>
      kmem_inv qs t \<and> pt_ok qs (mem t) pd \<and> (\<forall>w. entry (mem t) pd w = entry (mem s) pd w) \<and> suffix qs ps \<and> length ps \<le> Suc (length qs)"
  then obtain qs t where t: "walkpgdir pd a True s = Ret (slot_at (ptab (load32 (mem t) (slot_at pd (PDX a)))) (PTX a)) t" "load32 (mem t) (slot_at pd (PDX a)) AND PTE_P \<noteq> 0"
    "kmem_inv qs t" "pt_ok qs (mem t) pd" "\<And>w. entry (mem t) pd w = entry (mem s) pd w" "suffix qs ps" "length ps \<le> Suc (length qs)" by blast
  let ?p = "slot_at (ptab (load32 (mem t) (slot_at pd (PDX a)))) (PTX a)" and ?e = "pa OR perm OR PTE_P"
  have p0: "?p \<noteq> 0" using pt_okD(3) [OF t(4) PDX_less(1) t(2)] PTE_ADDR_aligned by (intro slot_nonzero PDX_less) (auto simp: ptab_def)
  have e: "load32 (mem t) ?p = entry (mem s) pd a" unfolding t(5) [symmetric] using t(2) by (simp add: entry_def)
  have r: "mappages1 pd a pa perm s = (if entry (mem s) pd a AND PTE_P \<noteq> 0 then Panic ''remap'' else Ret 0 (t\<lparr>mem := store32 ?p ?e (mem t)\<rparr>))"
    using p0 by (simp add: mappages1_def kbind_Ret [of "walkpgdir x y z" for x y z] t(1) mload_def e mmod_def kpanic_def kret_def)
  note S = store_entry [OF t(4) t(2), where e = ?e]
  have "kmem_inv qs (t\<lparr>mem := store32 ?p ?e (mem t)\<rparr>)"
  proof (rule kmem_inv_mem [OF t(3)])
    fix q assume q: "q \<in> set qs"
    then have "q mod 4096 = 0" using t(3) by (simp add: kmem_inv_def page_ok_def)
    then show "load32 (store32 ?p ?e (mem t)) q = load32 (mem t) q" using S(3) [OF q] by simp
  qed
  then show ?thesis using t S r by (cases "entry (mem s) pd a AND PTE_P \<noteq> 0") (auto simp: maps1_def)
qed

lemma page_index: "PDX w = PDX a \<and> PTX w = PTX a \<longleftrightarrow> PGROUNDDOWN w = PGROUNDDOWN a"
proof -
  have m: "(1023 :: addr) = mask 10" by (simp add: mask_eq_exp_minus_1)
  have x: "bit (PDX v) n \<longleftrightarrow> n < 10 \<and> bit v (n + 22)" "bit (PTX v) n \<longleftrightarrow> n < 10 \<and> bit v (n + 12)" for v n
    by (auto simp: PDX_def PTX_def m bit_simps ac_simps dest: bit_imp_le_length)
  have p: "bit (PGROUNDDOWN v) n \<longleftrightarrow> 12 \<le> n \<and> bit v n" for v n
  proof -
    have "PGROUNDDOWN v = push_bit 12 (drop_bit 12 v)" using and_not_4095 [of v] by (simp add: PGROUNDDOWN_def PGSIZE_def)
    then show ?thesis by (auto simp: bit_simps dest: bit_imp_le_length)
  qed
  have "(PDX w = PDX a \<and> PTX w = PTX a) \<longleftrightarrow> (\<forall>n < 10. bit w (n + 22) = bit a (n + 22)) \<and> (\<forall>n < 10. bit w (n + 12) = bit a (n + 12))"
  proof -
    have "n < 10 \<Longrightarrow> n < 32" for n :: nat by simp
    then have "(\<forall>n < 32. (n < 10 \<and> P n) = (n < 10 \<and> Q n)) \<longleftrightarrow> (\<forall>n < 10. P n = Q n)" for P Q :: "nat \<Rightarrow> bool" by blast
    then show ?thesis by (simp add: bit_eq_iff x)
  qed
  also have "\<dots> \<longleftrightarrow> (\<forall>n. 12 \<le> n \<longrightarrow> n < 32 \<longrightarrow> bit w n = bit a n)" (is "?l \<longleftrightarrow> ?r")
  proof
    assume ?l
    show ?r
    proof (intro allI impI)
      fix n :: nat assume "12 \<le> n" "n < 32"
      then consider "n - 22 < 10" "n = n - 22 + 22" | "n - 12 < 10" "n = n - 12 + 12" by fastforce
      then show "bit w n = bit a n" using \<open>?l\<close> by cases metis+
    qed
  qed simp
  also have "\<dots> \<longleftrightarrow> PGROUNDDOWN w = PGROUNDDOWN a" by (auto simp: bit_eq_iff p dest: bit_imp_le_length)
  finally show ?thesis .
qed

lemma PGROUNDDOWN_aligned: "a mod 4096 = 0 \<Longrightarrow> PGROUNDDOWN a = a" "PGROUNDDOWN v mod 4096 = 0"
proof -
  assume "a mod 4096 = 0"
  then have "a AND 4095 = 0" by (simp add: aligned_iff)
  then show "PGROUNDDOWN a = a" using bit.conj_disj_distrib [of a 4095 "NOT 4095"] by (simp add: PGROUNDDOWN_def PGSIZE_def)
qed (simp add: aligned_iff PGROUNDDOWN_def PGSIZE_def and.assoc)

lemma aligned_pages: "a mod 4096 = 0 \<Longrightarrow> (a + of_nat k * PGSIZE) mod 4096 = 0"
proof (induction k)
  case (Suc k)
  then show ?case using aligned_add [of "a + of_nat k * PGSIZE" PGSIZE] by (simp add: PGSIZE_def algebra_simps)
qed simp

lemma pages_differ: "k < 2 ^ 20 \<Longrightarrow> j < 2 ^ 20 \<Longrightarrow> a + of_nat k * PGSIZE = a + of_nat j * PGSIZE \<Longrightarrow> k = j"
proof -
  assume kj: "k < 2 ^ 20" "j < 2 ^ 20" "a + of_nat k * PGSIZE = a + of_nat j * PGSIZE"
  have "unat (of_nat i * PGSIZE) = i * 4096" if "i < 2 ^ 20" for i :: nat
    using that by (simp add: PGSIZE_def unat_word_ariths unat_of_nat)
  then show "k = j" using kj by (metis add_left_cancel mult_cancel2 zero_neq_numeral)
qed

text \<open>The \<open>n + 1\<close> pages from \<open>a\<close> are mapped to those from \<open>pa\<close>, and no others change.\<close>

definition maps :: "addr \<Rightarrow> addr \<Rightarrow> nat \<Rightarrow> addr \<Rightarrow> addr \<Rightarrow> memory \<Rightarrow> memory \<Rightarrow> bool" where
  "maps pd a n pa perm m m' \<longleftrightarrow> (\<forall>k \<le> n. entry m' pd (a + of_nat k * PGSIZE) = (pa + of_nat k * PGSIZE) OR perm OR PTE_P)"

definition spares :: "addr \<Rightarrow> addr \<Rightarrow> nat \<Rightarrow> memory \<Rightarrow> memory \<Rightarrow> bool" where
  "spares pd a n m m' \<longleftrightarrow> (\<forall>w. (\<forall>k \<le> n. PGROUNDDOWN w \<noteq> a + of_nat k * PGSIZE) \<longrightarrow> entry m' pd w = entry m pd w)"

lemma maps1_other: "maps1 pd a e m m' \<Longrightarrow> a mod 4096 = 0 \<Longrightarrow> PGROUNDDOWN w \<noteq> a \<Longrightarrow> entry m' pd w = entry m pd w"
  using page_index [of w a] PGROUNDDOWN_aligned(1) [of a] by (auto simp: maps1_def)

lemma mappages_loop_total:
  assumes "kmem_inv ps s" and "pt_ok ps (mem s) pd" and "a mod 4096 = 0" and "n < 2 ^ 20"
  shows "if \<exists>k \<le> n. entry (mem s) pd (a + of_nat k * PGSIZE) AND PTE_P \<noteq> 0 then n < length ps \<longrightarrow> mappages_loop pd n a pa perm s = Panic ''remap''
    else \<exists>r qs t. mappages_loop pd n a pa perm s = Ret r t \<and> kmem_inv qs t \<and> pt_ok qs (mem t) pd \<and> suffix qs ps \<and> spares pd a n (mem s) (mem t) \<and>
      (r = 0 \<and> maps pd a n pa perm (mem s) (mem t) \<or> r = - 1 \<and> qs = [] \<and> length ps \<le> n)"
  using assms
proof (induction n arbitrary: s ps a pa)
  case 0
  have z: "(\<exists>k \<le> 0. P (of_nat k :: addr)) = P 0" "(\<forall>k \<le> 0. P (of_nat k :: addr)) = P 0" for P by simp_all
  show ?case
  proof (cases "entry (mem s) pd a AND PTE_P = 0")
    case True
    with mappages1_total [OF 0(1,2), of a pa perm] obtain r qs t where t: "mappages1 pd a pa perm s = Ret r t" "kmem_inv qs t" "pt_ok qs (mem t) pd" "suffix qs ps"
      "r = 0 \<and> maps1 pd a (pa OR perm OR PTE_P) (mem s) (mem t) \<or> r = - 1 \<and> ps = [] \<and> mem t = mem s" by auto
    have "spares pd a 0 (mem s) (mem t)" using t(5) maps1_other [OF _ 0(3)] by (auto simp: spares_def)
    moreover have "maps pd a 0 pa perm (mem s) (mem t)" if "r = 0" using t(5) that by (simp add: maps_def maps1_def)
    ultimately show ?thesis using True t by (auto simp: suffix_def)
  next
    case False
    then show ?thesis using mappages1_total [OF 0(1,2), of a pa perm] by simp
  qed
next
  case (Suc n)
  have z: "(\<exists>k \<le> Suc n. P k) \<longleftrightarrow> P 0 \<or> (\<exists>k \<le> n. P (Suc k))" for P by (metis le0 le_SucE not0_implies_Suc Suc_le_mono)
  have S: "a + of_nat (Suc k) * PGSIZE = a + PGSIZE + of_nat k * PGSIZE" for a k by (simp add: algebra_simps)
  show ?case
  proof (cases "entry (mem s) pd a AND PTE_P = 0")
    case False
    have "entry (mem s) pd (a + of_nat 0 * PGSIZE) AND PTE_P \<noteq> 0" using False by simp
    then have "\<exists>k \<le> Suc n. entry (mem s) pd (a + of_nat k * PGSIZE) AND PTE_P \<noteq> 0" by blast
    moreover have "mappages1 pd a pa perm s = Panic ''remap''" using False mappages1_total [OF Suc.prems(1,2), of a pa perm] by simp
    ultimately show ?thesis by (simp add: kbind_stop)
  next
    case True
    with mappages1_total [OF Suc.prems(1,2), of a pa perm] obtain r qs t where t: "mappages1 pd a pa perm s = Ret r t" "kmem_inv qs t" "pt_ok qs (mem t) pd" "suffix qs ps"
      "length ps \<le> Suc (length qs)" "r = 0 \<and> maps1 pd a (pa OR perm OR PTE_P) (mem s) (mem t) \<or> r = - 1 \<and> ps = [] \<and> mem t = mem s" by auto
    have al: "(a + PGSIZE) mod 4096 = 0" using aligned_add [OF Suc.prems(3), of PGSIZE] by (simp add: PGSIZE_def)
    have pr: "(\<exists>k \<le> Suc n. entry (mem s) pd (a + of_nat k * PGSIZE) AND PTE_P \<noteq> 0) \<longleftrightarrow> (\<exists>k \<le> n. entry (mem s) pd (a + PGSIZE + of_nat k * PGSIZE) AND PTE_P \<noteq> 0)"
      using True unfolding z S by simp
    show ?thesis
    proof (cases "r = 0")
      case False
      then have "r = - 1" "ps = []" "mem t = mem s" "qs = []" using t(4,6) by auto
      moreover from this have "mappages_loop pd (Suc n) a pa perm s = Ret (- 1) t" using t(1) by (simp add: kbind_Ret [of "mappages1 x y z w" for x y z w] kret_def)
      ultimately show ?thesis using t(2,3) by (auto simp: spares_def)
    next
      case r: True
      then have m: "maps1 pd a (pa OR perm OR PTE_P) (mem s) (mem t)" using t(6) by simp
      have nx: "entry (mem t) pd (a + PGSIZE + of_nat k * PGSIZE) = entry (mem s) pd (a + PGSIZE + of_nat k * PGSIZE)" if "k \<le> n" for k
      proof (rule maps1_other [OF m Suc.prems(3)])
        have "a + of_nat (Suc k) * PGSIZE \<noteq> a + of_nat 0 * PGSIZE" using pages_differ [of "Suc k" 0 a] that Suc.prems(4) by auto
        then show "PGROUNDDOWN (a + PGSIZE + of_nat k * PGSIZE) \<noteq> a" using PGROUNDDOWN_aligned(1) [OF aligned_pages [OF al]] unfolding S by simp
      qed
      have run: "mappages_loop pd (Suc n) a pa perm s = mappages_loop pd n (a + PGSIZE) (pa + PGSIZE) perm t" using t(1) r by (simp add: kbind_Ret [of "mappages1 x y z w" for x y z w])
      note IH = Suc.IH [OF t(2,3) al, of "pa + PGSIZE"]
      show ?thesis
      proof (cases "\<exists>k \<le> n. entry (mem s) pd (a + PGSIZE + of_nat k * PGSIZE) AND PTE_P \<noteq> 0")
        case True
        then have "\<exists>k \<le> n. entry (mem t) pd (a + PGSIZE + of_nat k * PGSIZE) AND PTE_P \<noteq> 0" using nx by auto
        then show ?thesis using IH Suc.prems(4) t(5) unfolding run pr using True by auto
      next
        case False
        then have "\<not> (\<exists>k \<le> n. entry (mem t) pd (a + PGSIZE + of_nat k * PGSIZE) AND PTE_P \<noteq> 0)" using nx by auto
        with IH Suc.prems(4) obtain r' qs' u where u: "mappages_loop pd n (a + PGSIZE) (pa + PGSIZE) perm t = Ret r' u" "kmem_inv qs' u" "pt_ok qs' (mem u) pd" "suffix qs' qs"
          "spares pd (a + PGSIZE) n (mem t) (mem u)" "r' = 0 \<and> maps pd (a + PGSIZE) n (pa + PGSIZE) perm (mem t) (mem u) \<or> r' = - 1 \<and> qs' = [] \<and> length qs \<le> n" by auto
        have sp: "entry (mem u) pd w = entry (mem t) pd w" if "\<forall>k \<le> n. PGROUNDDOWN w \<noteq> a + of_nat (Suc k) * PGSIZE" for w using u(5) that unfolding spares_def S by blast
        have "spares pd a (Suc n) (mem s) (mem u)" unfolding spares_def
        proof (intro allI impI)
          fix w assume w: "\<forall>k \<le> Suc n. PGROUNDDOWN w \<noteq> a + of_nat k * PGSIZE"
          then have "PGROUNDDOWN w \<noteq> a" "\<forall>k \<le> n. PGROUNDDOWN w \<noteq> a + of_nat (Suc k) * PGSIZE" by (auto dest: spec [of _ 0])
          then show "entry (mem u) pd w = entry (mem s) pd w" using sp maps1_other [OF m Suc.prems(3)] by simp
        qed
        moreover have "maps pd a (Suc n) pa perm (mem s) (mem u)" if r0: "r' = 0"
        proof -
          have "entry (mem u) pd a = pa OR perm OR PTE_P"
          proof -
            have "a + of_nat (Suc k) * PGSIZE \<noteq> a" if "k \<le> n" for k using pages_differ [of "Suc k" 0 a] that Suc.prems(4) by auto
            then have "entry (mem u) pd a = entry (mem t) pd a" using PGROUNDDOWN_aligned(1) [OF Suc.prems(3)] by (intro sp) metis
            then show ?thesis using m by (simp add: maps1_def)
          qed
          moreover have "entry (mem u) pd (a + of_nat (Suc k) * PGSIZE) = (pa + of_nat (Suc k) * PGSIZE) OR perm OR PTE_P" if "k \<le> n" for k
            using u(6) r0 that unfolding maps_def S by auto
          ultimately have "entry (mem u) pd (a + of_nat k * PGSIZE) = (pa + of_nat k * PGSIZE) OR perm OR PTE_P" if "k \<le> Suc n" for k
            using that by (cases k) simp_all
          then show ?thesis by (simp add: maps_def)
        qed
        ultimately show ?thesis using False u t(4,5) unfolding run pr by (auto intro: suffix_order.trans)
      qed
    qed
  qed
qed

text \<open>C4: \<open>mappages\<close> inserts exactly the mappings asked for. Over a well-formed page table and free list, let
  \<open>a\<close>, \<open>a + PGSIZE\<close>, \<open>...\<close>, \<open>a + N * PGSIZE\<close> be the pages that meet the range. If none is mapped yet, \<open>mappages\<close> returns 0
  and the entry of each page is the corresponding frame with the permissions and the present bit, or it returns -1 and
  the memory has run out, which cannot happen with more than \<open>N\<close> free pages; in both cases no entry of another page changes, the page table and
  the free list stay well formed. If one of them is mapped, it panics.\<close>

theorem mappages_maps:
  fixes va n :: addr
  assumes "kmem_inv ps s" and "pt_ok ps (mem s) pd"
  defines "a \<equiv> PGROUNDDOWN va" and "N \<equiv> unat ((PGROUNDDOWN (va + n - 1) - PGROUNDDOWN va) div PGSIZE)"
  shows "if \<exists>k \<le> N. entry (mem s) pd (a + of_nat k * PGSIZE) AND PTE_P \<noteq> 0 then N < length ps \<longrightarrow> mappages pd va n pa perm s = Panic ''remap''
    else \<exists>r qs t. mappages pd va n pa perm s = Ret r t \<and> kmem_inv qs t \<and> pt_ok qs (mem t) pd \<and> suffix qs ps \<and> spares pd a N (mem s) (mem t) \<and>
      (r = 0 \<and> maps pd a N pa perm (mem s) (mem t) \<or> r = - 1 \<and> qs = [] \<and> length ps \<le> N)"
proof -
  have "N < 2 ^ 20"
  proof -
    have "unat x div 4096 < 2 ^ 20" for x :: addr using unat_lt32 [of x] by simp
    then show ?thesis by (simp add: N_def unat_div PGSIZE_def)
  qed
  moreover have "mappages pd va n pa perm s = mappages_loop pd N a pa perm s" by (simp add: mappages_def Let_def a_def N_def)
  moreover have "a mod 4096 = 0" unfolding a_def by (rule PGROUNDDOWN_aligned)
  ultimately show ?thesis using mappages_loop_total [OF assms(1,2), of a N pa perm] by metis
qed

theorem mappages_maps_witness:
  "\<exists>t. mappages 0x80400000 0x1000 4096 0x5000 PTE_W (mst0 0\<lparr>freelist := 0x80401000\<rparr>) = Ret 0 t \<and> entry (mem t) 0x80400000 0x1000 = 0x5003 \<and> entry (mem t) 0x80400000 0x2000 = 0"
proof -
  let ?s = "mst0 0\<lparr>freelist := 0x80401000\<rparr>"
  have m: "mem ?s = (\<lambda>_. 0)" by (simp add: mst0_def mst.defs kst.defs)
  have z: "load32 (\<lambda>_. 0) x = 0" for x by (simp add: load32_def)
  have e: "entry (mem ?s) p v = 0" for p v by (simp add: entry_def m z)
  have i: "kmem_inv [0x80401000] ?s" by (simp add: kmem_inv_def mst0_def mst.defs kst.defs page_ok_def page_consts z)
  have o: "pt_ok [0x80401000] (mem ?s) 0x80400000" by (simp add: pt_ok_def m z)
  have a: "PGROUNDDOWN 0x1000 = 0x1000" "PGROUNDDOWN (0x1000 + 4096 - 1) = 0x1000" "PGROUNDDOWN 0x2000 = 0x2000" by (simp_all add: PGROUNDDOWN_def PGSIZE_def)
  have "\<exists>r qs t. mappages 0x80400000 0x1000 4096 0x5000 PTE_W ?s = Ret r t \<and> kmem_inv qs t \<and> pt_ok qs (mem t) 0x80400000 \<and> suffix qs [0x80401000] \<and> spares 0x80400000 0x1000 0 (mem ?s) (mem t) \<and>
      (r = 0 \<and> maps 0x80400000 0x1000 0 0x5000 PTE_W (mem ?s) (mem t) \<or> r = - 1 \<and> qs = [] \<and> length [0x80401000 :: addr] \<le> 0)"
    using mappages_maps [OF i o, where va = "0x1000" and n = 4096 and pa = "0x5000" and perm = PTE_W] unfolding a e by simp
  then obtain t where t: "mappages 0x80400000 0x1000 4096 0x5000 PTE_W ?s = Ret 0 t" "spares 0x80400000 0x1000 0 (mem ?s) (mem t)" "maps 0x80400000 0x1000 0 0x5000 PTE_W (mem ?s) (mem t)" by auto
  have "entry (mem t) 0x80400000 0x1000 = 0x5003" using t(3) by (simp add: maps_def PTE_W_def PTE_P_def)
  moreover have "entry (mem t) 0x80400000 0x2000 = 0" using t(2) e a(3) by (simp add: spares_def)
  ultimately show ?thesis using t(1) by blast
qed

end
