(* ===== verification/File.thy ===== *)
theory File
  imports Pipe Pagetable
begin

text \<open>
  \<^verbatim>\<open>file.c\<close> and \<open>pipealloc\<close> of \<^verbatim>\<open>pipe.c\<close>: the table of open files with its reference counts, and reading
  and writing through a file. A file pointer is its index in \<open>ftable.file\<close>.
\<close>

section \<open>Operations\<close>

definition NFILE :: nat where "NFILE = 100"

datatype fdtype = FD_NONE | FD_PIPE | FD_INODE

record kfile =
  ftype :: fdtype
  fref :: int
  readable :: bool
  writable :: bool
  fpipe :: addr
  fip :: "nat option"
  foff :: nat

record flst = pipest +
  ftable :: "kfile list"

definition fmod :: "nat \<Rightarrow> (kfile \<Rightarrow> kfile) \<Rightarrow> 'z flst_scheme \<Rightarrow> 'z flst_scheme" where
  "fmod i f s = s\<lparr>ftable := upd i f (ftable s)\<rparr>"

definition fileinit :: "('z flst_scheme, unit) kop" where
  "fileinit = initlock LFtable"

definition filealloc :: "('z flst_scheme, nat option) kop" where
  "filealloc =
     kseq (acquire LFtable) (
     kbind (kget ftable) (\<lambda>fs.
     case first_index (\<lambda>f. fref f = 0) fs of
       Some i \<Rightarrow>
         kseq (kmod (fmod i (\<lambda>f. f\<lparr>fref := 1\<rparr>))) (
         kseq (release LFtable)
           (kret (Some i)))
     | None \<Rightarrow> kseq (release LFtable) (kret None)))"

definition filedup :: "nat \<Rightarrow> ('z flst_scheme, nat) kop" where
  "filedup i =
     kseq (acquire LFtable) (
     kbind (kget (\<lambda>s. fref (ftable s ! i))) (\<lambda>r.
     if r < 1 then kpanic ''filedup''
     else
       kseq (kmod (fmod i (\<lambda>f. f\<lparr>fref := fref f + 1\<rparr>))) (
       kseq (release LFtable)
         (kret i))))"

definition fileclose :: "nat \<Rightarrow> ('z flst_scheme, unit) kop" where
  "fileclose i =
     kseq (acquire LFtable) (
     kbind (kget (\<lambda>s. fref (ftable s ! i))) (\<lambda>r.
     if r < 1 then kpanic ''fileclose''
     else
       kseq (kmod (fmod i (\<lambda>f. f\<lparr>fref := fref f - 1\<rparr>))) (
       if r - 1 > 0 then release LFtable
       else
         kbind (kget (\<lambda>s. ftable s ! i)) (\<lambda>ff.
         kseq (kmod (fmod i (\<lambda>f. f\<lparr>fref := 0, ftype := FD_NONE\<rparr>))) (
         kseq (release LFtable)
           (case ftype ff of
              FD_PIPE \<Rightarrow> pipeclose (fpipe ff) (writable ff)
            | FD_INODE \<Rightarrow>
                kseq begin_op (
                kseq (kbind (kderef (fip ff)) iput)
                  end_op)
            | FD_NONE \<Rightarrow> kret ()))))))"

definition filestat :: "nat \<Rightarrow> ('z flst_scheme, stat option) kop" where
  "filestat i =
     kbind (kget (\<lambda>s. ftable s ! i)) (\<lambda>f.
     if ftype f = FD_INODE then
       kseq (ilock (fip f)) (
       kbind (kderef (fip f)) (\<lambda>ip.
       kbind (kget (stati ip)) (\<lambda>st.
       kseq (iunlock (fip f))
         (kret (Some st)))))
     else kret None)"

definition fileread :: "(int \<Rightarrow> 'z flst_scheme devsw option) \<Rightarrow> nat \<Rightarrow> int \<Rightarrow> ('z flst_scheme, int \<times> byte list) kop" where
  "fileread dv i n =
     kbind (kget (\<lambda>s. ftable s ! i)) (\<lambda>f.
     if \<not> readable f then kret (- 1, [])
     else case ftype f of
       FD_PIPE \<Rightarrow> piperead (fpipe f) n
     | FD_INODE \<Rightarrow>
         kseq (ilock (fip f)) (
         kbind (kderef (fip f)) (\<lambda>ip.
         kbind (readi dv ip (foff f) (nat (n mod 2 ^ 32))) (\<lambda>r.
         kseq (kwhen (fst r > 0) (kmod (fmod i (\<lambda>f. f\<lparr>foff := (foff f + nat (fst r)) mod 2 ^ 32\<rparr>)))) (
         kseq (iunlock (fip f))
           (kret r)))))
     | FD_NONE \<Rightarrow> kpanic ''fileread'')"

text \<open>
  The loop of \<open>filewrite\<close>: \<open>src\<close> is what is left, \<open>n\<close> the total. Each round writes at most three blocks in a
  transaction of its own.
\<close>

definition filewrite_max :: nat where "filewrite_max = ((10 - 1 - 1 - 2) div 2) * 512"

definition filewrite1 :: "(int \<Rightarrow> 'z flst_scheme devsw option) \<Rightarrow> nat \<Rightarrow> byte list \<Rightarrow> ('z flst_scheme, int) kop" where
  "filewrite1 dv i src =
     kbind (kget (\<lambda>s. ftable s ! i)) (\<lambda>f.
     kseq begin_op (
     kseq (ilock (fip f)) (
     kbind (kderef (fip f)) (\<lambda>ip.
     kbind (writei dv ip src (foff f) (length src)) (\<lambda>r.
     kseq (kwhen (r > 0) (kmod (fmod i (\<lambda>f. f\<lparr>foff := (foff f + nat r) mod 2 ^ 32\<rparr>)))) (
     kseq (iunlock (fip f)) (
     kseq end_op
       (kret r))))))))"

function filewrite_loop :: "(int \<Rightarrow> 'z flst_scheme devsw option) \<Rightarrow> nat \<Rightarrow> byte list \<Rightarrow> ('z flst_scheme, bool) kop" where
  "filewrite_loop dv i src =
     (if src = [] then kret True
      else
        kbind (filewrite1 dv i (take filewrite_max src)) (\<lambda>r.
        if r < 0 then kret False
        else if r \<noteq> int (length (take filewrite_max src)) then kpanic ''short filewrite''
        else filewrite_loop dv i (drop filewrite_max src)))"
  by pat_completeness auto
termination
  by (relation "measure (\<lambda>(dv, i, src). length src)") (auto simp: filewrite_max_def)

declare filewrite_loop.simps [simp del]

definition filewrite :: "(int \<Rightarrow> 'z flst_scheme devsw option) \<Rightarrow> nat \<Rightarrow> byte list \<Rightarrow> int \<Rightarrow> ('z flst_scheme, int) kop" where
  "filewrite dv i src n =
     kbind (kget (\<lambda>s. ftable s ! i)) (\<lambda>f.
     if \<not> writable f then kret (- 1)
     else case ftype f of
       FD_PIPE \<Rightarrow> pipewrite (fpipe f) src n
     | FD_INODE \<Rightarrow>
         kbind (filewrite_loop dv i (take (nat n) src)) (\<lambda>ok.
         kret (if ok \<and> 0 \<le> n then n else - 1))
     | FD_NONE \<Rightarrow> kpanic ''filewrite'')"

section \<open>Making a pipe\<close>

definition pipealloc_bad :: "nat option \<Rightarrow> nat option \<Rightarrow> addr \<Rightarrow> ('z flst_scheme, (nat \<times> nat) option) kop" where
  "pipealloc_bad f0 f1 p =
     kseq (kwhen (p \<noteq> 0) (kfree p)) (
     kseq (case f0 of None \<Rightarrow> kret () | Some i \<Rightarrow> fileclose i) (
     kseq (case f1 of None \<Rightarrow> kret () | Some i \<Rightarrow> fileclose i)
       (kret None)))"

definition pipealloc :: "('z flst_scheme, (nat \<times> nat) option) kop" where
  "pipealloc =
     kbind filealloc (\<lambda>f0.
     case f0 of None \<Rightarrow> pipealloc_bad None None 0 | Some i0 \<Rightarrow>
     kbind filealloc (\<lambda>f1.
     case f1 of None \<Rightarrow> pipealloc_bad f0 None 0 | Some i1 \<Rightarrow>
     kbind kalloc (\<lambda>p.
     if p = 0 then pipealloc_bad f0 f1 0
     else
       kseq (kmod (pipemod p (\<lambda>q. q\<lparr>readopen := True, writeopen := True, nwrite := 0, nread := 0\<rparr>))) (
       kseq (initlock (LPipe (unat p))) (
       kseq (kmod (fmod i0 (\<lambda>f. f\<lparr>ftype := FD_PIPE, readable := True, writable := False, fpipe := p\<rparr>))) (
       kseq (kmod (fmod i1 (\<lambda>f. f\<lparr>ftype := FD_PIPE, readable := False, writable := True, fpipe := p\<rparr>)))
         (kret (Some (i0, i1)))))))))"

end
