(* ===== verification/Proc.thy ===== *)
theory Proc
  imports File
begin

text \<open>
  The life cycle of processes and light-weight processes (LWPs), the other half of \<^verbatim>\<open>proc.c\<close>:
  \<open>allocproc\<close>, \<open>userinit\<close>, \<open>growproc\<close>, \<open>fork\<close>, \<open>exit\<close>, \<open>wait\<close>, \<open>thread_create\<close>, \<open>thread_exit\<close>, \<open>thread_join\<close> and
  \<open>forkret\<close>.

  The kernel reads and writes through addresses a user passed with the page table of the running
  process: \<open>vload\<close> and \<open>vstore\<close>. The upper half of every page table is the direct map that \<open>setupkvm\<close>
  installs; an address of the lower half that is not mapped makes the kernel panic in \<open>trap\<close>.
\<close>

unbundle bit_operations_syntax

section \<open>Memory as the processor sees it\<close>

definition vtrans :: "memory \<Rightarrow> addr \<Rightarrow> addr \<Rightarrow> addr option" where
  "vtrans m pd va =
     (if va \<ge> KERNBASE then Some va
      else let pde = load32 m (pd + 4 * PDX va)
        in if pde AND PTE_P = 0 then None
           else let pte = load32 m (P2V (PTE_ADDR pde) + 4 * PTX va)
             in if pte AND PTE_P = 0 then None
                else Some (P2V (PTE_ADDR pte) + (va AND 0xFFF)))"

primrec vstore :: "addr \<Rightarrow> byte list \<Rightarrow> ('z pst_scheme, unit) kop" where
  "vstore va [] = kret ()"
| "vstore va (b # bs) =
     kbind (kget (\<lambda>s. vtrans (mem s) (P2V (cr3 s)) va)) (\<lambda>a.
     kbind (kderef a) (\<lambda>pa.
     kseq (mmod (\<lambda>m. m(pa := b)))
       (vstore (va + 1) bs)))"

primrec vload :: "addr \<Rightarrow> nat \<Rightarrow> ('z pst_scheme, byte list) kop" where
  "vload va 0 = kret []"
| "vload va (Suc n) =
     kbind (kget (\<lambda>s. vtrans (mem s) (P2V (cr3 s)) va)) (\<lambda>a.
     kbind (kderef a) (\<lambda>pa.
     kbind (kget (\<lambda>s. mem s pa)) (\<lambda>b.
     kbind (vload (va + 1) n) (\<lambda>bs.
     kret (b # bs)))))"

definition bytes32 :: "32 word \<Rightarrow> byte list" where
  "bytes32 v = [ucast v, ucast (drop_bit 8 v), ucast (drop_bit 16 v), ucast (drop_bit 24 v)]"

definition vstore32 :: "addr \<Rightarrow> 32 word \<Rightarrow> ('z pst_scheme, unit) kop" where
  "vstore32 va v = vstore va (bytes32 v)"

definition vload32 :: "addr \<Rightarrow> ('z pst_scheme, 32 word) kop" where
  "vload32 va = kbind (vload va 4) (\<lambda>bs. kret (get32 0 bs))"

definition store16 :: "addr \<Rightarrow> 16 word \<Rightarrow> memory \<Rightarrow> memory" where
  "store16 a v m = m(a := ucast v, a + 1 := ucast (drop_bit 8 v))"

text \<open>\<open>safestrcpy\<close> on a name buffer.\<close>

definition namecpy :: "byte list \<Rightarrow> byte list \<Rightarrow> nat \<Rightarrow> byte list" where
  "namecpy dst src n =
     (let cs = take (n - 1) (takeWhile (\<lambda>c. c \<noteq> 0) src) in cs @ [0] @ drop (length cs + 1) dst)"

section \<open>State\<close>

text \<open>\<open>fr_first\<close> is the static variable \<open>first\<close> of \<open>forkret\<close>, \<open>ticks\<close> the counter of \<^verbatim>\<open>trap.c\<close>.\<close>

record prst = flst +
  fr_first :: bool
  ticks :: "32 word"

definition tf_size :: addr where "tf_size = 76"
definition tf_eax :: addr where "tf_eax = 28"
definition tf_eip :: addr where "tf_eip = 56"
definition tf_esp :: addr where "tf_esp = 68"
definition ctx_size :: addr where "ctx_size = 20"
definition ctx_eip :: addr where "ctx_eip = 16"

definition pget :: "nat \<Rightarrow> (proc \<Rightarrow> 'a) \<Rightarrow> ('z pst_scheme, 'a) kop" where
  "pget p f = kget (\<lambda>s. f (procs s ! p))"

definition pset :: "nat \<Rightarrow> (proc \<Rightarrow> proc) \<Rightarrow> ('z pst_scheme, unit) kop" where
  "pset p f = kmod (pmod p f)"

section \<open>New processes\<close>

definition allocproc :: "('z pst_scheme, nat option) kop" where
  "allocproc =
     kseq (acquire LPtable) (
     kbind (kget procs) (\<lambda>ps.
     case first_index (\<lambda>p. state p = UNUSED) ps of
       None \<Rightarrow> kseq (release LPtable) (kret None)
     | Some p \<Rightarrow>
         kseq (pset p (\<lambda>q. q\<lparr>state := EMBRYO\<rparr>)) (
         kbind (kget nextpid) (\<lambda>n.
         kseq (kmod (\<lambda>s. s\<lparr>nextpid := n + 1\<rparr>)) (
         kseq (pset p (\<lambda>q. q\<lparr>pid := n, strd := \<lparr>pass = 0, stride = 0, share = 0\<rparr>,
                 mlfq := \<lparr>tick = 0, lev = TOP, priority = 0\<rparr>, mode := STRD_SCHED, lwpid := 0, lwppid := 0,
                 retval := 0, sbase := 0, snum := 0, forked := False\<rparr>)) (
         kseq (release LPtable) (
         kbind kalloc (\<lambda>k.
         kseq (pset p (\<lambda>q. q\<lparr>kstack := k\<rparr>)) (
         if k = 0 then kseq (pset p (\<lambda>q. q\<lparr>state := UNUSED\<rparr>)) (kret None)
         else
           let tp = k + KSTACKSIZE - tf_size; rp = tp - 4; cp = rp - ctx_size
           in kseq (pset p (\<lambda>q. q\<lparr>tf := tp\<rparr>)) (
              kbind (kget trapret) (\<lambda>tr.
              kseq (mmod (store32 rp tr)) (
              kseq (pset p (\<lambda>q. q\<lparr>ctxt := cp\<rparr>)) (
              kseq (mmod (memset cp 0 ctx_size)) (
              kbind (kget forkret) (\<lambda>fr.
              kseq (mmod (store32 (cp + ctx_eip) fr))
                (kret (Some p)))))))))))))))))"

definition userinit :: "addr \<Rightarrow> addr \<Rightarrow> (int \<Rightarrow> 'z flst_scheme devsw option) \<Rightarrow> ('z flst_scheme, unit) kop" where
  "userinit initcode_start initcode_size dv =
     kbind allocproc (\<lambda>np.
     kseq (kmod (\<lambda>s. s\<lparr>initproc := np\<rparr>)) (
     kbind (kderef np) (\<lambda>p.
     kbind setupkvm (\<lambda>d.
     kseq (pset p (\<lambda>q. q\<lparr>pgdir := d\<rparr>)) (
     if d = 0 then kpanic ''userinit: out of memory?''
     else
       kseq (inituvm d initcode_start initcode_size) (
       kseq (pset p (\<lambda>q. q\<lparr>sz := PGSIZE\<rparr>)) (
       kbind (pget p tf) (\<lambda>tp.
       kseq (mmod (memset tp 0 tf_size)) (
       kseq (mmod (store16 (tp + 60) 0x1B)) (
       kseq (mmod (store16 (tp + 44) 0x23)) (
       kseq (mmod (store16 (tp + 40) 0x23)) (
       kseq (mmod (store16 (tp + 72) 0x23)) (
       kseq (mmod (store32 (tp + 64) 0x200)) (
       kseq (mmod (store32 (tp + tf_esp) PGSIZE)) (
       kseq (mmod (store32 (tp + tf_eip) 0)) (
       kseq (pset p (\<lambda>q. q\<lparr>name := namecpy (name q) [105, 110, 105, 116, 99, 111, 100, 101] 16\<rparr>)) (
       kbind (namei dv [slash]) (\<lambda>c.
       kseq (pset p (\<lambda>q. q\<lparr>cwd := c\<rparr>)) (
       kseq (acquire LPtable) (
       kseq (pset p (\<lambda>q. q\<lparr>state := RUNNABLE\<rparr>)) (
       kseq (release LPtable)
         (kmod (\<lambda>s. s\<lparr>mlfqs := \<lparr>mpass = 0, mstride = 0, mshare = 0, totaltick = 0, topn = 0, midn = 0, lown = 0\<rparr>,
            stable := replicate (length (stable s)) False\<rparr>)))))))))))))))))))))))"

text \<open>The slots of \<open>stable\<close> number the stacks of LWPs.\<close>

definition get_base :: "nat \<Rightarrow> ('z pst_scheme, nat) kop" where
  "get_base p =
     kbind (kget stable) (\<lambda>st.
     case first_index (\<lambda>u. \<not> u) st of
       None \<Rightarrow> kpanic ''get_base() panic''
     | Some i \<Rightarrow>
         kseq (kmod (\<lambda>s. s\<lparr>stable := (stable s)[i := True]\<rparr>)) (
         kseq (pset p (\<lambda>q. q\<lparr>snum := i\<rparr>))
           (kret i)))"

text \<open>An early return of \<open>growproc\<close> leaves \<open>ptable.lock\<close> held.\<close>

definition growproc :: "int \<Rightarrow> ('z pst_scheme, int) kop" where
  "growproc n =
     kbind curproc (\<lambda>p.
     kseq (acquire LPtable) (
     kseq (kfor (\<lambda>_. kseq (get_base p) (kret ())) [0..<nat (cquot n 8192)]) (
     kbind (pget p lwpid) (\<lambda>l.
     kbind (if l > 0 then kbind (pget p parent) kderef else kret p) (\<lambda>ow.
     kbind (pget ow sz) (\<lambda>z.
     kbind (pget p pgdir) (\<lambda>d.
     kbind (if n > 0 then allocuvm d z (z + of_int n)
            else if n < 0 then deallocuvm d z (z + of_int n)
            else kret z) (\<lambda>z'.
     if n \<noteq> 0 \<and> z' = 0 then kret (- 1)
     else
       kseq (pset ow (\<lambda>q. q\<lparr>sz := z'\<rparr>)) (
       kseq (release LPtable) (
       kseq (switchuvm (Some p))
         (kret 0)))))))))))"

definition dup_files :: "nat \<Rightarrow> nat \<Rightarrow> ('z flst_scheme, unit) kop" where
  "dup_files p np =
     kfor (\<lambda>i.
       kbind (pget p (\<lambda>q. ofile q ! i)) (\<lambda>f.
       case f of
         None \<Rightarrow> kret ()
       | Some f \<Rightarrow>
           kbind (filedup f) (\<lambda>g.
           pset np (\<lambda>q. q\<lparr>ofile := (ofile q)[i := Some g]\<rparr>)))) [0..<NOFILE]"

definition fork :: "('z flst_scheme, int) kop" where
  "fork =
     kbind curproc (\<lambda>p.
     kbind allocproc (\<lambda>r.
     case r of None \<Rightarrow> kret (- 1) | Some np \<Rightarrow>
     kbind (pget p lwpid) (\<lambda>l.
     kseq (kwhen (l > 0) (
       kbind (kget nextlwpid) (\<lambda>n.
       kseq (pset np (\<lambda>q. q\<lparr>forked := True, lwpid := n\<rparr>))
         (kmod (\<lambda>s. s\<lparr>nextlwpid := n + 1\<rparr>))))) (
     kbind (pget p pgdir) (\<lambda>pd.
     kbind (pget p sz) (\<lambda>z.
     kbind (copyuvm pd z) (\<lambda>d.
     kseq (pset np (\<lambda>q. q\<lparr>pgdir := d\<rparr>)) (
     if d = 0 then
       kbind (pget np kstack) (\<lambda>k.
       kseq (kfree k) (
       kseq (pset np (\<lambda>q. q\<lparr>kstack := 0, state := UNUSED\<rparr>))
         (kret (- 1))))
     else
       kseq (pset np (\<lambda>q. q\<lparr>sz := z, parent := Some p\<rparr>)) (
       kbind (pget np tf) (\<lambda>ntf.
       kbind (pget p tf) (\<lambda>ptf.
       kseq (mmod (memmove ntf ptf tf_size)) (
       kseq (mmod (store32 (ntf + tf_eax) 0)) (
       kseq (dup_files p np) (
       kbind (pget p cwd) (\<lambda>c.
       kbind (kderef c) (\<lambda>c.
       kbind (idup c) (\<lambda>c.
       kseq (pset np (\<lambda>q. q\<lparr>cwd := Some c\<rparr>)) (
       kbind (pget p name) (\<lambda>nm.
       kseq (pset np (\<lambda>q. q\<lparr>name := namecpy (name q) nm 16\<rparr>)) (
       kbind (pget np pid) (\<lambda>n.
       kseq (acquire LPtable) (
       kseq (pset np (\<lambda>q. q\<lparr>state := RUNNABLE\<rparr>)) (
       kseq (release LPtable)
         (kret n))))))))))))))))))))))))"

section \<open>The end of a process\<close>

definition close_files :: "nat \<Rightarrow> ('z flst_scheme, unit) kop" where
  "close_files p =
     kfor (\<lambda>fd.
       kbind (pget p (\<lambda>q. ofile q ! fd)) (\<lambda>f.
       case f of
         None \<Rightarrow> kret ()
       | Some f \<Rightarrow>
           kseq (fileclose f)
             (pset p (\<lambda>q. q\<lparr>ofile := (ofile q)[fd := None]\<rparr>)))) [0..<NOFILE]"

definition put_cwd :: "nat \<Rightarrow> ('z flst_scheme, unit) kop" where
  "put_cwd p =
     kseq begin_op (
     kbind (pget p cwd) (\<lambda>c.
     kseq (kbind (kderef c) iput) (
     kseq end_op
       (pset p (\<lambda>q. q\<lparr>cwd := None\<rparr>)))))"

text \<open>What \<open>exit\<close> and \<open>thread_join\<close> do with a zombie LWP: the fields they both reset.\<close>

definition clear_lwp :: "proc \<Rightarrow> proc" where
  "clear_lwp q = q\<lparr>pid := 0, parent := None, name := (name q)[0 := 0], killed := False, state := UNUSED,
     lwpid := 0, lwppid := 0, sbase := 0, snum := 0, forked := False, retval := 0\<rparr>"

definition exit_reap1 :: "nat \<Rightarrow> nat \<Rightarrow> ('z pst_scheme, unit) kop" where
  "exit_reap1 me i =
     kbind (pget me pid) (\<lambda>mypid.
     kbind (pget i (\<lambda>q. q)) (\<lambda>q.
     kwhen (lwppid q = mypid) (
       if state q = ZOMBIE then
         kseq (kfree (kstack q)) (
         kseq (pset i (\<lambda>q. q\<lparr>kstack := 0\<rparr>)) (
         kseq (deallocuvm (pgdir q) (sbase q + 2 * PGSIZE) (sbase q)) (
         kseq (pset i clear_lwp)
           (kmod (\<lambda>s. s\<lparr>num_lwp := num_lwp s - 1\<rparr>)))))
       else
         kseq (pset i (\<lambda>q. q\<lparr>killed := True\<rparr>))
           (wakeup1 (CProc i)))))"

definition exit_manager :: "nat \<Rightarrow> ('z pst_scheme, unit) kop" where
  "exit_manager me =
     kseq (pset me (\<lambda>q. q\<lparr>killed := True\<rparr>)) (
     kseq (acquire LPtable) (
     kseq (kfor (exit_reap1 me) [0..<NPROC]) (
     kbind (kget num_lwp) (\<lambda>n.
     if n = 0 then release LPtable
     else sleep (CProc me) LPtable))))"

definition wakeup_parent :: "nat option \<Rightarrow> ('z pst_scheme, unit) kop" where
  "wakeup_parent p = wakeup1 (case p of None \<Rightarrow> CNone | Some q \<Rightarrow> CProc q)"

definition exit_reparent1 :: "nat \<Rightarrow> nat \<Rightarrow> ('z pst_scheme, unit) kop" where
  "exit_reparent1 me i =
     kbind (pget i parent) (\<lambda>q.
     kwhen (q = Some me) (
       kbind (kget initproc) (\<lambda>ip.
       kseq (pset i (\<lambda>q. q\<lparr>parent := ip\<rparr>)) (
       kbind (pget i state) (\<lambda>st.
       kwhen (st = ZOMBIE) (wakeup_parent ip))))))"

definition exit :: "('z flst_scheme, unit) kop" where
  "exit =
     kbind curproc (\<lambda>me.
     kbind (kget initproc) (\<lambda>ip.
     if Some me = ip then kpanic ''init exiting''
     else
       kbind (pget me lwpid) (\<lambda>l.
       kbind (pget me forked) (\<lambda>fk.
       kseq (if l = 0 then exit_manager me
             else kwhen (\<not> fk) (kbind (pget me parent) (\<lambda>q. kbind (kderef q) (\<lambda>q. pset q (\<lambda>q. q\<lparr>killed := True\<rparr>))))) (
       kseq (close_files me) (
       kseq (put_cwd me) (
       kseq (acquire LPtable) (
       kbind (pget me lwpid) (\<lambda>l.
       kbind (pget me parent) (\<lambda>q.
       kseq (kwhen (l = 0 \<or> q \<noteq> None) (wakeup_parent q)) (
       kbind (pget me (\<lambda>q. q)) (\<lambda>c.
       kseq (kwhen (mode c = STRD_SET_SCHED) (
         kmod (\<lambda>s. s\<lparr>strd_sum := strd_sum s + share (strd c), strd_share_sum := strd_share_sum s - share (strd c)\<rparr>))) (
       kseq (kfor (exit_reparent1 me) [0..<NPROC]) (
       kseq (pset me (\<lambda>q. q\<lparr>state := ZOMBIE\<rparr>)) (
       kseq sched
         (kpanic ''zombie exit''))))))))))))))))"

definition wait :: "('z pst_scheme, int) kop" where
  "wait =
     kbind curproc (\<lambda>me.
     kseq (acquire LPtable) (
     kbind (kget procs) (\<lambda>ps.
     case first_index (\<lambda>q. parent q = Some me \<and> state q = ZOMBIE) ps of
       Some i \<Rightarrow>
         kbind (pget i (\<lambda>q. q)) (\<lambda>q.
         kseq (kfree (kstack q)) (
         kseq (pset i (\<lambda>q. q\<lparr>kstack := 0\<rparr>)) (
         kseq (freevm (pgdir q)) (
         kseq (pset i (\<lambda>q. q\<lparr>pid := 0, parent := None, name := (name q)[0 := 0], killed := False, state := UNUSED\<rparr>)) (
         kseq (release LPtable)
           (kret (pid q)))))))
     | None \<Rightarrow>
         kbind (pget me killed) (\<lambda>k.
         if (\<forall>q \<in> set ps. parent q \<noteq> Some me) \<or> k then kseq (release LPtable) (kret (- 1))
         else kseq (sleep (CProc me) LPtable) (kret 0)))))"

section \<open>Light-weight processes\<close>

text \<open>
  \<open>thread\<close> and \<open>arg\<close> are what the user passed. The early returns of \<open>thread_create\<close> leave \<open>ptable.lock\<close> held.
\<close>

definition thread_create :: "addr \<Rightarrow> addr \<Rightarrow> addr \<Rightarrow> ('z flst_scheme, int) kop" where
  "thread_create thread start_routine arg =
     kbind curproc (\<lambda>p.
     kbind allocproc (\<lambda>r.
     case r of None \<Rightarrow> kret (- 1) | Some np \<Rightarrow>
     kseq (kmod (\<lambda>s. s\<lparr>num_lwp := num_lwp s + 1\<rparr>)) (
     kseq (acquire LPtable) (
     kbind (pget p (\<lambda>q. q)) (\<lambda>q.
     if lwpid q < 0 then kret (- 1)
     else
       kseq (if lwpid q > 0 then pset np (\<lambda>c. c\<lparr>lwppid := lwppid q, parent := parent q\<rparr>)
             else pset np (\<lambda>c. c\<lparr>lwppid := pid q, parent := Some p\<rparr>)) (
       kbind (kget nextlwpid) (\<lambda>n.
       kseq (kmod (\<lambda>s. s\<lparr>nextlwpid := n + 1\<rparr>)) (
       kseq (pset np (\<lambda>c. c\<lparr>lwpid := n\<rparr>)) (
       kseq (vstore32 thread (of_int n)) (
       kseq (pset np (\<lambda>c. c\<lparr>pgdir := pgdir q\<rparr>)) (
       kbind (pget np tf) (\<lambda>ntf.
       kseq (mmod (memmove ntf (tf q) tf_size)) (
       kseq (pset np (\<lambda>c. c\<lparr>name := namecpy (name c) (name q) 16\<rparr>)) (
       kbind (kderef (cwd q)) (\<lambda>c.
       kbind (idup c) (\<lambda>c.
       kseq (pset np (\<lambda>q. q\<lparr>cwd := Some c\<rparr>)) (
       kbind (get_base np) (\<lambda>b.
       let base = sz q + 2 * PGSIZE * of_nat (b + 1)
       in kseq (pset np (\<lambda>q. q\<lparr>sbase := base\<rparr>)) (
          kbind (allocuvm (pgdir q) base (base + 2 * PGSIZE)) (\<lambda>z.
          kseq (pset np (\<lambda>q. q\<lparr>sz := z\<rparr>)) (
          if z = 0 then kseq (pset np (\<lambda>q. q\<lparr>state := UNUSED\<rparr>)) (kret (- 1))
          else
            kseq (mmod (store32 (ntf + tf_esp) (z - 4))) (
            kseq (vstore32 (z - 4) arg) (
            kseq (mmod (store32 (ntf + tf_esp) (z - 8))) (
            kseq (vstore32 (z - 8) 0xFFFFFFFF) (
            kseq (mmod (store32 (ntf + tf_eip) start_routine)) (
            kseq (dup_files p np) (
            kseq (pset np (\<lambda>q. q\<lparr>state := RUNNABLE\<rparr>)) (
            kseq (release LPtable)
              (kret 0)))))))))))))))))))))))))))))"

definition thread_exit :: "addr \<Rightarrow> ('z flst_scheme, unit) kop" where
  "thread_exit rv =
     kbind curproc (\<lambda>me.
     kbind (kget initproc) (\<lambda>ip.
     if Some me = ip then kpanic ''init exiting''
     else
       kseq (close_files me) (
       kseq (put_cwd me) (
       kseq (acquire LPtable) (
       kseq (pset me (\<lambda>q. q\<lparr>retval := rv\<rparr>)) (
       kbind (pget me parent) (\<lambda>q.
       kseq (wakeup_parent q) (
       kseq (pset me (\<lambda>q. q\<lparr>state := ZOMBIE\<rparr>)) (
       kseq (kmod (\<lambda>s. s\<lparr>num_lwp := num_lwp s - 1\<rparr>)) (
       kseq sched
         (kpanic ''zombie exit'')))))))))))"

definition thread_join :: "int \<Rightarrow> addr \<Rightarrow> ('z pst_scheme, int) kop" where
  "thread_join thread rv =
     kbind curproc (\<lambda>me.
     kbind (pget me (\<lambda>q. q)) (\<lambda>q.
     if lwpid q \<noteq> 0 then kret (- 1)
     else
       kseq (acquire LPtable) (
       kbind (kget procs) (\<lambda>ps.
       case first_index (\<lambda>c. lwpid c = thread \<and> lwppid c = pid q \<and> state c = ZOMBIE) ps of
         Some i \<Rightarrow>
           kbind (pget i (\<lambda>q. q)) (\<lambda>c.
           kseq (vstore32 rv (retval c)) (
           kseq (kfree (kstack c)) (
           kseq (pset i (\<lambda>q. q\<lparr>kstack := 0\<rparr>)) (
           kseq (deallocuvm (pgdir c) (sbase c + 2 * PGSIZE) (sbase c)) (
           kseq (kmod (\<lambda>s. s\<lparr>stable := (stable s)[snum c := False]\<rparr>)) (
           kseq (pset i clear_lwp) (
           kseq (release LPtable)
             (kret 0))))))))
       | None \<Rightarrow>
           kbind (pget me killed) (\<lambda>k.
           if k then kseq (release LPtable) (kret (- 1))
           else kseq (sleep (CProc me) LPtable) (kret 0))))))"

section \<open>Small operations\<close>

definition forkret_run :: "('z prst_scheme, unit) kop" where
  "forkret_run =
     kseq (release LPtable) (
     kbind (kget fr_first) (\<lambda>f.
     kwhen f (
       kseq (kmod (\<lambda>s. s\<lparr>fr_first := False\<rparr>)) (
       kseq (iinit ROOTDEV)
         (initlog ROOTDEV)))))"

definition lower_num_lwp :: "('z pst_scheme, unit) kop" where
  "lower_num_lwp = kmod (\<lambda>s. s\<lparr>num_lwp := num_lwp s - 1\<rparr>)"

text \<open>
  The condition of the loop in \<open>sleep_others\<close> is an address, which is never null: the loop runs past the
  end of the table, which is undefined behaviour.
\<close>

definition sleep_others :: "('z pst_scheme, unit) kop" where
  "sleep_others =
     kseq (acquire LPtable) (
     kbind curproc (\<lambda>me.
     kbind (pget me killed) (\<lambda>k.
     if k then release LPtable else kpanic ''undefined behaviour'')))"

end
