(* ===== verification/Syscall.thy ===== *)
theory Syscall
  imports Proc
begin

text \<open>
  The argument checks of \<^verbatim>\<open>syscall.c\<close> and the system calls of \<^verbatim>\<open>sysproc.c\<close>. A failed fetch (\<open>-1\<close> in C) is
  \<open>None\<close>; a string is returned as its bytes. \<open>-1\<close> as the result of a call is an integer, as in C.
\<close>

section \<open>Arguments\<close>

definition fetchint :: "addr \<Rightarrow> ('z pst_scheme, 32 word option) kop" where
  "fetchint a =
     kbind curproc (\<lambda>p.
     kbind (pget p sz) (\<lambda>z.
     if a \<ge> z \<or> a + 4 > z then kret None
     else kbind (vload32 a) (\<lambda>v. kret (Some v))))"

function fetchstr_loop :: "addr \<Rightarrow> addr \<Rightarrow> ('z pst_scheme, byte list option) kop" where
  "fetchstr_loop a ep =
     (if \<not> a < ep then kret None
      else
        kbind (vload a 1) (\<lambda>bs.
        if bs = [0] then kret (Some [])
        else kbind (fetchstr_loop (a + 1) ep) (\<lambda>r. kret (map_option (\<lambda>cs. bs @ cs) r))))"
  by pat_completeness auto
termination
proof (relation "measure (\<lambda>(a, ep). unat (ep - a))")
  fix a ep :: addr and x :: "byte list"
  assume "\<not> \<not> a < ep" "x \<noteq> [0]"
  then have "unat (ep - (a + 1)) < unat (ep - a)" by unat_arith
  then show "((a + 1, ep), a, ep) \<in> measure (\<lambda>(a, ep). unat (ep - a))" by simp
qed simp

declare fetchstr_loop.simps [simp del]

definition fetchstr :: "addr \<Rightarrow> ('z pst_scheme, byte list option) kop" where
  "fetchstr a =
     kbind curproc (\<lambda>p.
     kbind (pget p sz) (\<lambda>z.
     if a \<ge> z then kret None else fetchstr_loop a z))"

definition argint :: "nat \<Rightarrow> ('z pst_scheme, 32 word option) kop" where
  "argint n =
     kbind curproc (\<lambda>p.
     kbind (pget p tf) (\<lambda>t.
     kbind (mload (t + tf_esp)) (\<lambda>esp.
     fetchint (esp + 4 + 4 * of_nat n))))"

definition argptr :: "nat \<Rightarrow> int \<Rightarrow> ('z pst_scheme, addr option) kop" where
  "argptr n k =
     kbind curproc (\<lambda>p.
     kbind (argint n) (\<lambda>i.
     case i of None \<Rightarrow> kret None | Some i \<Rightarrow>
     kbind (pget p sz) (\<lambda>z.
     if k < 0 \<or> i \<ge> z \<or> i + of_int k > z then kret None
     else kret (Some i))))"

definition argstr :: "nat \<Rightarrow> ('z pst_scheme, byte list option) kop" where
  "argstr n =
     kbind (argint n) (\<lambda>i.
     case i of None \<Rightarrow> kret None | Some a \<Rightarrow> fetchstr a)"

text \<open>A value as a C \<open>int\<close>, and the pattern \<open>if(arg...(...) < 0) return -1\<close>.\<close>

definition as_int :: "32 word \<Rightarrow> int" where "as_int v = sint v"

definition karg :: "('s, 'a option) kop \<Rightarrow> ('a \<Rightarrow> ('s, int) kop) \<Rightarrow> ('s, int) kop" where
  "karg m f = kbind m (\<lambda>r. case r of None \<Rightarrow> kret (- 1) | Some a \<Rightarrow> f a)"

section \<open>System calls on processes\<close>

definition sys_fork :: "('z flst_scheme, int) kop" where
  "sys_fork = fork"

definition sys_exit :: "('z flst_scheme, int) kop" where
  "sys_exit = kseq exit (kret 0)"

definition sys_wait :: "('z pst_scheme, int) kop" where
  "sys_wait = wait"

definition sys_kill :: "('z pst_scheme, int) kop" where
  "sys_kill = karg (argint 0) (\<lambda>n. kill (as_int n))"

definition sys_getpid :: "('z pst_scheme, int) kop" where
  "sys_getpid = kbind curproc (\<lambda>p. pget p pid)"

definition sys_getppid :: "('z pst_scheme, int) kop" where
  "sys_getppid = kbind curproc (\<lambda>p. kbind (pget p parent) (\<lambda>q. kbind (kderef q) (\<lambda>q. pget q pid)))"

definition sys_sbrk :: "('z pst_scheme, int) kop" where
  "sys_sbrk =
     karg (argint 0) (\<lambda>n.
     kbind curproc (\<lambda>p.
     kbind (pget p sz) (\<lambda>a.
     kbind (growproc (as_int n)) (\<lambda>r.
     kret (if r < 0 then - 1 else as_int a)))))"

text \<open>
  The loop of \<open>sys_sleep\<close> compares an unsigned difference with the argument, which is converted to
  unsigned: a negative number of ticks is a very long sleep. A process that is woken runs the loop
  again from its test.
\<close>

definition sys_sleep_loop :: "32 word \<Rightarrow> 32 word \<Rightarrow> ('z prst_scheme, int) kop" where
  "sys_sleep_loop ticks0 n =
     kbind (kget ticks) (\<lambda>t.
     if t - ticks0 < n then
       kbind am_killed (\<lambda>k.
       if k then kseq (release LTicks) (kret (- 1))
       else kseq (sleep CTicks LTicks) (kret 0))
     else kseq (release LTicks) (kret 0))"

definition sys_sleep :: "('z prst_scheme, int) kop" where
  "sys_sleep =
     karg (argint 0) (\<lambda>n.
     kseq (acquire LTicks) (
     kbind (kget ticks) (\<lambda>ticks0.
     sys_sleep_loop ticks0 n)))"

definition sys_uptime :: "('z prst_scheme, int) kop" where
  "sys_uptime =
     kseq (acquire LTicks) (
     kbind (kget ticks) (\<lambda>xticks.
     kseq (release LTicks)
       (kret (as_int xticks))))"

definition sys_yield :: "('z pst_scheme, int) kop" where
  "sys_yield = kseq yield (kret 0)"

definition lev_int :: "mlfq_lev \<Rightarrow> int" where
  "lev_int l = (case l of TOP \<Rightarrow> 0 | MID \<Rightarrow> 1 | LOW \<Rightarrow> 2)"

definition sys_getlev :: "('z pst_scheme, int) kop" where
  "sys_getlev = kbind getlev (\<lambda>l. kret (lev_int l))"

definition sys_cpu_share :: "('z pst_scheme, int) kop" where
  "sys_cpu_share = karg (argint 0) (\<lambda>n. cpu_share (as_int n))"

definition sys_run_MLFQ :: "('z pst_scheme, int) kop" where
  "sys_run_MLFQ = kseq run_MLFQ (kret 0)"

definition sys_thread_create :: "('z flst_scheme, int) kop" where
  "sys_thread_create =
     karg (argint 0) (\<lambda>thread.
     karg (argint 1) (\<lambda>routine.
     karg (argint 2) (\<lambda>arg.
     thread_create thread routine arg)))"

definition sys_thread_exit :: "('z flst_scheme, int) kop" where
  "sys_thread_exit = karg (argint 0) (\<lambda>rv. kseq (thread_exit rv) (kret 0))"

definition sys_thread_join :: "('z pst_scheme, int) kop" where
  "sys_thread_join =
     karg (argint 0) (\<lambda>thread.
     karg (argint 1) (\<lambda>rv.
     thread_join (as_int thread) rv))"

section \<open>Arguments lie in user memory\<close>

lemma peek_st_idem [simp]: "peek_st (peek_st s) = peek_st s"
  by (simp add: peek_st_def)

lemma argint_peek: "kready s \<Longrightarrow> cur s = Some p \<Longrightarrow> argint n (peek_st s) = argint n s"
  by (simp add: argint_def curproc_then kready_peek)

lemma vload_state: "vload va n s = Ret bs t \<Longrightarrow> t = s"
proof (induction n arbitrary: va bs t)
  case (Suc n)
  show ?case
  proof (cases "vtrans (mem s) (P2V (cr3 s)) va")
    case (Some a)
    with Suc.prems obtain cs where "vload (va + 1) n s = Ret cs t" by (auto simp: kret_inv)
    then show ?thesis by (rule Suc.IH)
  qed (use Suc.prems in \<open>simp add: kret_inv\<close>)
qed (simp add: kret_inv)

lemma argint_state: "argint n s = Ret r t \<Longrightarrow> procs t = procs s"
  by (auto simp: argint_def fetchint_def vload32_def mload_def pget_def kret_inv kframe_cur dest!: curproc_same vload_state split: if_splits)

text \<open>C8: The check of a buffer that a system call is given is exact, in 32-bit arithmetic. For a process whose size is at most \<open>2 ^ 31\<close>, where the kernel's
  half of the address space begins, \<open>argptr\<close> accepts the buffer of \<open>k\<close> bytes at the address the argument holds exactly when \<open>k\<close> is not negative and the buffer begins and
  ends inside the process; the sum that the source compares does not wrap around. In particular no accepted buffer reaches into the memory of the kernel.\<close>

theorem argptr_exact:
  assumes "kready s" and "cur s = Some p" and "argint n s = Ret (Some a) t" and "unat (sz (procs s ! p)) \<le> 2 ^ 31" and "- (2 ^ 31) \<le> k" and "k < 2 ^ 31"
  shows "argptr n k s = Ret (if 0 \<le> k \<and> unat a < unat (sz (procs s ! p)) \<and> unat a + nat k \<le> unat (sz (procs s ! p)) then Some a else None) t"
proof -
  let ?z = "sz (procs s ! p)"
  have pt: "procs t = procs s" using argint_state [OF assms(3)] .
  have w: "i < ?z \<Longrightarrow> 0 \<le> k \<Longrightarrow> unat (i + of_int k) = unat i + nat k" for i
  proof -
    assume i: "i < ?z" "0 \<le> k"
    then have u: "unat i + nat k < 2 ^ 32" using assms(4,6) by (simp add: word_less_nat_alt)
    have "of_int k = (of_nat (nat k) :: 32 word)" using i(2) by simp
    then show ?thesis using u by (simp add: unat_word_ariths unat_of_nat)
  qed
  have "argptr n k s = (if k < 0 \<or> a \<ge> ?z \<or> a + of_int k > ?z then kret None else kret (Some a)) t"
    using assms(1-3) argint_peek [OF assms(1,2)] pt by (simp add: argptr_def curproc_then kbind_Ret [of "argint n"] pget_def)
  also have "\<dots> = Ret (if 0 \<le> k \<and> unat a < unat ?z \<and> unat a + nat k \<le> unat ?z then Some a else None) t"
    using w [of a] by (auto simp: kret_def word_less_nat_alt word_le_nat_alt)
  finally show ?thesis .
qed

theorem argptr_exact_witness:
  "\<exists>(s :: pst) t. argptr 0 16 s = Ret (Some 0x01010101) t \<and> argptr 0 0x01000000 s = Ret None t"
proof -
  define s :: pst where "s = (pst0 UNUSED)\<lparr>mem := \<lambda>_. 1, procs := upd 1 (\<lambda>q. q\<lparr>sz := 0x02000000\<rparr>) (procs0 UNUSED)\<rparr>"
  have r: "kready s" "cur s = Some 1" using in_proc_pst0 [of UNUSED] by (simp_all add: s_def in_proc_def kready_def cpu_of_def)
  have z: "sz (procs s ! 1) = 0x02000000" by (simp add: s_def procs0_def nth_upd)
  have m: "mem (peek_st s) = (\<lambda>_. 1)" by (simp add: s_def peek_st_def)
  have l: "load32 (\<lambda>_. 1) x = 0x01010101" for x by (simp add: load32_def)
  have v: "vtrans (\<lambda>_. 1) pd va \<noteq> None" for pd va by (auto simp: vtrans_def l PTE_P_def Let_def)
  have vl: "vload va n (peek_st s) = Ret (replicate n 1) (peek_st s)" for va n
  proof (induction n arbitrary: va)
    case (Suc n)
    obtain a where "vtrans (\<lambda>_. 1) (P2V (cr3 (peek_st s))) va = Some a" using v by blast
    then show ?case using Suc.IH m by (simp add: kbind_def kget_def kret_def)
  qed (simp add: kret_def)
  have g: "get32 0 (replicate 4 1) = 0x01010101" by (simp add: get32_def)
  have vw: "vload32 va (peek_st s) = Ret 0x01010101 (peek_st s)" for va by (simp add: vload32_def kbind_def vl g kret_def)
  have "argint 0 s = fetchint 0x01010105 (peek_st s)" using r by (simp add: argint_def curproc_then pget_def mload_def l m)
  also have "\<dots> = Ret (Some 0x01010101) (peek_st s)"
    using r z by (simp add: fetchint_def curproc_then pget_def kbind_Ret [of "vload32 va" for va] vw kret_def del: One_nat_def)
  finally have a: "argint 0 s = Ret (Some 0x01010101) (peek_st s)" .
  have k: "unat (sz (procs s ! 1)) \<le> 2 ^ 31" unfolding z by simp
  have "argptr 0 16 s = Ret (Some 0x01010101) (peek_st s)" "argptr 0 0x01000000 s = Ret None (peek_st s)"
    using argptr_exact [OF r a k, of 16] argptr_exact [OF r a k, of "0x01000000"] unfolding z by simp_all
  then show ?thesis by blast
qed

end
