(* ===== verification/Exec.thy ===== *)
theory Exec
  imports Syscall
begin

text \<open>
  \<^verbatim>\<open>exec.c\<close>, and \<open>loaduvm\<close> of \<^verbatim>\<open>vm.c\<close>: loading an ELF image and building the stack of the new program. The
  argument strings are given by their bytes.
\<close>

unbundle bit_operations_syntax

definition MAXARG :: nat where "MAXARG = 32"
definition ELF_MAGIC :: "32 word" where "ELF_MAGIC = 0x464C457F"
definition ELF_PROG_LOAD :: "32 word" where "ELF_PROG_LOAD = 1"

record elfhdr =
  e_magic :: "32 word"
  e_entry :: "32 word"
  e_phoff :: "32 word"
  e_phnum :: nat

definition get_elfhdr :: "byte list \<Rightarrow> elfhdr" where
  "get_elfhdr d = \<lparr>e_magic = get32 0 d, e_entry = get32 24 d, e_phoff = get32 28 d, e_phnum = unat (get16 44 d)\<rparr>"

record proghdr =
  ph_type :: "32 word"
  ph_off :: "32 word"
  ph_vaddr :: "32 word"
  ph_filesz :: "32 word"
  ph_memsz :: "32 word"

definition get_proghdr :: "byte list \<Rightarrow> proghdr" where
  "get_proghdr d = \<lparr>ph_type = get32 0 d, ph_off = get32 4 d, ph_vaddr = get32 8 d, ph_filesz = get32 16 d, ph_memsz = get32 20 d\<rparr>"

definition loaduvm1 :: "(int \<Rightarrow> 'z flst_scheme devsw option) \<Rightarrow> addr \<Rightarrow> addr \<Rightarrow> nat \<Rightarrow> addr \<Rightarrow> addr \<Rightarrow> addr \<Rightarrow> ('z flst_scheme, (addr + int) option) kop" where
  "loaduvm1 dv pd va ip offset n i =
     kbind (walkpgdir pd (va + i) False) (\<lambda>pte.
     if pte = 0 then kpanic ''loaduvm: address should exist''
     else
       kbind (mload pte) (\<lambda>e.
       let k = (if n - i < PGSIZE then n - i else PGSIZE)
       in kbind (readi dv ip (unat (offset + i)) (unat k)) (\<lambda>(r, xs).
          kseq (mmod (store_bytes (P2V (PTE_ADDR e)) xs))
            (kret (if r \<noteq> int (unat k) then Some (Inr (- 1)) else None)))))"

definition loaduvm :: "(int \<Rightarrow> 'z flst_scheme devsw option) \<Rightarrow> addr \<Rightarrow> addr \<Rightarrow> nat \<Rightarrow> addr \<Rightarrow> addr \<Rightarrow> ('z flst_scheme, int) kop" where
  "loaduvm dv pd va ip offset n =
     (if va mod PGSIZE \<noteq> 0 then kpanic ''loaduvm: addr must be page aligned''
      else page_loop (loaduvm1 dv pd va ip offset n) n 0 0)"

definition exec_bad :: "addr \<Rightarrow> nat option \<Rightarrow> ('z flst_scheme, int) kop" where
  "exec_bad pd ip =
     kseq (kwhen (pd \<noteq> 0) (freevm pd)) (
     kseq (case ip of None \<Rightarrow> kret () | Some i \<Rightarrow> kseq (iunlockput i) end_op)
       (kret (- 1)))"

text \<open>Loading the segments: the new size, or \<open>None\<close> where the code jumps to \<open>bad\<close>.\<close>

primrec exec_load :: "(int \<Rightarrow> 'z flst_scheme devsw option) \<Rightarrow> nat \<Rightarrow> addr \<Rightarrow> nat \<Rightarrow> addr \<Rightarrow> addr \<Rightarrow> ('z flst_scheme, addr option) kop" where
  "exec_load dv ip pd 0 off z = kret (Some z)"
| "exec_load dv ip pd (Suc n) off z =
     kbind (readi dv ip (unat off) 32) (\<lambda>(r, d).
     if r \<noteq> 32 then kret None
     else
       let ph = get_proghdr d
       in if ph_type ph \<noteq> ELF_PROG_LOAD then exec_load dv ip pd n (off + 32) z
          else if ph_memsz ph < ph_filesz ph then kret None
          else if ph_vaddr ph + ph_memsz ph < ph_vaddr ph then kret None
          else
            kbind (allocuvm pd z (ph_vaddr ph + ph_memsz ph)) (\<lambda>z.
            if z = 0 then kret None
            else if ph_vaddr ph mod PGSIZE \<noteq> 0 then kret None
            else
              kbind (loaduvm dv pd (ph_vaddr ph) ip (ph_off ph) (ph_filesz ph)) (\<lambda>r.
              if r < 0 then kret None
              else exec_load dv ip pd n (off + 32) z)))"

text \<open>Pushing the argument strings; \<open>us\<close> collects the addresses for \<open>ustack\<close>.\<close>

primrec exec_args :: "addr \<Rightarrow> byte list list \<Rightarrow> addr \<Rightarrow> addr list \<Rightarrow> ('z flst_scheme, (addr \<times> addr list) option) kop" where
  "exec_args pd [] sp us = kret (Some (sp, us))"
| "exec_args pd (a # as) sp us =
     (if length us \<ge> MAXARG then kret None
      else
        let sp' = (sp - of_nat (length a + 1)) AND NOT 3
        in kbind (copyout pd sp' (a @ [0])) (\<lambda>r.
           if r < 0 then kret None else exec_args pd as sp' (us @ [sp'])))"

definition ustack :: "addr \<Rightarrow> addr list \<Rightarrow> addr list" where
  "ustack sp us = [0xFFFFFFFF, of_nat (length us), sp - (of_nat (length us) + 1) * 4] @ us @ [0]"

definition last_elem :: "byte list \<Rightarrow> byte list" where
  "last_elem path = rev (takeWhile (\<lambda>c. c \<noteq> slash) (rev path))"

definition exec_stack :: "nat \<Rightarrow> elfhdr \<Rightarrow> addr \<Rightarrow> addr \<Rightarrow> byte list \<Rightarrow> byte list list \<Rightarrow> ('z flst_scheme, int) kop" where
  "exec_stack p elf pd z path argv =
     kbind (exec_args pd argv z []) (\<lambda>r.
     case r of None \<Rightarrow> exec_bad pd None | Some (sp, us) \<Rightarrow>
       let sp' = sp - (3 + of_nat (length us) + 1) * 4
       in kbind (copyout pd sp' (concat (map bytes32 (ustack sp us)))) (\<lambda>r.
          if r < 0 then exec_bad pd None
          else
            kseq (pset p (\<lambda>q. q\<lparr>name := namecpy (name q) (last_elem path) 16\<rparr>)) (
            kbind (pget p pgdir) (\<lambda>old.
            kseq (pset p (\<lambda>q. q\<lparr>pgdir := pd, sz := z\<rparr>)) (
            kbind (pget p tf) (\<lambda>t.
            kseq (mmod (store32 (t + tf_eip) (e_entry elf))) (
            kseq (mmod (store32 (t + tf_esp) sp')) (
            kseq (switchuvm (Some p)) (
            kseq (freevm old)
              (kret 0))))))))))"

definition exec :: "(int \<Rightarrow> 'z flst_scheme devsw option) \<Rightarrow> byte list \<Rightarrow> byte list list \<Rightarrow> ('z flst_scheme, int) kop" where
  "exec dv path argv =
     kbind curproc (\<lambda>p.
     kseq begin_op (
     kbind (namei dv path) (\<lambda>r.
     case r of None \<Rightarrow> kseq end_op (kret (- 1)) | Some ip \<Rightarrow>
     kseq (ilock (Some ip)) (
     kbind (readi dv ip 0 52) (\<lambda>(r, d).
     if r \<noteq> 52 then exec_bad 0 (Some ip)
     else
       let elf = get_elfhdr d
       in if e_magic elf \<noteq> ELF_MAGIC then exec_bad 0 (Some ip)
          else
            kbind setupkvm (\<lambda>pd.
            if pd = 0 then exec_bad 0 (Some ip)
            else
              kbind (exec_load dv ip pd (e_phnum elf) (e_phoff elf) 0) (\<lambda>z.
              case z of None \<Rightarrow> exec_bad pd (Some ip) | Some z \<Rightarrow>
              kseq (iunlockput ip) (
              kseq end_op (
              kbind (allocuvm pd (PGROUNDUP z) (PGROUNDUP z + 2 * PGSIZE)) (\<lambda>z.
              if z = 0 then exec_bad pd None
              else
                kseq (clearpteu pd (z - 2 * PGSIZE))
                  (exec_stack p elf pd z path argv)))))))))))"

end
