(* ===== verification/Sysfile.thy ===== *)
theory Sysfile
  imports Exec
begin

text \<open>
  \<^verbatim>\<open>sysfile.c\<close>: the system calls on files. Data moves between files and user memory in one piece: \<open>sys_read\<close>
  stores what \<open>fileread\<close> returned, \<open>sys_write\<close> loads the buffer and passes it to \<open>filewrite\<close>. The parts of
  a function that follow a label \<open>bad\<close> are definitions of their own.
\<close>

unbundle bit_operations_syntax

section \<open>Descriptors\<close>

definition argfd :: "nat \<Rightarrow> ('z pst_scheme, (nat \<times> nat) option) kop" where
  "argfd n =
     kbind (argint n) (\<lambda>r.
     case r of None \<Rightarrow> kret None | Some v \<Rightarrow>
       let fd = as_int v
       in if fd < 0 \<or> fd \<ge> int NOFILE then kret None
          else
            kbind curproc (\<lambda>p.
            kbind (pget p (\<lambda>q. ofile q ! nat fd)) (\<lambda>f.
            kret (map_option (\<lambda>f. (nat fd, f)) f))))"

definition fdalloc :: "nat \<Rightarrow> ('z pst_scheme, int) kop" where
  "fdalloc f =
     kbind curproc (\<lambda>p.
     kbind (pget p ofile) (\<lambda>fs.
     case first_index (\<lambda>g. g = None) fs of
       None \<Rightarrow> kret (- 1)
     | Some fd \<Rightarrow>
         kseq (pset p (\<lambda>q. q\<lparr>ofile := (ofile q)[fd := Some f]\<rparr>))
           (kret (int fd))))"

definition sys_dup :: "('z flst_scheme, int) kop" where
  "sys_dup =
     karg (argfd 0) (\<lambda>(_, f).
     kbind (fdalloc f) (\<lambda>fd.
     if fd < 0 then kret (- 1)
     else kseq (filedup f) (kret fd)))"

definition sys_read :: "(int \<Rightarrow> 'z flst_scheme devsw option) \<Rightarrow> ('z flst_scheme, int) kop" where
  "sys_read dv =
     karg (argfd 0) (\<lambda>(_, f).
     karg (argint 2) (\<lambda>n.
     karg (argptr 1 (as_int n)) (\<lambda>p.
     kbind (fileread dv f (as_int n)) (\<lambda>(r, xs).
     kseq (vstore p xs)
       (kret r)))))"

definition sys_write :: "(int \<Rightarrow> 'z flst_scheme devsw option) \<Rightarrow> ('z flst_scheme, int) kop" where
  "sys_write dv =
     karg (argfd 0) (\<lambda>(_, f).
     karg (argint 2) (\<lambda>n.
     karg (argptr 1 (as_int n)) (\<lambda>p.
     kbind (vload p (nat (as_int n))) (\<lambda>xs.
     filewrite dv f xs (as_int n)))))"

definition sys_close :: "('z flst_scheme, int) kop" where
  "sys_close =
     karg (argfd 0) (\<lambda>(fd, f).
     kbind curproc (\<lambda>p.
     kseq (pset p (\<lambda>q. q\<lparr>ofile := (ofile q)[fd := None]\<rparr>)) (
     kseq (fileclose f)
       (kret 0))))"

definition bytes16 :: "16 word \<Rightarrow> byte list" where
  "bytes16 v = [ucast v, ucast (drop_bit 8 v)]"

definition sys_fstat :: "('z flst_scheme, int) kop" where
  "sys_fstat =
     karg (argfd 0) (\<lambda>(_, f).
     karg (argptr 1 20) (\<lambda>p.
     kbind (filestat f) (\<lambda>r.
     case r of None \<Rightarrow> kret (- 1) | Some st \<Rightarrow>
       kseq (vstore (p + 4) (bytes32 (of_nat (st_dev st)))) (
       kseq (vstore (p + 8) (bytes32 (of_nat (st_ino st)))) (
       kseq (vstore p (bytes16 (of_int (st_type st)))) (
       kseq (vstore (p + 12) (bytes16 (of_int (st_nlink st)))) (
       kseq (vstore (p + 16) (bytes32 (of_nat (st_size st))))
         (kret 0))))))))"

section \<open>Links\<close>

definition inlink :: "nat \<Rightarrow> int \<Rightarrow> ('z fsst_scheme, unit) kop" where
  "inlink ip d = kmod (imod ip (\<lambda>i. i\<lparr>nlink := nlink i + d\<rparr>))"

definition sys_link_bad :: "nat \<Rightarrow> ('z fsst_scheme, int) kop" where
  "sys_link_bad ip =
     kseq (ilock (Some ip)) (
     kseq (inlink ip (- 1)) (
     kseq (iupdate ip) (
     kseq (iunlockput ip) (
     kseq end_op
       (kret (- 1))))))"

definition sys_link :: "(int \<Rightarrow> 'z fsst_scheme devsw option) \<Rightarrow> ('z fsst_scheme, int) kop" where
  "sys_link dv =
     karg (argstr 0) (\<lambda>old.
     karg (argstr 1) (\<lambda>new.
     kseq begin_op (
     kbind (namei dv old) (\<lambda>r.
     case r of None \<Rightarrow> kseq end_op (kret (- 1)) | Some ip \<Rightarrow>
     kseq (ilock (Some ip)) (
     kbind (kget (\<lambda>s. itype (inodes s ! ip))) (\<lambda>ty.
     if ty = T_DIR then kseq (iunlockput ip) (kseq end_op (kret (- 1)))
     else
       kseq (inlink ip 1) (
       kseq (iupdate ip) (
       kseq (iunlock (Some ip)) (
       kbind (nameiparent dv new (replicate DIRSIZ 0)) (\<lambda>(r, nm).
       case r of None \<Rightarrow> sys_link_bad ip | Some dp \<Rightarrow>
       kseq (ilock (Some dp)) (
       kbind (kget (\<lambda>s. (inodes s ! dp, inodes s ! ip))) (\<lambda>(d, i).
       kbind (if idev d \<noteq> idev i then kret (- 1) else dirlink dv dp nm (inum i)) (\<lambda>r.
       if r < 0 then kseq (iunlockput dp) (sys_link_bad ip)
       else
         kseq (iunlockput dp) (
         kseq (iput ip) (
         kseq end_op
           (kret 0))))))))))))))))"

primrec isdirempty_loop :: "(int \<Rightarrow> 'z fsst_scheme devsw option) \<Rightarrow> nat \<Rightarrow> nat list \<Rightarrow> ('z fsst_scheme, bool) kop" where
  "isdirempty_loop dv dp [] = kret True"
| "isdirempty_loop dv dp (off # offs) =
     kbind (readi dv dp off 16) (\<lambda>(r, de).
     if r \<noteq> 16 then kpanic ''isdirempty: readi''
     else if de_inum de \<noteq> 0 then kret False
     else isdirempty_loop dv dp offs)"

definition isdirempty :: "(int \<Rightarrow> 'z fsst_scheme devsw option) \<Rightarrow> nat \<Rightarrow> ('z fsst_scheme, bool) kop" where
  "isdirempty dv dp =
     kbind (kget (\<lambda>s. isize (inodes s ! dp))) (\<lambda>z.
     isdirempty_loop dv dp (drop 2 (dirent_offs z)))"

definition dot :: byte where "dot = 46"

definition sys_unlink_bad :: "nat \<Rightarrow> ('z fsst_scheme, int) kop" where
  "sys_unlink_bad dp =
     kseq (iunlockput dp) (
     kseq end_op
       (kret (- 1)))"

definition sys_unlink :: "(int \<Rightarrow> 'z fsst_scheme devsw option) \<Rightarrow> ('z fsst_scheme, int) kop" where
  "sys_unlink dv =
     karg (argstr 0) (\<lambda>path.
     kseq begin_op (
     kbind (nameiparent dv path (replicate DIRSIZ 0)) (\<lambda>(r, nm).
     case r of None \<Rightarrow> kseq end_op (kret (- 1)) | Some dp \<Rightarrow>
     kseq (ilock (Some dp)) (
     if namecmp nm [dot] = 0 \<or> namecmp nm [dot, dot] = 0 then sys_unlink_bad dp
     else
       kbind (dirlookup dv dp nm) (\<lambda>r.
       case r of None \<Rightarrow> sys_unlink_bad dp | Some (ip, off) \<Rightarrow>
       kseq (ilock (Some ip)) (
       kbind (kget (\<lambda>s. inodes s ! ip)) (\<lambda>i.
       if nlink i < 1 then kpanic ''unlink: nlink < 1''
       else
         kbind (if itype i = T_DIR then isdirempty dv ip else kret True) (\<lambda>ok.
         if \<not> ok then kseq (iunlockput ip) (sys_unlink_bad dp)
         else
           kbind (writei dv dp (replicate 16 0) off 16) (\<lambda>r.
           if r \<noteq> 16 then kpanic ''unlink: writei''
           else
             kbind (kget (\<lambda>s. itype (inodes s ! ip))) (\<lambda>ty.
             kseq (kwhen (ty = T_DIR) (kseq (inlink dp (- 1)) (iupdate dp))) (
             kseq (iunlockput dp) (
             kseq (inlink ip (- 1)) (
             kseq (iupdate ip) (
             kseq (iunlockput ip) (
             kseq end_op
               (kret 0))))))))))))))))"

section \<open>Creating and opening\<close>

definition create_fresh :: "(int \<Rightarrow> 'z fsst_scheme devsw option) \<Rightarrow> nat \<Rightarrow> byte list \<Rightarrow> int \<Rightarrow> int \<Rightarrow> int \<Rightarrow> ('z fsst_scheme, nat option) kop" where
  "create_fresh dv dp nm ty mj mn =
     kbind (kget (\<lambda>s. idev (inodes s ! dp))) (\<lambda>dev.
     kbind (ialloc dev ty) (\<lambda>ip.
     kseq (ilock (Some ip)) (
     kseq (kmod (imod ip (\<lambda>i. i\<lparr>major := mj, minor := mn, nlink := 1\<rparr>))) (
     kseq (iupdate ip) (
     kseq (kwhen (ty = T_DIR) (
       kseq (inlink dp 1) (
       kseq (iupdate dp) (
       kbind (kget (\<lambda>s. inum (inodes s ! ip))) (\<lambda>n.
       kbind (dirlink dv ip [dot] n) (\<lambda>r.
       kbind (if r < 0 then kret r
              else kbind (kget (\<lambda>s. inum (inodes s ! dp))) (\<lambda>m. dirlink dv ip [dot, dot] m)) (\<lambda>r.
       kwhen (r < 0) (kpanic ''create dots'')))))))) (
     kbind (kget (\<lambda>s. inum (inodes s ! ip))) (\<lambda>n.
     kbind (dirlink dv dp nm n) (\<lambda>r.
     if r < 0 then kpanic ''create: dirlink''
     else kseq (iunlockput dp) (kret (Some ip))))))))))"

definition create :: "(int \<Rightarrow> 'z fsst_scheme devsw option) \<Rightarrow> byte list \<Rightarrow> int \<Rightarrow> int \<Rightarrow> int \<Rightarrow> ('z fsst_scheme, nat option) kop" where
  "create dv path ty mj mn =
     kbind (nameiparent dv path (replicate DIRSIZ 0)) (\<lambda>(r, nm).
     case r of None \<Rightarrow> kret None | Some dp \<Rightarrow>
     kseq (ilock (Some dp)) (
     kbind (dirlookup dv dp nm) (\<lambda>r.
     case r of
       Some (ip, _) \<Rightarrow>
         kseq (iunlockput dp) (
         kseq (ilock (Some ip)) (
         kbind (kget (\<lambda>s. itype (inodes s ! ip))) (\<lambda>t.
         if ty = T_FILE \<and> t = T_FILE then kret (Some ip)
         else kseq (iunlockput ip) (kret None))))
     | None \<Rightarrow> create_fresh dv dp nm ty mj mn)))"

definition O_WRONLY :: "32 word" where "O_WRONLY = 0x001"
definition O_RDWR :: "32 word" where "O_RDWR = 0x002"
definition O_CREATE :: "32 word" where "O_CREATE = 0x200"

definition sys_open_file :: "nat \<Rightarrow> 32 word \<Rightarrow> ('z flst_scheme, int) kop" where
  "sys_open_file ip omode =
     kbind filealloc (\<lambda>f.
     case f of
       None \<Rightarrow> kseq (iunlockput ip) (kseq end_op (kret (- 1)))
     | Some f \<Rightarrow>
         kbind (fdalloc f) (\<lambda>fd.
         if fd < 0 then
           kseq (fileclose f) (
           kseq (iunlockput ip) (
           kseq end_op
             (kret (- 1))))
         else
           kseq (iunlock (Some ip)) (
           kseq end_op (
           kseq (kmod (fmod f (\<lambda>g. g\<lparr>ftype := FD_INODE, fip := Some ip, foff := 0,
                    readable := (omode AND O_WRONLY = 0),
                    writable := (omode AND O_WRONLY \<noteq> 0 \<or> omode AND O_RDWR \<noteq> 0)\<rparr>)))
             (kret fd)))))"

definition sys_open :: "(int \<Rightarrow> 'z flst_scheme devsw option) \<Rightarrow> ('z flst_scheme, int) kop" where
  "sys_open dv =
     karg (argstr 0) (\<lambda>path.
     karg (argint 1) (\<lambda>omode.
     kseq begin_op (
     if omode AND O_CREATE \<noteq> 0 then
       kbind (create dv path T_FILE 0 0) (\<lambda>r.
       case r of None \<Rightarrow> kseq end_op (kret (- 1)) | Some ip \<Rightarrow> sys_open_file ip omode)
     else
       kbind (namei dv path) (\<lambda>r.
       case r of None \<Rightarrow> kseq end_op (kret (- 1)) | Some ip \<Rightarrow>
       kseq (ilock (Some ip)) (
       kbind (kget (\<lambda>s. itype (inodes s ! ip))) (\<lambda>t.
       if t = T_DIR \<and> omode \<noteq> 0 then kseq (iunlockput ip) (kseq end_op (kret (- 1)))
       else sys_open_file ip omode))))))"

text \<open>\<open>sys_mkdir\<close>, \<open>sys_mknod\<close> and \<open>sys_chdir\<close> fetch their arguments inside the transaction.\<close>

definition made :: "nat option \<Rightarrow> ('z fsst_scheme, int) kop" where
  "made r =
     (case r of None \<Rightarrow> kseq end_op (kret (- 1)) | Some ip \<Rightarrow>
     kseq (iunlockput ip) (
     kseq end_op
       (kret 0)))"

definition sys_mkdir :: "(int \<Rightarrow> 'z fsst_scheme devsw option) \<Rightarrow> ('z fsst_scheme, int) kop" where
  "sys_mkdir dv =
     kseq begin_op (
     kbind (argstr 0) (\<lambda>r.
     case r of None \<Rightarrow> made None | Some path \<Rightarrow> kbind (create dv path T_DIR 0 0) made))"

definition sys_mknod :: "(int \<Rightarrow> 'z fsst_scheme devsw option) \<Rightarrow> ('z fsst_scheme, int) kop" where
  "sys_mknod dv =
     kseq begin_op (
     kbind (argstr 0) (\<lambda>r.
     case r of None \<Rightarrow> made None | Some path \<Rightarrow>
     kbind (argint 1) (\<lambda>r.
     case r of None \<Rightarrow> made None | Some mj \<Rightarrow>
     kbind (argint 2) (\<lambda>r.
     case r of None \<Rightarrow> made None | Some mn \<Rightarrow>
     kbind (create dv path T_DEV (sint (ucast mj :: 16 word)) (sint (ucast mn :: 16 word))) made))))"

definition sys_chdir :: "(int \<Rightarrow> 'z fsst_scheme devsw option) \<Rightarrow> ('z fsst_scheme, int) kop" where
  "sys_chdir dv =
     kbind curproc (\<lambda>p.
     kseq begin_op (
     kbind (argstr 0) (\<lambda>r.
     case r of None \<Rightarrow> made None | Some path \<Rightarrow>
     kbind (namei dv path) (\<lambda>r.
     case r of None \<Rightarrow> made None | Some ip \<Rightarrow>
     kseq (ilock (Some ip)) (
     kbind (kget (\<lambda>s. itype (inodes s ! ip))) (\<lambda>t.
     if t \<noteq> T_DIR then kseq (iunlockput ip) (kseq end_op (kret (- 1)))
     else
       kseq (iunlock (Some ip)) (
       kbind (pget p cwd) (\<lambda>c.
       kseq (kbind (kderef c) iput) (
       kseq end_op (
       kseq (pset p (\<lambda>q. q\<lparr>cwd := Some ip\<rparr>))
         (kret 0)))))))))))"

section \<open>The other calls\<close>

text \<open>The argument vector of \<open>exec\<close>: at most \<open>MAXARG\<close> strings before the null pointer.\<close>

primrec exec_argv :: "addr \<Rightarrow> nat \<Rightarrow> ('z pst_scheme, byte list list option) kop" where
  "exec_argv a 0 = kret None"
| "exec_argv a (Suc n) =
     kbind (fetchint a) (\<lambda>r.
     case r of None \<Rightarrow> kret None | Some u \<Rightarrow>
     if u = 0 then kret (Some [])
     else
       kbind (fetchstr u) (\<lambda>r.
       case r of None \<Rightarrow> kret None | Some str \<Rightarrow>
       kbind (exec_argv (a + 4) n) (\<lambda>r.
       kret (map_option (\<lambda>as. str # as) r))))"

definition sys_exec :: "(int \<Rightarrow> 'z flst_scheme devsw option) \<Rightarrow> ('z flst_scheme, int) kop" where
  "sys_exec dv =
     karg (argstr 0) (\<lambda>path.
     karg (argint 1) (\<lambda>uargv.
     karg (exec_argv uargv MAXARG) (\<lambda>argv.
     exec dv path argv)))"

definition sys_pipe :: "('z flst_scheme, int) kop" where
  "sys_pipe =
     karg (argptr 0 8) (\<lambda>a.
     karg pipealloc (\<lambda>(rf, wf).
     kbind (fdalloc rf) (\<lambda>fd0.
     kbind (if fd0 < 0 then kret (- 1) else fdalloc wf) (\<lambda>fd1.
     if fd1 < 0 then
       kseq (kwhen (fd0 \<ge> 0) (kbind curproc (\<lambda>p. pset p (\<lambda>q. q\<lparr>ofile := (ofile q)[nat fd0 := None]\<rparr>)))) (
       kseq (fileclose rf) (
       kseq (fileclose wf)
         (kret (- 1))))
     else
       kseq (vstore32 a (of_int fd0)) (
       kseq (vstore32 (a + 4) (of_int fd1))
         (kret 0))))))"

definition sys_sync :: "('z lst_scheme, int) kop" where
  "sys_sync = kseq sync (kret 0)"

end
