(* ===== verification/Console.thy ===== *)
theory Console
  imports Sysfile
begin

text \<open>
  \<^verbatim>\<open>console.c\<close> and \<^verbatim>\<open>kbd.c\<close> with the tables of \<^verbatim>\<open>kbd.h\<close>: formatted output, the CGA screen, the line editor
  of the input buffer and the keyboard decoder.

  The video memory is \<open>crt\<close>, the cursor position kept by the CRT controller \<open>crtpos\<close>, and \<open>uart_out\<close> is what
  went out on the serial port. The characters a call of \<open>getc\<close> delivers, until it returns a negative
  number, are the argument of \<open>consoleintr\<close>. The process listing of \<^verbatim>\<open>Control-P\<close> is left out.
\<close>

unbundle bit_operations_syntax

section \<open>State\<close>

definition INPUT_BUF :: nat where "INPUT_BUF = 128"
definition BACKSPACE :: int where "BACKSPACE = 0x100"

record cst = prst +
  panicked :: bool
  cons_locking :: bool
  uart_on :: bool
  uart_out :: "int list"
  crt :: "nat \<Rightarrow> 16 word"
  crtpos :: nat
  ibuf :: "byte list"
  ir :: "32 word"
  iw :: "32 word"
  ie :: "32 word"
  kshift :: "8 word"

section \<open>Output\<close>

text \<open>The digits \<open>printint\<close> puts into its buffer, least significant first.\<close>

definition digit_char :: "nat \<Rightarrow> int" where
  "digit_char d = (if d < 10 then 48 + int d else 87 + int d)"

function print_digits :: "nat \<Rightarrow> nat \<Rightarrow> int list" where
  "print_digits base x = digit_char (x mod base) #
     (if x div base = 0 \<or> base < 2 then [] else print_digits base (x div base))"
  by pat_completeness auto
termination
  by (relation "measure snd") (auto simp: div_greater_zero_iff intro!: div_less_dividend)

declare print_digits.simps [simp del]

definition printint :: "32 word \<Rightarrow> nat \<Rightarrow> bool \<Rightarrow> int list" where
  "printint xx base sg =
     (if sg \<and> sint xx < 0 then rev (print_digits base (unat (- xx)) @ [45])
      else rev (print_digits base (unat xx)))"

text \<open>
  The arguments of \<open>cprintf\<close> are words or strings; a null string pointer prints \<open>(null)\<close>. Too few
  arguments, or a word where a string is expected, are undefined behaviour.
\<close>

datatype carg = AInt "32 word" | AStr "byte list option"

definition str_out :: "byte list option \<Rightarrow> int list" where
  "str_out p = (case p of None \<Rightarrow> [40, 110, 117, 108, 108, 41] | Some cs \<Rightarrow> map (\<lambda>c. sint c) cs)"

fun cprintf_out :: "byte list \<Rightarrow> carg list \<Rightarrow> int list option" where
  "cprintf_out [] args = Some []"
| "cprintf_out (c # fmt) args =
     (if c \<noteq> 37 then map_option (\<lambda>xs. uint c # xs) (cprintf_out fmt args)
      else
        case fmt of
          [] \<Rightarrow> Some []
        | d # fmt' \<Rightarrow>
            if d = 100 then
              (case args of AInt v # as \<Rightarrow> map_option (\<lambda>xs. printint v 10 True @ xs) (cprintf_out fmt' as) | _ \<Rightarrow> None)
            else if d = 120 \<or> d = 112 then
              (case args of AInt v # as \<Rightarrow> map_option (\<lambda>xs. printint v 16 False @ xs) (cprintf_out fmt' as) | _ \<Rightarrow> None)
            else if d = 115 then
              (case args of AStr p # as \<Rightarrow> map_option (\<lambda>xs. str_out p @ xs) (cprintf_out fmt' as) | _ \<Rightarrow> None)
            else if d = 37 then map_option (\<lambda>xs. 37 # xs) (cprintf_out fmt' args)
            else map_option (\<lambda>xs. 37 # uint d # xs) (cprintf_out fmt' args))"

definition uartputc :: "int \<Rightarrow> ('z cst_scheme, unit) kop" where
  "uartputc c = kmod (\<lambda>s. if uart_on s then s\<lparr>uart_out := uart_out s @ [c]\<rparr> else s)"

text \<open>
  \<open>cga_move\<close> is the new cursor position before scrolling, \<open>cga_scroll\<close> moves lines 1 to 23 up and clears the
  rest from the new cursor position on.
\<close>

definition cga_move :: "int \<Rightarrow> nat \<Rightarrow> nat" where
  "cga_move c pos =
     (if c = 10 then pos + (80 - pos mod 80)
      else if c = BACKSPACE then (if pos > 0 then pos - 1 else pos)
      else pos + 1)"

definition cga_scroll :: "nat \<Rightarrow> (nat \<Rightarrow> 16 word) \<Rightarrow> nat \<Rightarrow> 16 word" where
  "cga_scroll pos m i =
     (if pos \<le> i \<and> i < 24 * 80 then 0 else if i < 23 * 80 then m (i + 80) else m i)"

definition cgaputc :: "int \<Rightarrow> ('z cst_scheme, unit) kop" where
  "cgaputc c =
     kbind (kget crtpos) (\<lambda>pos.
     kseq (kwhen (c \<noteq> 10 \<and> c \<noteq> BACKSPACE) (
       kmod (\<lambda>s. s\<lparr>crt := (crt s)(pos := of_int (c mod 256) OR 0x0700)\<rparr>))) (
     let pos1 = cga_move c pos
     in if pos1 > 25 * 80 then kpanic ''pos under/overflow''
        else
          kseq (kwhen (pos1 div 80 \<ge> 24) (kmod (\<lambda>s. s\<lparr>crt := cga_scroll (pos1 - 80) (crt s)\<rparr>))) (
          let pos2 = (if pos1 div 80 \<ge> 24 then pos1 - 80 else pos1)
          in kmod (\<lambda>s. s\<lparr>crtpos := pos2 mod 2 ^ 16, crt := (crt s)(pos2 := 0x0720)\<rparr>))))"

definition consputc :: "int \<Rightarrow> ('z cst_scheme, unit) kop" where
  "consputc c =
     kbind (kget panicked) (\<lambda>p.
     if p then kspin
     else
       kseq (if c = BACKSPACE then kseq (uartputc 8) (kseq (uartputc 32) (uartputc 8)) else uartputc c)
         (cgaputc c))"

definition cprintf :: "byte list option \<Rightarrow> carg list \<Rightarrow> ('z cst_scheme, unit) kop" where
  "cprintf fmt args =
     kbind (kget cons_locking) (\<lambda>l.
     kseq (kwhen l (acquire LCons)) (
     case fmt of None \<Rightarrow> kpanic ''null fmt'' | Some f \<Rightarrow>
     case cprintf_out f args of None \<Rightarrow> kpanic ''undefined behaviour'' | Some cs \<Rightarrow>
     kseq (kfor consputc cs)
       (kwhen l (release LCons))))"

section \<open>Input\<close>

definition imod_input :: "('z cst_scheme \<Rightarrow> 'z cst_scheme) \<Rightarrow> ('z cst_scheme, unit) kop" where
  "imod_input f = kmod f"

definition ibuf_at :: "32 word \<Rightarrow> 'z cst_scheme \<Rightarrow> byte" where
  "ibuf_at i s = ibuf s ! unat (i mod of_nat INPUT_BUF)"

text \<open>
  The loop of \<^verbatim>\<open>Control-U\<close> takes back characters until the start of the line; \<open>fuel\<close> is the number of
  characters between \<open>w\<close> and \<open>e\<close>, after which the loop stops because \<open>e == w\<close>.
\<close>

primrec kill_line :: "nat \<Rightarrow> ('z cst_scheme, unit) kop" where
  "kill_line 0 = kret ()"
| "kill_line (Suc n) =
     kbind (kget (\<lambda>s. ie s \<noteq> iw s \<and> ibuf_at (ie s - 1) s \<noteq> 10)) (\<lambda>b.
     kwhen b (
       kseq (imod_input (\<lambda>s. s\<lparr>ie := ie s - 1\<rparr>)) (
       kseq (consputc BACKSPACE)
         (kill_line n))))"

definition consoleintr1 :: "int \<Rightarrow> ('z cst_scheme, unit) kop" where
  "consoleintr1 c =
     (if c = 16 then kret ()
      else if c = 21 then kbind (kget (\<lambda>s. unat (ie s - iw s))) kill_line
      else if c = 8 \<or> c = 127 then
        kbind (kget (\<lambda>s. ie s \<noteq> iw s)) (\<lambda>b.
        kwhen b (
          kseq (imod_input (\<lambda>s. s\<lparr>ie := ie s - 1\<rparr>))
            (consputc BACKSPACE)))
      else
        kbind (kget (\<lambda>s. ie s - ir s < of_nat INPUT_BUF)) (\<lambda>room.
        kwhen (c \<noteq> 0 \<and> room) (
          let d = (if c = 13 then 10 else c)
          in kseq (imod_input (\<lambda>s. s\<lparr>ibuf := (ibuf s)[unat (ie s mod of_nat INPUT_BUF) := of_int d], ie := ie s + 1\<rparr>)) (
             kseq (consputc d) (
             kbind (kget (\<lambda>s. ie s = ir s + of_nat INPUT_BUF)) (\<lambda>full.
             kwhen (d = 10 \<or> d = 4 \<or> full) (
               kseq (imod_input (\<lambda>s. s\<lparr>iw := ie s\<rparr>))
                 (wakeup CInput))))))))"

definition consoleintr :: "int list \<Rightarrow> ('z cst_scheme, unit) kop" where
  "consoleintr cs =
     kseq (acquire LCons) (
     kseq (kfor consoleintr1 cs)
       (release LCons))"

text \<open>
  The loop of \<open>consoleread\<close>; \<open>xs\<close> is what has been copied. A reader that sleeps continues with what it has.
\<close>

fun consoleread_loop :: "nat \<Rightarrow> nat \<Rightarrow> byte list \<Rightarrow> ('z cst_scheme, int \<times> byte list) kop" where
  "consoleread_loop ip 0 xs =
     kseq (release LCons) (
     kseq (ilock (Some ip))
       (kret (int (length xs), xs)))"
| "consoleread_loop ip (Suc n) xs =
     kbind (kget (\<lambda>s. ir s = iw s)) (\<lambda>empty.
     if empty then
       kbind am_killed (\<lambda>k.
       if k then
         kseq (release LCons) (
         kseq (ilock (Some ip))
           (kret (- 1, xs)))
       else kseq (sleep CInput LCons) (kret (0, xs)))
     else
       kbind (kget (\<lambda>s. ibuf_at (ir s) s)) (\<lambda>c.
       kseq (imod_input (\<lambda>s. s\<lparr>ir := ir s + 1\<rparr>)) (
       if c = 4 then
         kseq (kwhen (xs \<noteq> []) (imod_input (\<lambda>s. s\<lparr>ir := ir s - 1\<rparr>)))
           (consoleread_loop ip 0 xs)
       else if c = 10 then consoleread_loop ip 0 (xs @ [c])
       else consoleread_loop ip n (xs @ [c]))))"

definition consoleread :: "nat \<Rightarrow> nat \<Rightarrow> ('z cst_scheme, int \<times> byte list) kop" where
  "consoleread ip n =
     kseq (iunlock (Some ip)) (
     kseq (acquire LCons)
       (consoleread_loop ip n []))"

definition consolewrite :: "nat \<Rightarrow> byte list \<Rightarrow> nat \<Rightarrow> ('z cst_scheme, int) kop" where
  "consolewrite ip src n =
     kseq (iunlock (Some ip)) (
     kseq (acquire LCons) (
     kseq (kfor (\<lambda>c. consputc (uint c)) (take n src)) (
     kseq (release LCons) (
     kseq (ilock (Some ip))
       (kret (int n))))))"

definition consoleinit :: "('z cst_scheme, unit) kop" where
  "consoleinit = kseq (initlock LCons) (kmod (\<lambda>s. s\<lparr>cons_locking := True\<rparr>))"

text \<open>The device switch as \<open>consoleinit\<close> fills it: device 1 is the console.\<close>

definition the_devsw :: "int \<Rightarrow> 'z cst_scheme devsw option" where
  "the_devsw m = (if m = 1 then Some \<lparr>dread = consoleread, dwrite = consolewrite\<rparr> else None)"

section \<open>The keyboard\<close>

definition key_table :: "nat list \<Rightarrow> (nat \<times> nat) list \<Rightarrow> nat \<Rightarrow> nat" where
  "key_table low high k = (if k < length low then low ! k else case map_of high k of Some c \<Rightarrow> c | None \<Rightarrow> 0)"

definition SHIFT :: "8 word" where "SHIFT = 1"
definition CTL :: "8 word" where "CTL = 2"
definition ALT :: "8 word" where "ALT = 4"
definition CAPSLOCK :: "8 word" where "CAPSLOCK = 8"
definition NUMLOCK :: "8 word" where "NUMLOCK = 16"
definition SCROLLLOCK :: "8 word" where "SCROLLLOCK = 32"
definition E0ESC :: "8 word" where "E0ESC = 64"

definition shiftcode :: "nat \<Rightarrow> 8 word" where
  "shiftcode k = (if k \<in> {0x1D, 0x9D} then CTL else if k \<in> {0x2A, 0x36} then SHIFT else if k \<in> {0x38, 0xB8} then ALT else 0)"

definition togglecode :: "nat \<Rightarrow> 8 word" where
  "togglecode k = (if k = 0x3A then CAPSLOCK else if k = 0x45 then NUMLOCK else if k = 0x46 then SCROLLLOCK else 0)"

definition normalmap :: "nat \<Rightarrow> nat" where
  "normalmap = key_table
    [0, 27, 49, 50, 51, 52, 53, 54, 55, 56, 57, 48, 45, 61, 8, 9,
     113, 119, 101, 114, 116, 121, 117, 105, 111, 112, 91, 93, 10, 0, 97, 115,
     100, 102, 103, 104, 106, 107, 108, 59, 39, 96, 0, 92, 122, 120, 99, 118,
     98, 110, 109, 44, 46, 47, 0, 42, 0, 32, 0, 0, 0, 0, 0, 0,
     0, 0, 0, 0, 0, 0, 0, 55, 56, 57, 45, 52, 53, 54, 43, 49,
     50, 51, 48, 46, 0, 0, 0, 0]
    [(151, 224), (156, 10), (181, 47), (200, 226), (201, 230), (203, 228), (205, 229), (207, 225), (208, 227), (209, 231), (210, 232), (211, 233)]"

definition shiftmap :: "nat \<Rightarrow> nat" where
  "shiftmap = key_table
    [0, 27, 33, 64, 35, 36, 37, 94, 38, 42, 40, 41, 95, 43, 8, 9,
     81, 87, 69, 82, 84, 89, 85, 73, 79, 80, 123, 125, 10, 0, 65, 83,
     68, 70, 71, 72, 74, 75, 76, 58, 34, 126, 0, 124, 90, 88, 67, 86,
     66, 78, 77, 60, 62, 63, 0, 42, 0, 32, 0, 0, 0, 0, 0, 0,
     0, 0, 0, 0, 0, 0, 0, 55, 56, 57, 45, 52, 53, 54, 43, 49,
     50, 51, 48, 46, 0, 0, 0, 0]
    [(151, 224), (156, 10), (181, 47), (200, 226), (201, 230), (203, 228), (205, 229), (207, 225), (208, 227), (209, 231), (210, 232), (211, 233)]"

definition ctlmap :: "nat \<Rightarrow> nat" where
  "ctlmap = key_table
    [0, 0, 0, 0, 0, 0, 0, 0, 0, 0, 0, 0, 0, 0, 0, 0,
     17, 23, 5, 18, 20, 25, 21, 9, 15, 16, 0, 0, 13, 0, 1, 19,
     4, 6, 7, 8, 10, 11, 12, 0, 0, 0, 0, 28, 26, 24, 3, 22,
     2, 14, 13, 0, 0, 239, 0, 0]
    [(151, 224), (156, 13), (181, 239), (200, 226), (201, 230), (203, 228), (205, 229), (207, 225), (208, 227), (209, 231), (210, 232), (211, 233)]"

definition charcode :: "8 word \<Rightarrow> nat \<Rightarrow> nat" where
  "charcode sh = (if sh = 0 then normalmap else if sh = 1 then shiftmap else ctlmap)"

text \<open>\<open>kbdgetc\<close> on the scan code read from the data port: the character and the new modifier state.\<close>

definition kbdgetc :: "8 word \<Rightarrow> 8 word \<Rightarrow> nat \<times> 8 word" where
  "kbdgetc code sh =
     (if code = 0xE0 then (0, sh OR E0ESC)
      else if code AND 0x80 \<noteq> 0 then
        let d = (if sh AND E0ESC \<noteq> 0 then code else code AND 0x7F)
        in (0, sh AND NOT (shiftcode (unat d) OR E0ESC))
      else
        let d = (if sh AND E0ESC \<noteq> 0 then code OR 0x80 else code);
            sh1 = (if sh AND E0ESC \<noteq> 0 then sh AND NOT E0ESC else sh);
            sh2 = (sh1 OR shiftcode (unat d)) XOR togglecode (unat d);
            c = charcode (sh2 AND (CTL OR SHIFT)) (unat d)
        in (if sh2 AND CAPSLOCK \<noteq> 0 then
              (if 97 \<le> c \<and> c \<le> 122 then c - 32 else if 65 \<le> c \<and> c \<le> 90 then c + 32 else c)
            else c, sh2))"

primrec kbd_chars :: "8 word list \<Rightarrow> 8 word \<Rightarrow> int list \<times> 8 word" where
  "kbd_chars [] sh = ([], sh)"
| "kbd_chars (k # ks) sh = (let (c, sh1) = kbdgetc k sh; (cs, sh2) = kbd_chars ks sh1 in (int c # cs, sh2))"

definition kbdintr :: "8 word list \<Rightarrow> ('z cst_scheme, unit) kop" where
  "kbdintr codes =
     kbind (kget (\<lambda>s. kbd_chars codes (kshift s))) (\<lambda>(cs, sh).
     kseq (kmod (\<lambda>s. s\<lparr>kshift := sh\<rparr>))
       (consoleintr cs))"

section \<open>Numbers\<close>

text \<open>Reading a printed number back, as \<open>atoi\<close> would with the given base.\<close>

definition digit_val :: "int \<Rightarrow> nat" where
  "digit_val c = nat (if c < 58 then c - 48 else c - 87)"

definition read_digits :: "nat \<Rightarrow> int list \<Rightarrow> nat" where
  "read_digits base cs = foldl (\<lambda>n c. n * base + digit_val c) 0 cs"

definition read_number :: "nat \<Rightarrow> int list \<Rightarrow> int" where
  "read_number base cs = (if cs \<noteq> [] \<and> hd cs = 45 then - int (read_digits base (tl cs)) else int (read_digits base cs))"

lemma digit_val_char: "d < 16 \<Longrightarrow> digit_val (digit_char d) = d"
  by (auto simp: digit_val_def digit_char_def)

lemma digit_char_not_minus: "digit_char d \<noteq> 45"
  by (simp add: digit_char_def)

lemma read_digits_snoc: "read_digits base (cs @ [c]) = read_digits base cs * base + digit_val c"
  by (simp add: read_digits_def)

lemma read_print_digits:
  assumes "2 \<le> base" and "base \<le> 16"
  shows "read_digits base (rev (print_digits base x)) = x"
proof (induction x rule: less_induct)
  case (less x)
  have "x mod base < base" using assms by simp
  then have m: "x mod base < 16" using assms(2) by (rule less_le_trans)
  show ?case
  proof (cases "x div base = 0")
    case True
    then have "x < base" using assms by (simp add: div_eq_0_iff)
    then show ?thesis using m assms by (simp add: print_digits.simps [of base x] read_digits_def digit_val_char)
  next
    case False
    then have "x div base < x" using assms by (simp add: div_greater_zero_iff)
    then have "read_digits base (rev (print_digits base (x div base))) = x div base" by (rule less)
    then show ?thesis using False m assms
      by (simp add: print_digits.simps [of base x] read_digits_snoc digit_val_char)
  qed
qed

lemma hd_print_digits: "hd (rev (print_digits base x)) \<noteq> 45"
proof -
  have "\<forall>c \<in> set (print_digits base x). c \<noteq> 45"
    by (induction base x rule: print_digits.induct) (subst print_digits.simps, auto simp: digit_char_not_minus)
  moreover have "print_digits base x \<noteq> []" by (simp add: print_digits.simps [of base x])
  ultimately show ?thesis by (metis hd_in_set rev_is_Nil_conv set_rev)
qed

lemma length_print_digits: "x < base ^ n \<Longrightarrow> 2 \<le> base \<Longrightarrow> 0 < n \<Longrightarrow> length (print_digits base x) \<le> n"
proof (induction n arbitrary: x)
  case 0
  then show ?case by simp
next
  case (Suc n)
  show ?case
  proof (cases "x div base = 0")
    case True
    then show ?thesis by (simp add: print_digits.simps [of base x])
  next
    case False
    then have n: "0 < n" using Suc.prems by (cases n) auto
    have "x div base < base ^ n" using Suc.prems by (simp add: less_mult_imp_div_less mult.commute)
    then show ?thesis using Suc.IH [OF _ Suc.prems(2) n] by (simp add: print_digits.simps [of base x])
  qed
qed

text \<open>C30: Numbers are printed faithfully. For base 10 and base 16, reading back what \<open>printint\<close> prints gives
  the number: the signed value in signed mode, including the most negative one, and the unsigned
  value otherwise; and the digits with the sign fit into the 16 bytes of its buffer.\<close>

theorem printint_roundtrip:
  assumes "base = 10 \<or> base = 16"
  shows "read_number base (printint xx base sg) = (if sg then sint xx else int (unat xx)) \<and>
    length (printint xx base sg) \<le> 16"
proof -
  have b: "2 \<le> base" "base \<le> 16" using assms by auto
  have u: "unat w < 2 ^ 32" for w :: "32 word" using unsigned_less [of w] by simp
  have "(2 :: nat) ^ 32 \<le> base ^ 15" using assms by auto
  with u have w: "unat (w :: 32 word) < base ^ 15" for w by (rule less_le_trans)
  have l: "length (print_digits base (unat (w :: 32 word))) \<le> 15" for w
    by (rule length_print_digits [OF w]) (use b in simp_all)
  show ?thesis
  proof (cases "sg \<and> sint xx < 0")
    case True
    have "unat (- xx) = nat (- sint xx)"
    proof -
      have "xx \<noteq> 0" using True by auto
      then show ?thesis using True by (auto simp: unat_eq_nat_uint uint_neg32 sint32 split: if_splits)
    qed
    then show ?thesis
      using True l [of "- xx"] read_print_digits [OF b, of "unat (- xx)"] by (simp add: printint_def read_number_def)
  next
    case False
    have "sg \<Longrightarrow> sint xx = int (unat xx)" using False unsigned_less [of xx] by (auto simp: sint32 split: if_splits)
    then show ?thesis
      using False l [of xx] read_print_digits [OF b, of "unat xx"] hd_print_digits [of base "unat xx"]
      by (auto simp: printint_def read_number_def)
  qed
qed

theorem printint_roundtrip_witness:
  "read_number 10 (printint (- (2 ^ 31)) 10 True) = - (2 ^ 31) \<and> length (printint (- (2 ^ 31)) 10 True) \<le> 16"
  using printint_roundtrip [of 10 "- (2 ^ 31)" True] by simp

end
