(* ===== verification/Trap.thy ===== *)
theory Trap
  imports Console
begin

text \<open>
  \<open>syscall\<close> of \<^verbatim>\<open>syscall.c\<close> with its table, \<^verbatim>\<open>prac_syscall.c\<close>, and \<open>trap\<close> of \<^verbatim>\<open>trap.c\<close>. The disk is the memory disk,
  whose interrupt handler does nothing; acknowledging an interrupt at the local APIC changes no state
  of the model. The scan codes and serial characters that wait at an interrupt are arguments.
\<close>

unbundle bit_operations_syntax

section \<open>System calls\<close>

definition my_syscall :: "byte list \<Rightarrow> ('z cst_scheme, int) kop" where
  "my_syscall str = kseq (cprintf (Some [37, 115, 10]) [AStr (Some str)]) (kret (as_int 0xABCDABCD))"

definition sys_my_syscall :: "('z cst_scheme, int) kop" where
  "sys_my_syscall = karg (argstr 0) my_syscall"

definition syscalls :: "int \<Rightarrow> ('z cst_scheme, int) kop option" where
  "syscalls n = map_of
     [(1, sys_fork), (2, sys_exit), (3, sys_wait), (4, sys_pipe), (5, sys_read the_devsw), (6, sys_kill),
      (7, sys_exec the_devsw), (8, sys_fstat), (9, sys_chdir the_devsw), (10, sys_dup), (11, sys_getpid),
      (12, sys_sbrk), (13, sys_sleep), (14, sys_uptime), (15, sys_open the_devsw), (16, sys_write the_devsw),
      (17, sys_mknod the_devsw), (18, sys_unlink the_devsw), (19, sys_link the_devsw), (20, sys_mkdir the_devsw),
      (21, sys_close), (22, sys_my_syscall), (23, sys_getppid), (24, sys_yield), (25, sys_getlev),
      (26, sys_cpu_share), (27, sys_run_MLFQ), (28, sys_thread_create), (29, sys_thread_exit),
      (30, sys_thread_join), (31, sys_sync)] n"

definition unknown_call :: "byte list" where
  "unknown_call = [37, 100, 32, 37, 115, 58, 32, 117, 110, 107, 110, 111, 119, 110, 32, 115, 121, 115, 32,
     99, 97, 108, 108, 32, 37, 100, 10]"

definition set_eax :: "nat \<Rightarrow> int \<Rightarrow> ('z pst_scheme, unit) kop" where
  "set_eax p r = kbind (pget p tf) (\<lambda>t. mmod (store32 (t + tf_eax) (of_int r)))"

definition syscall :: "('z cst_scheme, unit) kop" where
  "syscall =
     kbind curproc (\<lambda>p.
     kbind (pget p tf) (\<lambda>t.
     kbind (mload (t + tf_eax)) (\<lambda>num.
     case syscalls (as_int num) of
       Some f \<Rightarrow> kbind f (set_eax p)
     | None \<Rightarrow>
         kbind (pget p (\<lambda>q. q)) (\<lambda>q.
         kseq (cprintf (Some unknown_call) [AInt (of_int (pid q)), AStr (Some (takeWhile (\<lambda>c. c \<noteq> 0) (name q))), AInt num])
           (set_eax p (- 1))))))"

section \<open>Traps\<close>

definition tvinit :: "('z cst_scheme, unit) kop" where
  "tvinit = initlock LTicks"

definition when_killed :: "addr \<Rightarrow> ('z cst_scheme, unit) kop \<Rightarrow> ('z cst_scheme, unit) kop" where
  "when_killed cs f =
     kbind myproc (\<lambda>mp.
     case mp of None \<Rightarrow> kret () | Some p \<Rightarrow>
     kbind (pget p killed) (\<lambda>k.
     kwhen (k \<and> cs AND 3 = 3) f))"

definition timer_tick :: "('z prst_scheme, unit) kop" where
  "timer_tick =
     kbind cpuid (\<lambda>c.
     kwhen (c = 0) (
       kseq (acquire LTicks) (
       kseq (kmod (\<lambda>s. s\<lparr>ticks := ticks s + 1\<rparr>)) (
       kseq (wakeup CTicks)
         (release LTicks)))))"

text \<open>
  The interrupt part of \<open>trap\<close>, by trap number: timer, IDE, spurious IDE, keyboard, serial port, spurious;
  anything else is a fault, for which a user process is killed.
\<close>

definition trap_irq :: "nat \<Rightarrow> addr \<Rightarrow> 8 word list \<Rightarrow> int list \<Rightarrow> ('z cst_scheme, unit) kop" where
  "trap_irq n cs codes chars =
     (if n = 32 then timer_tick
      else if n = 46 \<or> n = 47 then kret ()
      else if n = 33 then kbdintr codes
      else if n = 36 then consoleintr chars
      else if n = 39 \<or> n = 63 then kret ()
      else
        kbind myproc (\<lambda>mp.
        case mp of None \<Rightarrow> kpanic ''trap'' | Some p \<Rightarrow>
        if cs AND 3 = 0 then kpanic ''trap''
        else pset p (\<lambda>q. q\<lparr>killed := True\<rparr>)))"

definition trap_yield :: "nat \<Rightarrow> ('z pst_scheme, unit) kop" where
  "trap_yield n =
     kbind myproc (\<lambda>mp.
     case mp of None \<Rightarrow> kret () | Some p \<Rightarrow>
     kbind (pget p state) (\<lambda>st.
     kwhen (st = RUNNING \<and> n = 32) yield))"

definition trap :: "addr \<Rightarrow> 8 word list \<Rightarrow> int list \<Rightarrow> ('z cst_scheme, unit) kop" where
  "trap t codes chars =
     kbind (mload (t + 48)) (\<lambda>trapno.
     kbind (mload (t + 60)) (\<lambda>cs.
     if trapno = 64 then
       kbind curproc (\<lambda>p.
       kbind (pget p killed) (\<lambda>k.
       kseq (kwhen k exit) (
       kseq (pset p (\<lambda>q. q\<lparr>tf := t\<rparr>)) (
       kseq syscall (
       kbind (pget p killed) (\<lambda>k.
       kwhen k exit))))))
     else
       kseq (trap_irq (unat trapno) cs codes chars) (
       kseq (when_killed cs exit) (
       kseq (trap_yield (unat trapno))
         (when_killed cs exit)))))"

end
