(* ===== verification/Ulib.thy ===== *)
theory Ulib
  imports Mem Words
begin

text \<open>
  The library user programs are linked with: \<^verbatim>\<open>src/xv6-public/ulib.c\<close> and \<^verbatim>\<open>src/xv6-public/printf.c\<close>. Pointers into memory are
  addresses or, for routines that only read, the sequences of bytes found there; where a string is only passed around it is the list of its bytes without
  the terminating zero. \<open>stat\<close> only passes system calls on.
\<close>

section \<open>The user library\<close>

text \<open>
  \<^verbatim>\<open>ulib.c\<close>: \<open>strcpy\<close> and \<open>strcmp\<close> run until a zero byte, so they may not end; \<open>memmove\<close> always copies upwards, unlike the kernel's. \<open>gets\<close>
  gets the characters that successive reads of one byte return; the list ends where a read fails. Signed overflow in \<open>atoi\<close> wraps around.
\<close>

partial_function (option) strcpy :: "addr \<Rightarrow> addr \<Rightarrow> memory \<Rightarrow> memory option" where
  "strcpy s t m = (let m' = m(s := m t) in if m t \<noteq> 0 then strcpy (s + 1) (t + 1) m' else Some m')"

partial_function (option) strcmp_from :: "cstr \<Rightarrow> cstr \<Rightarrow> nat \<Rightarrow> int option" where
  "strcmp_from p q i = (if p i \<noteq> 0 \<and> p i = q i then strcmp_from p q (Suc i) else Some (uint (p i) - uint (q i)))"

definition strcmp :: "cstr \<Rightarrow> cstr \<Rightarrow> int option" where
  "strcmp p q = strcmp_from p q 0"

definition memmove_user :: "addr \<Rightarrow> addr \<Rightarrow> int \<Rightarrow> memory \<Rightarrow> memory" where
  "memmove_user d s n m = copy_up d s (nat n) m"

primrec gets_loop :: "nat \<Rightarrow> byte list \<Rightarrow> byte list \<times> byte list" where
  "gets_loop 0 inp = ([], inp)"
| "gets_loop (Suc k) inp =
     (case inp of
        [] \<Rightarrow> ([], [])
      | c # cs \<Rightarrow> if c = 10 \<or> c = 13 then ([c], cs) else case gets_loop k cs of (xs, r) \<Rightarrow> (c # xs, r))"

definition gets :: "int \<Rightarrow> byte list \<Rightarrow> byte list \<times> byte list" where
  "gets mx inp = (case gets_loop (nat (mx - 1)) inp of (xs, r) \<Rightarrow> (xs @ [0], r))"

definition is_digit :: "byte \<Rightarrow> bool" where
  "is_digit c \<longleftrightarrow> 48 \<le> c \<and> c \<le> 57"

primrec atoi_from :: "32 word \<Rightarrow> byte list \<Rightarrow> 32 word" where
  "atoi_from n [] = n"
| "atoi_from n (c # cs) = (if is_digit c then atoi_from (n * 10 + ucast c - 48) cs else n)"

definition atoi :: "byte list \<Rightarrow> 32 word" where
  "atoi s = atoi_from 0 s"

lemma gets_bounded: "0 < mx \<Longrightarrow> length (fst (gets mx inp)) \<le> nat mx"
proof -
  have "length (fst (gets_loop k inp)) \<le> k" for k by (induction k arbitrary: inp) (auto simp: case_prod_beta split: list.splits)
  then show "0 < mx \<Longrightarrow> ?thesis" using le_diff_conv by (simp add: gets_def case_prod_beta) (metis Suc_nat_eq_nat_zadd1 diff_ge_0_iff_ge int_one_le_iff_zero_less add.commute diff_add_cancel not_less_eq_eq)
qed

lemma strcmp_equal: "p k = 0 \<Longrightarrow> (\<And>i. i \<le> k \<Longrightarrow> p i = q i) \<Longrightarrow> (\<And>i. i < k \<Longrightarrow> p i \<noteq> 0) \<Longrightarrow> strcmp p q = Some 0"
proof -
  assume a: "p k = 0" "\<And>i. i \<le> k \<Longrightarrow> p i = q i" "\<And>i. i < k \<Longrightarrow> p i \<noteq> 0"
  have "strcmp_from p q (k - d) = Some 0" for d
  proof (induction d)
    case 0
    then show ?case using a(1,2) by (subst strcmp_from.simps) simp
  next
    case (Suc d)
    show ?case
    proof (cases "d < k")
      case True
      then have "Suc (k - Suc d) = k - d" by simp
      then show ?thesis using Suc a(2) [of "k - Suc d"] a(3) [of "k - Suc d"] True by (subst strcmp_from.simps) simp
    next
      case False
      then show ?thesis using Suc by simp
    qed
  qed
  from this [of k] show ?thesis by (simp add: strcmp_def)
qed

text \<open>\<open>strchr\<close> on the bytes of a buffer: the search stops at a zero byte. The result is what is before the character and what is after.\<close>

primrec strchr :: "byte \<Rightarrow> byte list \<Rightarrow> (byte list \<times> byte list) option" where
  "strchr c [] = None"
| "strchr c (x # xs) =
     (if x = 0 then None else if x = c then Some ([], xs)
      else map_option (\<lambda>(l, r). (x # l, r)) (strchr c xs))"

lemma strchr_shorter: "strchr c xs = Some (l, r) \<Longrightarrow> length r < length xs"
  by (induction xs arbitrary: l) (fastforce split: if_splits)+

section \<open>Formatted output: \<open>printf\<close>\<close>

text \<open>What is printed, as the bytes written one by one; \<open>None\<close> where the arguments do not fit the format, which is undefined behaviour.\<close>

datatype parg = PInt "32 word" | PStr "byte list option"

definition udigit :: "nat \<Rightarrow> byte" where
  "udigit d = (if d < 10 then of_nat (48 + d) else of_nat (55 + d))"

function udigits :: "nat \<Rightarrow> nat \<Rightarrow> byte list" where
  "udigits base x = udigit (x mod base) # (if x div base = 0 \<or> base < 2 then [] else udigits base (x div base))"
  by pat_completeness auto
termination
  by (relation "measure snd") (auto simp: div_greater_zero_iff intro!: div_less_dividend)

declare udigits.simps [simp del]

definition uprintint :: "32 word \<Rightarrow> nat \<Rightarrow> bool \<Rightarrow> byte list" where
  "uprintint xx base sg =
     (if sg \<and> sint xx < 0 then rev (udigits base (unat (- xx)) @ [45])
      else rev (udigits base (unat xx)))"

fun printf :: "byte list \<Rightarrow> parg list \<Rightarrow> byte list option" where
  "printf [] ap = Some []"
| "printf (c # fmt) ap =
     (if c \<noteq> 37 then map_option (\<lambda>xs. c # xs) (printf fmt ap)
      else
        case fmt of
          [] \<Rightarrow> Some []
        | d # fmt' \<Rightarrow>
            if d = 100 then
              (case ap of PInt v # as \<Rightarrow> map_option (\<lambda>xs. uprintint v 10 True @ xs) (printf fmt' as) | _ \<Rightarrow> None)
            else if d = 120 \<or> d = 112 then
              (case ap of PInt v # as \<Rightarrow> map_option (\<lambda>xs. uprintint v 16 False @ xs) (printf fmt' as) | _ \<Rightarrow> None)
            else if d = 115 then
              (case ap of PStr p # as \<Rightarrow>
                 map_option (\<lambda>xs. (case p of None \<Rightarrow> [40, 110, 117, 108, 108, 41] | Some s \<Rightarrow> s) @ xs) (printf fmt' as)
               | _ \<Rightarrow> None)
            else if d = 99 then
              (case ap of PInt v # as \<Rightarrow> map_option (\<lambda>xs. ucast v # xs) (printf fmt' as) | _ \<Rightarrow> None)
            else if d = 37 then map_option (\<lambda>xs. 37 # xs) (printf fmt' ap)
            else map_option (\<lambda>xs. 37 # d # xs) (printf fmt' ap))"

lemma atoi_from_snoc: "list_all is_digit cs \<Longrightarrow> is_digit c \<Longrightarrow> atoi_from n (cs @ [c]) = atoi_from n cs * 10 + ucast c - 48"
  by (induction cs arbitrary: n) auto

lemma udigit_digit:
  assumes "d < 10"
  shows "is_digit (udigit d)" and "ucast (udigit d) = (of_nat (48 + d) :: 32 word)"
proof -
  have u: "unat (udigit d) = 48 + d" using assms by (simp add: udigit_def unat_of_nat del: of_nat_add)
  then show "is_digit (udigit d)" using assms by (simp add: is_digit_def word_le_nat_alt)
  have "unat (ucast (udigit d) :: 32 word) = 48 + d" using u assms by (simp add: unsigned_ucast_eq take_bit_eq_mod)
  then show "ucast (udigit d) = (of_nat (48 + d) :: 32 word)" using assms by (simp add: word_unat_eq_iff unat_of_nat del: of_nat_add)
qed

lemma atoi_udigits: "list_all is_digit (udigits 10 x) \<and> atoi_from 0 (rev (udigits 10 x)) = of_nat x"
proof (induction x rule: less_induct)
  case (less x)
  have m: "x mod 10 < 10" by simp
  note d = udigit_digit [OF m]
  show ?case
  proof (cases "x div 10 = 0")
    case True
    then have "x mod 10 = x" by simp
    then show ?thesis using True d by (simp add: udigits.simps [of 10 x])
  next
    case False
    then have "x div 10 < x" by simp
    from less [OF this] have IH: "list_all is_digit (udigits 10 (x div 10))" "atoi_from 0 (rev (udigits 10 (x div 10))) = of_nat (x div 10)" by simp_all
    have "atoi_from 0 (rev (udigits 10 x)) = of_nat (x div 10) * 10 + of_nat (48 + x mod 10) - 48"
      using False IH d by (simp add: udigits.simps [of 10 x] atoi_from_snoc)
    also have "\<dots> = of_nat (x div 10) * 10 + of_nat (x mod 10)" by simp
    also have "\<dots> = of_nat (x div 10 * 10 + x mod 10)" by (simp only: of_nat_add of_nat_mult of_nat_numeral)
    also have "\<dots> = of_nat x" by (simp only: div_mult_mod_eq)
    finally show ?thesis using False IH(1) d(1) by (simp add: udigits.simps [of 10 x])
  qed
qed



end
