(* ===== verification/Usertools.thy ===== *)
theory Usertools
  imports Ulib
begin

text \<open>
  The programs \<^verbatim>\<open>src/xv6-public/grep.c\<close>, \<^verbatim>\<open>src/xv6-public/wc.c\<close> and \<^verbatim>\<open>src/xv6-public/cat.c\<close> without their \<open>main\<close>, which opens the files. The loop
  over the input is a function of what the successive calls of \<open>read\<close> return.
\<close>

section \<open>Searching: \<open>grep\<close>\<close>

text \<open>
  Strings are lists of bytes without the terminating zero, so \<open>re[0] == '\0'\<close> is \<open>re = []\<close>. A loop that reads ends when
  \<open>read\<close> returns no bytes; the results of the successive calls are the list \<open>rs\<close>.
\<close>

fun matchhere :: "byte list \<Rightarrow> byte list \<Rightarrow> bool"
and matchstar :: "byte \<Rightarrow> byte list \<Rightarrow> byte list \<Rightarrow> bool" where
  "matchhere re tx =
     (case re of
        [] \<Rightarrow> True
      | c # re1 \<Rightarrow>
          (case re1 of
             d # re2 \<Rightarrow> if d = 42 then matchstar c re2 tx
               else (case tx of [] \<Rightarrow> False | t # ts \<Rightarrow> if c = 46 \<or> c = t then matchhere re1 ts else False)
           | [] \<Rightarrow> if c = 36 then tx = []
               else (case tx of [] \<Rightarrow> False | t # ts \<Rightarrow> if c = 46 \<or> c = t then matchhere re1 ts else False)))"
| "matchstar c re tx =
     (if matchhere re tx then True
      else (case tx of [] \<Rightarrow> False | t # ts \<Rightarrow> if t = c \<or> c = 46 then matchstar c re ts else False))"

declare matchhere.simps [simp del] matchstar.simps [simp del]


text \<open>
  The \<open>do\<close> loop of \<open>match\<close> tries every suffix of the tx, the empty one last.
\<close>

primrec match_loop :: "byte list \<Rightarrow> byte list \<Rightarrow> bool" where
  "match_loop re [] = matchhere re []"
| "match_loop re (t # ts) = (if matchhere re (t # ts) then True else match_loop re ts)"

definition match :: "byte list \<Rightarrow> byte list \<Rightarrow> bool" where
  "match re tx = (if re \<noteq> [] \<and> hd re = 94 then matchhere (tl re) tx else match_loop re tx)"

text \<open>The inner loop of \<open>grep\<close>: the lines it prints, and what is left after the last newline.\<close>

function grep_lines :: "byte list \<Rightarrow> byte list \<Rightarrow> byte list list \<times> byte list" where
  "grep_lines pat p =
     (case strchr 10 p of
        None \<Rightarrow> ([], p)
      | Some (l, r) \<Rightarrow>
          let (out, rest) = grep_lines pat r
          in ((if match pat l then [l @ [10]] else []) @ out, rest))"
  by pat_completeness auto
termination
  by (relation "measure (\<lambda>(pat, p). length p)") (auto dest: strchr_shorter)

declare grep_lines.simps [simp del]

text \<open>
  The outer loop: \<open>b\<close> is the part of the buffer in use (\<open>m\<close> bytes). When the buffer has no newline, \<open>p == buf\<close> and
  the loop drops what it holds.
\<close>

primrec grep :: "byte list \<Rightarrow> byte list \<Rightarrow> byte list list \<Rightarrow> byte list list" where
  "grep pat b [] = []"
| "grep pat b (c # rs) =
     (if c = [] then []
      else
        let (out, rest) = grep_lines pat (b @ c)
        in out @ grep pat (if length rest = length (b @ c) then [] else rest) rs)"

section \<open>What a pattern means\<close>

text \<open>A pattern is a sequence of items, one character or any number of repetitions of one, and possibly ends at the end of the line.\<close>

datatype item = One byte | Many byte

fun pat_items :: "byte list \<Rightarrow> item list \<times> bool" where
  "pat_items [] = ([], False)"
| "pat_items [c] = (if c = 36 then ([], True) else ([One c], False))"
| "pat_items (c # d # re) =
     (if d = 42 then (case pat_items re of (is, e) \<Rightarrow> (Many c # is, e))
      else (case pat_items (d # re) of (is, e) \<Rightarrow> (One c # is, e)))"

primrec item_lang :: "item \<Rightarrow> byte list set" where
  "item_lang (One c) = {[x] | x. c = 46 \<or> x = c}"
| "item_lang (Many c) = {xs. \<forall>x \<in> set xs. c = 46 \<or> x = c}"

primrec items_lang :: "item list \<Rightarrow> byte list set" where
  "items_lang [] = {[]}"
| "items_lang (i # is) = {u @ v | u v. u \<in> item_lang i \<and> v \<in> items_lang is}"

definition starts_with :: "item list \<times> bool \<Rightarrow> byte list \<Rightarrow> bool" where
  "starts_with p tx \<longleftrightarrow> (\<exists>u v. tx = u @ v \<and> u \<in> items_lang (fst p) \<and> (snd p \<longrightarrow> v = []))"

definition pattern_matches :: "byte list \<Rightarrow> byte list \<Rightarrow> bool" where
  "pattern_matches re tx \<longleftrightarrow>
     (if re \<noteq> [] \<and> hd re = 94 then starts_with (pat_items (tl re)) tx
      else \<exists>u v. tx = u @ v \<and> starts_with (pat_items re) v)"

lemma starts_with_Nil: "starts_with ([], e) tx \<longleftrightarrow> (e \<longrightarrow> tx = [])"
  by (auto simp: starts_with_def)

lemma starts_with_Cons: "starts_with (i # is, e) tx \<longleftrightarrow> (\<exists>u v. tx = u @ v \<and> u \<in> item_lang i \<and> starts_with (is, e) v)"
proof
  assume "starts_with (i # is, e) tx"
  then obtain x w where "tx = x @ w" "x \<in> items_lang (i # is)" and w: "e \<longrightarrow> w = []" unfolding starts_with_def fst_conv snd_conv by blast
  then obtain u v where "tx = u @ v @ w" "u \<in> item_lang i" "v \<in> items_lang is" by auto
  then show "\<exists>u v. tx = u @ v \<and> u \<in> item_lang i \<and> starts_with (is, e) v" using w
    unfolding starts_with_def by (intro exI [of _ u] exI [of _ "v @ w"]) auto
next
  assume "\<exists>u v. tx = u @ v \<and> u \<in> item_lang i \<and> starts_with (is, e) v"
  then obtain u v w where "tx = u @ v @ w" "u \<in> item_lang i" "v \<in> items_lang is" "e \<longrightarrow> w = []" unfolding starts_with_def fst_conv snd_conv by blast
  then show "starts_with (i # is, e) tx" unfolding starts_with_def by (intro exI [of _ "u @ v"] exI [of _ w]) auto
qed

lemma starts_with_One:
  "starts_with (One c # is, e) tx \<longleftrightarrow> (case tx of [] \<Rightarrow> False | t # ts \<Rightarrow> (c = 46 \<or> c = t) \<and> starts_with (is, e) ts)"
proof
  assume "starts_with (One c # is, e) tx"
  then obtain x v where "tx = [x] @ v" "c = 46 \<or> x = c" "starts_with (is, e) v" unfolding starts_with_Cons item_lang.simps by blast
  then show "case tx of [] \<Rightarrow> False | t # ts \<Rightarrow> (c = 46 \<or> c = t) \<and> starts_with (is, e) ts" by auto
next
  assume "case tx of [] \<Rightarrow> False | t # ts \<Rightarrow> (c = 46 \<or> c = t) \<and> starts_with (is, e) ts"
  then obtain t ts where "tx = [t] @ ts" "c = 46 \<or> t = c" "starts_with (is, e) ts" by (auto split: list.splits)
  then show "starts_with (One c # is, e) tx" unfolding starts_with_Cons item_lang.simps by blast
qed

lemma starts_with_Many:
  "starts_with (Many c # is, e) tx \<longleftrightarrow>
     starts_with (is, e) tx \<or> (case tx of [] \<Rightarrow> False | t # ts \<Rightarrow> (t = c \<or> c = 46) \<and> starts_with (Many c # is, e) ts)"
  (is "?l \<longleftrightarrow> ?r")
proof
  assume ?l
  then obtain u v where t: "tx = u @ v" "\<forall>x \<in> set u. c = 46 \<or> x = c" "starts_with (is, e) v" by (auto simp: starts_with_Cons)
  then show ?r by (cases u) (auto simp: starts_with_Cons)
next
  assume r: ?r
  show ?l
  proof (cases "starts_with (is, e) tx")
    case True
    then show ?thesis unfolding starts_with_Cons by (intro exI [of _ "[]"] exI [of _ tx]) simp
  next
    case False
    with r obtain t ts where t: "tx = t # ts" "t = c \<or> c = 46" "starts_with (Many c # is, e) ts" by (auto split: list.splits)
    then obtain u v where "ts = u @ v" "\<forall>x \<in> set u. c = 46 \<or> x = c" "starts_with (is, e) v" by (auto simp: starts_with_Cons)
    then show ?thesis unfolding starts_with_Cons using t by (intro exI [of _ "t # u"] exI [of _ v]) auto
  qed
qed

lemma matchhere_spec:
  "matchhere re tx = starts_with (pat_items re) tx"
  "matchstar c re tx = starts_with (Many c # fst (pat_items re), snd (pat_items re)) tx"
proof (induction re tx and c re tx rule: matchhere_matchstar.induct)
  case (1 re tx)
  show ?case
  proof (cases re rule: pat_items.cases)
    case 1
    then show ?thesis by (simp add: matchhere.simps starts_with_Nil)
  next
    case (2 c)
    then show ?thesis by (auto simp: matchhere.simps [of "[c]"] starts_with_Nil starts_with_One matchhere.simps [of "[]"] split: list.splits)
  next
    case (3 c d re')
    then show ?thesis using "1.IH"(2,3) [OF 3 refl]
      by (auto simp: matchhere.simps [of "c # d # re'"] starts_with_One case_prod_beta split: list.splits)
  qed
next
  case (2 c re tx)
  then show ?case by (auto simp: matchstar.simps [of c re tx] starts_with_Many [of c _ _ tx] split: list.splits)
qed

lemma match_spec: "match re tx = pattern_matches re tx"
proof -
  have "match_loop re tx = (\<exists>u v. tx = u @ v \<and> starts_with (pat_items re) v)"
    by (induction tx) (auto simp: matchhere_spec Cons_eq_append_conv)
  then show ?thesis unfolding match_def pattern_matches_def matchhere_spec by (simp only:)
qed

section \<open>What \<open>grep\<close> prints\<close>

text \<open>The complete lines of a text, and the incomplete last one.\<close>

fun split_lines :: "byte list \<Rightarrow> byte list list \<times> byte list" where
  "split_lines [] = ([], [])"
| "split_lines (x # xs) =
     (case split_lines xs of (ls, r) \<Rightarrow>
        if x = 10 then ([] # ls, r)
        else (case ls of [] \<Rightarrow> ([], x # r) | l # ls' \<Rightarrow> ((x # l) # ls', r)))"

lemma strchr_lines:
  assumes "0 \<notin> set b"
  shows "case strchr 10 b of None \<Rightarrow> 10 \<notin> set b \<and> split_lines b = ([], b)
    | Some (l, r) \<Rightarrow> split_lines b = (l # fst (split_lines r), snd (split_lines r)) \<and> 0 \<notin> set r \<and> 10 \<in> set b"
  using assms by (induction b) (auto split: option.splits prod.splits list.splits)

lemma grep_lines_spec:
  "0 \<notin> set b \<Longrightarrow> grep_lines pat b = (map (\<lambda>l. l @ [10]) (filter (match pat) (fst (split_lines b))), snd (split_lines b))"
proof (induction pat b rule: grep_lines.induct)
  case (1 pat b)
  show ?case
  proof (cases "strchr 10 b")
    case None
    then show ?thesis using strchr_lines [OF "1.prems"] by (simp add: grep_lines.simps)
  next
    case (Some y)
    then obtain l r where y: "strchr 10 b = Some (l, r)" by (cases y) auto
    then show ?thesis using strchr_lines [OF "1.prems"] "1.IH" [OF y refl] by (simp add: grep_lines.simps [of pat b])
  qed
qed

lemma split_lines_rest: "fst (split_lines a) = [] \<Longrightarrow> snd (split_lines a) = a"
  by (induction a) (auto split: prod.splits list.splits if_splits)

lemma split_lines_append:
  "split_lines (a @ b) = (fst (split_lines a) @ fst (split_lines (snd (split_lines a) @ b)), snd (split_lines (snd (split_lines a) @ b)))"
proof (induction a)
  case (Cons x a)
  show ?case
  proof (cases "x = 10 \<or> fst (split_lines a) \<noteq> []")
    case True
    then show ?thesis using Cons by (auto simp: case_prod_beta split: list.splits)
  next
    case False
    then have "snd (split_lines (x # a)) = x # a" "fst (split_lines (x # a)) = []" if "snd (split_lines a) = a" using that by (simp_all add: case_prod_beta)
    moreover have "snd (split_lines a) = a" using False split_lines_rest by blast
    ultimately show ?thesis by simp
  qed
qed simp

lemma split_lines_none: "fst (split_lines b) = [] \<longleftrightarrow> 10 \<notin> set b"
  by (induction b) (auto split: prod.splits list.splits)

lemma split_lines_shorter: "length (snd (split_lines b)) \<le> length b"
  by (induction b) (auto split: prod.splits list.splits)

lemma split_lines_newline: "10 \<in> set b \<Longrightarrow> length (snd (split_lines b)) < length b"
proof (induction b)
  case (Cons x b)
  show ?case
  proof (cases "10 \<in> set b")
    case True
    then show ?thesis using Cons.IH split_lines_none [of b] by (auto simp: case_prod_beta split: list.splits)
  next
    case False
    then show ?thesis using Cons.prems split_lines_shorter [of b] by (auto simp: case_prod_beta)
  qed
qed simp

lemma split_lines_rest_set: "set (snd (split_lines b)) \<subseteq> set b"
  by (induction b) (auto split: prod.splits list.splits)

lemma grep_spec:
  assumes "0 \<notin> set b" and "\<forall>c \<in> set rs. 10 \<in> set c \<and> 0 \<notin> set c"
  shows "grep pat b rs = (if rs = [] then [] else map (\<lambda>l. l @ [10]) (filter (match pat) (fst (split_lines (b @ concat rs)))))"
  using assms
proof (induction rs arbitrary: b)
  case (Cons c rs)
  let ?s = "split_lines (b @ c)"
  have z: "0 \<notin> set (b @ c)" "10 \<in> set (b @ c)" "c \<noteq> []" using Cons.prems by auto
  have l: "length (snd ?s) \<noteq> length (b @ c)" using split_lines_newline [OF z(2)] by simp
  have r: "0 \<notin> set (snd ?s)" using split_lines_rest_set [of "b @ c"] z(1) by auto
  have e: "fst (split_lines (b @ c @ concat rs)) = fst ?s @ fst (split_lines (snd ?s @ concat rs))" using split_lines_append [of "b @ c" "concat rs"] by simp
  have n: "fst (split_lines (snd (split_lines x))) = []" for x
    by (induction x) (auto split: prod.splits list.splits)
  show ?case using Cons.IH [OF r] Cons.prems(2) l z(3) by (auto simp: grep_lines_spec [OF z(1)] e n)
qed simp



text \<open>A line that arrives in two reads, the first of them without a newline, loses its beginning.\<close>

lemma grep_drops_partial_line: "grep [97] [] [[97], [98, 10]] = []"
  by (simp add: grep_lines.simps match_def matchhere.simps)

section \<open>Counting: \<open>wc\<close>\<close>

text \<open>The counters are C integers; \<open>strchr\<close> does not find a zero byte, so it counts as part of a word.\<close>

definition wc_space :: "byte \<Rightarrow> bool" where
  "wc_space ch \<longleftrightarrow> ch \<in> {32, 13, 9, 10, 11}"

record wcst =
  wl :: "32 word"
  ww :: "32 word"
  wch :: "32 word"
  inword :: bool

definition wc1 :: "byte \<Rightarrow> wcst \<Rightarrow> wcst" where
  "wc1 ch s =
     (let s = s\<lparr>wch := wch s + 1\<rparr>;
          s = (if ch = 10 then s\<lparr>wl := wl s + 1\<rparr> else s)
      in if wc_space ch then s\<lparr>inword := False\<rparr>
         else if \<not> inword s then s\<lparr>ww := ww s + 1, inword := True\<rparr> else s)"

primrec wc_reads :: "byte list list \<Rightarrow> wcst \<Rightarrow> wcst" where
  "wc_reads [] s = s"
| "wc_reads (b # rs) s = (if b = [] then s else wc_reads rs (fold wc1 b s))"

text \<open>\<open>n\<close> is what the last \<open>read\<close> returned; \<open>None\<close> is the read error.\<close>

definition wc :: "byte list list \<Rightarrow> int \<Rightarrow> (32 word \<times> 32 word \<times> 32 word) option" where
  "wc rs n =
     (let s = wc_reads rs \<lparr>wl = 0, ww = 0, wch = 0, inword = False\<rparr>
      in if n < 0 then None else Some (wl s, ww s, wch s))"

text \<open>The number of places where a word starts.\<close>

definition word_starts :: "bool \<Rightarrow> byte list \<Rightarrow> nat" where
  "word_starts i xs = length (filter (\<lambda>(a, b). wc_space a \<and> \<not> wc_space b) (zip ((if i then 0 else 32) # xs) xs))"

lemma wc_fold:
  "fold wc1 xs s = \<lparr>wl = wl s + of_nat (count_list xs 10), ww = ww s + of_nat (word_starts (inword s) xs), wch = wch s + of_nat (length xs),
     inword = (if xs = [] then inword s else \<not> wc_space (last xs))\<rparr>"
proof (induction xs arbitrary: s)
  case Nil
  then show ?case by (simp add: word_starts_def)
next
  case (Cons x xs)
  have st: "word_starts i (x # xs) = (if \<not> i \<and> \<not> wc_space x then 1 else 0) + word_starts (\<not> wc_space x) xs" for i
    by (cases xs) (auto simp: word_starts_def wc_space_def)
  show ?case unfolding fold_simps Cons.IH st by (auto simp: wc1_def Let_def wc_space_def)
qed

text \<open>C32: Wherever the reads cut the input, \<open>wc\<close> reports of the whole input the number of newlines, the number of places where a word
  starts, which is after white space or at the beginning, and the number of bytes, each modulo \<open>2 ^ 32\<close>.\<close>

theorem wc_counts:
  assumes "[] \<notin> set rs"
  shows "wc rs 0 = Some (of_nat (count_list (concat rs) 10), of_nat (word_starts False (concat rs)), of_nat (length (concat rs)))"
proof -
  have "wc_reads rs s = fold wc1 (concat rs) s" for s using assms by (induction rs arbitrary: s) auto
  then show ?thesis by (simp add: wc_def Let_def wc_fold)
qed

theorem wc_counts_witness: "wc [[104, 105, 32, 116], [104, 101, 10]] 0 = Some (1, 2, 7)"
  using wc_counts [of "[[104, 105, 32, 116], [104, 101, 10]]"] by (simp add: word_starts_def wc_space_def)

section \<open>Copying: \<open>cat\<close>\<close>

text \<open>\<open>ws\<close> are the results of the successive writes; the flag says whether the copy was complete.\<close>

fun cat :: "byte list list \<Rightarrow> int \<Rightarrow> int list \<Rightarrow> byte list \<times> bool" where
  "cat [] n ws = ([], 0 \<le> n)"
| "cat (b # rs) n [] = ([], False)"
| "cat (b # rs) n (w # ws) =
     (if b = [] then ([], True)
      else if w \<noteq> int (length b) then (take (nat w) b, False)
      else case cat rs n ws of (out, ok) \<Rightarrow> (b @ out, ok))"

lemma cat_copies: "[] \<notin> set rs \<Longrightarrow> 0 \<le> n \<Longrightarrow> cat rs n (map (\<lambda>b. int (length b)) rs) = (concat rs, True)"
  by (induction rs) auto

end
