(* ===== verification/Sh.thy ===== *)
theory Sh
  imports Ulib
begin

text \<open>
  The shell \<^verbatim>\<open>src/xv6-public/sh.c\<close>: the recursive descent parser and what running a command asks of the kernel. \<open>malloc\<close> is assumed not to
  fail, as in the source.
\<close>

section \<open>Commands\<close>

text \<open>
  A token of the source is a pair of pointers into the line, which \<open>nulterminate\<close> turns into a string at the end; here it is that
  string. \<open>MAXARGS\<close> counts the terminating null pointer.
\<close>

datatype cmd =
    EXEC "byte list list"
  | REDIR cmd "byte list" int int
  | PIPE cmd cmd
  | LIST cmd cmd
  | BACK cmd

definition MAXARGS :: nat where "MAXARGS = 10"
definition sh_RDONLY :: int where "sh_RDONLY = 0"
definition sh_WRCREATE :: int where "sh_WRCREATE = 0x201"

section \<open>Tokens\<close>

text \<open>
  The rest of the line, from \<open>*ps\<close> to \<open>es\<close>, is a list without zero bytes; reading at \<open>es\<close> gives 0. \<open>gettoken\<close> returns the kind of
  token, its text and the rest.
\<close>

definition whitespace :: "byte set" where "whitespace = {32, 9, 13, 10, 11}"
definition symbols :: "byte set" where "symbols = {60, 124, 62, 38, 59, 40, 41}"

definition skip :: "byte list \<Rightarrow> byte list" where
  "skip s = dropWhile (\<lambda>c. c \<in> whitespace) s"

definition gettoken :: "byte list \<Rightarrow> byte \<times> byte list \<times> byte list" where
  "gettoken ps =
     (case skip ps of
        [] \<Rightarrow> (0, [], [])
      | c # s \<Rightarrow>
          if c \<in> {124, 40, 41, 59, 38, 60} then (c, [c], skip s)
          else if c = 62 then
            (case s of
               d # s' \<Rightarrow> if d = 62 then (43, [62, 62], skip s') else (62, [62], skip s)
             | [] \<Rightarrow> (62, [62], []))
          else
            let word = (\<lambda>c. c \<notin> whitespace \<and> c \<notin> symbols)
            in (97, takeWhile word (c # s), skip (dropWhile word (c # s))))"

definition peek :: "byte list \<Rightarrow> byte set \<Rightarrow> bool" where
  "peek ps toks = (case skip ps of [] \<Rightarrow> False | c # s \<Rightarrow> c \<in> toks)"

abbreviation tok_rest :: "byte list \<Rightarrow> byte list" where
  "tok_rest ps \<equiv> snd (snd (gettoken ps))"

lemma skip_shorter: "length (skip s) \<le> length s"
  by (simp add: skip_def length_dropWhile_le)

lemma tok_rest_shorter: "skip s \<noteq> [] \<Longrightarrow> length (tok_rest s) < length s"
proof -
  assume a: "skip s \<noteq> []"
  then obtain c t where s: "skip s = c # t" by (cases "skip s") auto
  have l: "length t < length s" using skip_shorter [of s] s by simp
  have w: "c \<notin> whitespace" using hd_dropWhile [of "\<lambda>c. c \<in> whitespace" s] a s unfolding skip_def by (metis list.sel(1))
  have k: "length (skip x) \<le> length x" for x by (rule skip_shorter)
  show ?thesis
  proof (cases "c \<in> symbols")
    case True
    have "length (tok_rest s) \<le> length t"
      using True k [of t] k [of "tl t"] by (cases t) (auto simp: gettoken_def s symbols_def)
    then show ?thesis using l by simp
  next
    case False
    then have c: "c \<notin> {124, 40, 41, 59, 38, 60}" "c \<noteq> 62" by (simp_all add: symbols_def)
    have "tok_rest s = skip (dropWhile (\<lambda>c. c \<notin> whitespace \<and> c \<notin> symbols) t)"
      unfolding gettoken_def s list.case if_not_P [OF c(1)] if_not_P [OF c(2)] using w False by (simp add: Let_def)
    then have "length (tok_rest s) \<le> length t" using order_trans [OF k length_dropWhile_le] by simp
    then show ?thesis using l by simp
  qed
qed

lemma tok_rest_le: "length (tok_rest s) \<le> length s"
proof (cases "skip s = []")
  case True
  then show ?thesis by (simp add: gettoken_def)
next
  case False
  then show ?thesis using tok_rest_shorter by (simp add: less_imp_le)
qed

lemma peek_skip: "peek s toks \<Longrightarrow> skip s \<noteq> []"
  by (auto simp: peek_def split: list.splits)

section \<open>The parser\<close>

text \<open>
  The parsing functions call each other on what is left of the line. A call spends a unit of fuel; running out is \<open>NoFuel\<close>, and \<open>parsecmd\<close> gives
  more than can be spent. A panic of the shell is \<open>Err\<close>. While \<open>parseexec\<close> fills in the arguments of its command, redirections
  are already wrapped around it; here they are collected and wrapped around it at the end.
\<close>

datatype 'a pres = Ok 'a "byte list" | Err string | NoFuel

primrec pbind :: "'a pres \<Rightarrow> ('a \<Rightarrow> byte list \<Rightarrow> 'b pres) \<Rightarrow> 'b pres" where
  "pbind (Ok a s) f = f a s"
| "pbind (Err e) f = Err e"
| "pbind NoFuel f = NoFuel"

type_synonym redir = "byte list \<times> int \<times> int"

definition redircmd :: "cmd \<Rightarrow> redir list \<Rightarrow> cmd" where
  "redircmd c rs = foldl (\<lambda>c (f, m, d). REDIR c f m d) c rs"

function parseredirs :: "redir list \<Rightarrow> byte list \<Rightarrow> (redir list) pres" where
  "parseredirs rs ps =
     (if peek ps {60, 62} then
        let tok = fst (gettoken ps); s1 = tok_rest ps
        in if fst (gettoken s1) \<noteq> 97 then Err ''missing file for redirection''
           else
             let q = fst (snd (gettoken s1))
             in parseredirs (rs @ [if tok = 60 then (q, sh_RDONLY, 0) else (q, sh_WRCREATE, 1)]) (tok_rest s1)
      else Ok rs (skip ps))"
  by pat_completeness auto
termination
proof (relation "measure (\<lambda>(rs, ps). length ps)")
  fix ps s1 assume a: "peek ps {60, 62}" "s1 = tok_rest ps"
  have "length (tok_rest s1) < length ps" using tok_rest_shorter [OF peek_skip [OF a(1)]] tok_rest_le [of s1] a(2) by simp
  then show "((r, tok_rest s1), rs, ps) \<in> measure (\<lambda>(rs, ps). length ps)" for r rs :: "redir list" by simp
qed simp

declare parseredirs.simps [simp del]

lemma parseredirs_shorter: "parseredirs rs ps = Ok rs' s \<Longrightarrow> length s \<le> length ps"
proof (induction rs ps rule: parseredirs.induct)
  case (1 rs ps)
  then show ?case using skip_shorter [of ps] tok_rest_le [of ps] tok_rest_le [of "tok_rest ps"]
    by (subst (asm) parseredirs.simps) (fastforce simp: Let_def split: if_splits)
qed

function parseargs :: "byte list list \<Rightarrow> redir list \<Rightarrow> byte list \<Rightarrow> cmd pres" where
  "parseargs args rs ps =
     (if peek ps {124, 41, 38, 59} then Ok (redircmd (EXEC args) rs) (skip ps)
      else
        let tok = fst (gettoken ps); q = fst (snd (gettoken ps))
        in if tok = 0 then Ok (redircmd (EXEC args) rs) (tok_rest ps)
           else if tok \<noteq> 97 then Err ''syntax''
           else if length args + 1 \<ge> MAXARGS then Err ''too many args''
           else
             (case parseredirs rs (tok_rest ps) of
                Ok rs' s \<Rightarrow> parseargs (args @ [q]) rs' s
              | Err e \<Rightarrow> Err e
              | NoFuel \<Rightarrow> NoFuel))"
  by pat_completeness auto
termination
proof (relation "measure (\<lambda>(args, rs, ps). length ps)")
  fix ps tok s and rs rs' :: "redir list"
  assume a: "tok = fst (gettoken ps)" "tok \<noteq> 0" "parseredirs rs (tok_rest ps) = Ok rs' s"
  then have "skip ps \<noteq> []" by (auto simp: gettoken_def)
  then have "length s < length ps" using tok_rest_shorter [of ps] parseredirs_shorter [OF a(3)] by simp
  then show "((x, rs', s), y, rs, ps) \<in> measure (\<lambda>(args, rs, ps). length ps)" for x y :: "byte list list" by simp
qed simp

declare parseargs.simps [simp del]

function parsebacks :: "cmd \<Rightarrow> byte list \<Rightarrow> cmd \<times> byte list" where
  "parsebacks c ps = (if peek ps {38} then parsebacks (BACK c) (tok_rest ps) else (c, skip ps))"
  by pat_completeness auto
termination
  by (relation "measure (\<lambda>(c, ps). length ps)") (auto dest: peek_skip tok_rest_shorter)

declare parsebacks.simps [simp del]

fun parseline :: "nat \<Rightarrow> byte list \<Rightarrow> cmd pres"
and parsepipe :: "nat \<Rightarrow> byte list \<Rightarrow> cmd pres"
and parseexec :: "nat \<Rightarrow> byte list \<Rightarrow> cmd pres"
and parseblock :: "nat \<Rightarrow> byte list \<Rightarrow> cmd pres" where
  "parseline 0 ps = NoFuel"
| "parseline (Suc n) ps =
     pbind (parsepipe n ps) (\<lambda>c s.
     case parsebacks c s of (c, s) \<Rightarrow>
     if peek s {59} then pbind (parseline n (tok_rest s)) (\<lambda>d s. Ok (LIST c d) s)
     else Ok c (skip s))"
| "parsepipe 0 ps = NoFuel"
| "parsepipe (Suc n) ps =
     pbind (parseexec n ps) (\<lambda>c s.
     if peek s {124} then pbind (parsepipe n (tok_rest s)) (\<lambda>d s. Ok (PIPE c d) s)
     else Ok c (skip s))"
| "parseexec 0 ps = NoFuel"
| "parseexec (Suc n) ps =
     (if peek ps {40} then parseblock n ps
      else pbind (parseredirs [] ps) (\<lambda>rs s. parseargs [] rs s))"
| "parseblock 0 ps = NoFuel"
| "parseblock (Suc n) ps =
     (if \<not> peek ps {40} then Err ''parseblock''
      else
        pbind (parseline n (tok_rest ps)) (\<lambda>c s.
        if \<not> peek s {41} then Err ''syntax - missing )''
        else pbind (parseredirs [] (tok_rest s)) (\<lambda>rs s. Ok (redircmd c rs) s)))"

definition parsecmd :: "byte list \<Rightarrow> cmd pres" where
  "parsecmd s =
     pbind (parseline (4 * length s + 4) s) (\<lambda>c s.
     if skip s \<noteq> [] then Err ''syntax'' else Ok c [])"

section \<open>The parser ends\<close>

lemma pbind_Ok: "pbind r f = Ok b t \<longleftrightarrow> (\<exists>a s. r = Ok a s \<and> f a s = Ok b t)"
  by (cases r) auto

lemma pbind_NoFuel: "pbind r f = NoFuel \<longleftrightarrow> r = NoFuel \<or> (\<exists>a s. r = Ok a s \<and> f a s = NoFuel)"
  by (cases r) auto

lemma parseargs_shorter: "parseargs args rs ps = Ok c s \<Longrightarrow> length s \<le> length ps"
proof (induction args rs ps rule: parseargs.induct)
  case (1 args rs ps)
  show ?case
  proof (cases "\<exists>rs' u. \<not> peek ps {124, 41, 38, 59} \<and> fst (gettoken ps) = 97 \<and> \<not> length args + 1 \<ge> MAXARGS \<and> parseredirs rs (tok_rest ps) = Ok rs' u")
    case True
    then obtain rs' u where p: "\<not> peek ps {124, 41, 38, 59}" "fst (gettoken ps) = 97" "\<not> length args + 1 \<ge> MAXARGS" "parseredirs rs (tok_rest ps) = Ok rs' u" by blast
    then have "parseargs (args @ [fst (snd (gettoken ps))]) rs' u = Ok c s" using "1.prems" by (simp add: parseargs.simps [of args rs ps])
    then have "length s \<le> length u" using "1.IH" [OF p(1) refl refl _ _ p(3) p(4)] p(2) by simp
    then show ?thesis using parseredirs_shorter [OF p(4)] tok_rest_le [of ps] by simp
  next
    case False
    then have "s = skip ps \<or> s = tok_rest ps" using "1.prems" by (subst (asm) parseargs.simps) (auto simp: Let_def split: if_splits pres.splits)
    then show ?thesis using skip_shorter [of ps] tok_rest_le [of ps] by auto
  qed
qed

lemma parsebacks_shorter: "length (snd (parsebacks c ps)) \<le> length ps"
proof (induction c ps rule: parsebacks.induct)
  case (1 c ps)
  then show ?case using tok_rest_le [of ps] skip_shorter [of ps] by (subst parsebacks.simps) auto
qed

lemma parseredirs_fuel: "parseredirs rs ps \<noteq> NoFuel"
  by (induction rs ps rule: parseredirs.induct) (subst parseredirs.simps, auto simp: Let_def)

lemma parseargs_fuel: "parseargs args rs ps \<noteq> NoFuel"
  by (induction args rs ps rule: parseargs.induct) (subst parseargs.simps, auto simp: Let_def parseredirs_fuel split: pres.splits)

lemma parse_shorter:
  "parseline n ps = Ok c s \<Longrightarrow> length s \<le> length ps"
  "parsepipe n ps = Ok c s \<Longrightarrow> length s \<le> length ps"
  "parseexec n ps = Ok c s \<Longrightarrow> length s \<le> length ps"
  "parseblock n ps = Ok c s \<Longrightarrow> length s \<le> length ps"
proof (induction n ps and n ps and n ps and n ps arbitrary: c s and c s and c s and c s rule: parseline_parsepipe_parseexec_parseblock.induct)
  case (2 n ps)
  then obtain d u where u: "parsepipe n ps = Ok d u" "(case parsebacks d u of (c, s) \<Rightarrow> if peek s {59} then pbind (parseline n (tok_rest s)) (\<lambda>d s. Ok (LIST c d) s) else Ok c (skip s)) = Ok c s"
    by (auto simp: pbind_Ok)
  obtain e v where v: "parsebacks d u = (e, v)" by (cases "parsebacks d u")
  have l: "length v \<le> length ps" using "2.IH"(1) [OF u(1)] parsebacks_shorter [of d u] v by simp
  show ?case
  proof (cases "peek v {59}")
    case True
    then obtain f where "parseline n (tok_rest v) = Ok f s" using u(2) v by (auto simp: pbind_Ok)
    then show ?thesis using "2.IH"(2) [OF v [symmetric] True] l tok_rest_le [of v] by fastforce
  next
    case False
    then show ?thesis using u(2) v l skip_shorter [of v] by simp
  qed
next
  case (4 n ps)
  then obtain d u where u: "parseexec n ps = Ok d u" "(if peek u {124} then pbind (parsepipe n (tok_rest u)) (\<lambda>e s. Ok (PIPE d e) s) else Ok d (skip u)) = Ok c s"
    by (auto simp: pbind_Ok)
  have l: "length u \<le> length ps" using "4.IH"(1) [OF u(1)] .
  show ?case
  proof (cases "peek u {124}")
    case True
    then obtain f where "parsepipe n (tok_rest u) = Ok f s" using u(2) by (auto simp: pbind_Ok)
    then show ?thesis using "4.IH"(2) [OF True] l tok_rest_le [of u] by fastforce
  next
    case False
    then show ?thesis using u(2) l skip_shorter [of u] by simp
  qed
next
  case (6 n ps)
  then show ?case by (auto simp: pbind_Ok split: if_splits dest!: parseredirs_shorter parseargs_shorter)
next
  case (8 n ps)
  then have p: "peek ps {40}" by (auto split: if_splits)
  then obtain d u where u: "parseline n (tok_rest ps) = Ok d u" "peek u {41}" "pbind (parseredirs [] (tok_rest u)) (\<lambda>rs s. Ok (redircmd d rs) s) = Ok c s"
    using "8.prems" by (auto simp: pbind_Ok split: if_splits)
  then obtain rs where "parseredirs [] (tok_rest u) = Ok rs s" by (auto simp: pbind_Ok)
  then show ?case using "8.IH" [OF _ u(1)] p parseredirs_shorter [of "[]" "tok_rest u"] tok_rest_le [of u] tok_rest_le [of ps] by fastforce
qed auto

lemma parse_enough_fuel:
  "4 * length ps + 4 \<le> n \<Longrightarrow> parseline n ps \<noteq> NoFuel"
  "4 * length ps + 3 \<le> n \<Longrightarrow> parsepipe n ps \<noteq> NoFuel"
  "4 * length ps + 2 \<le> n \<Longrightarrow> parseexec n ps \<noteq> NoFuel"
  "4 * length ps + 1 \<le> n \<Longrightarrow> parseblock n ps \<noteq> NoFuel"
proof (induction n ps and n ps and n ps and n ps rule: parseline_parsepipe_parseexec_parseblock.induct)
  case (2 n ps)
  show ?case
  proof
    assume a: "parseline (Suc n) ps = NoFuel"
    have "parsepipe n ps \<noteq> NoFuel" using "2.IH"(1) "2.prems" by simp
    with a obtain d u where u: "parsepipe n ps = Ok d u" "(case parsebacks d u of (c, s) \<Rightarrow> if peek s {59} then pbind (parseline n (tok_rest s)) (\<lambda>d s. Ok (LIST c d) s) else Ok c (skip s)) = NoFuel"
      by (auto simp: pbind_NoFuel)
    obtain e v where v: "parsebacks d u = (e, v)" by (cases "parsebacks d u")
    then have n: "parseline n (tok_rest v) = NoFuel" "peek v {59}" using u(2) by (auto simp: pbind_NoFuel split: if_splits)
    have "length (tok_rest v) < length ps"
      using tok_rest_shorter [OF peek_skip [OF n(2)]] parse_shorter(2) [OF u(1)] parsebacks_shorter [of d u] v by simp
    then show False using "2.IH"(2) [OF v [symmetric] n(2)] n(1) "2.prems" by fastforce
  qed
next
  case (4 n ps)
  show ?case
  proof
    assume a: "parsepipe (Suc n) ps = NoFuel"
    have "parseexec n ps \<noteq> NoFuel" using "4.IH"(1) "4.prems" by simp
    with a obtain d u where u: "parseexec n ps = Ok d u" "parsepipe n (tok_rest u) = NoFuel" "peek u {124}"
      by (auto simp: pbind_NoFuel split: if_splits)
    have "length (tok_rest u) < length ps" using tok_rest_shorter [OF peek_skip [OF u(3)]] parse_shorter(3) [OF u(1)] by simp
    then show False using "4.IH"(2) [OF u(3)] u(2) "4.prems" by fastforce
  qed
next
  case (6 n ps)
  then show ?case by (auto simp: pbind_NoFuel parseredirs_fuel parseargs_fuel)
next
  case (8 n ps)
  show ?case
  proof (cases "peek ps {40}")
    case True
    then have "length (tok_rest ps) < length ps" by (intro tok_rest_shorter peek_skip)
    then have "parseline n (tok_rest ps) \<noteq> NoFuel" using "8.IH" "8.prems" True by fastforce
    then show ?thesis using True by (auto simp: pbind_NoFuel parseredirs_fuel)
  qed simp
qed auto

section \<open>Printing commands\<close>

text \<open>
  \<open>cmd_level\<close> is the grammar rule a command comes from; a command of a higher cmd_level than its place allows is put in parentheses.
\<close>

primrec cmd_level :: "cmd \<Rightarrow> nat" where
  "cmd_level (EXEC args) = 0"
| "cmd_level (REDIR c f m d) = 0"
| "cmd_level (PIPE l r) = 1"
| "cmd_level (BACK c) = 2"
| "cmd_level (LIST l r) = 3"

definition redir_text :: "redir \<Rightarrow> byte list" where
  "redir_text r = (case r of (f, m, d) \<Rightarrow> (if d = 0 then 60 else 62) # f)"

definition wrap :: "nat \<Rightarrow> cmd \<Rightarrow> byte list \<Rightarrow> byte list" where
  "wrap k c s = (if cmd_level c \<le> k then s else 40 # s @ [41])"

primrec cmd_text :: "cmd \<Rightarrow> byte list" where
  "cmd_text (EXEC args) = concat (map (\<lambda>a. 32 # a) args)"
| "cmd_text (REDIR c f m d) = wrap 0 c (cmd_text c) @ redir_text (f, m, d)"
| "cmd_text (PIPE l r) = wrap 0 l (cmd_text l) @ 124 # wrap 1 r (cmd_text r)"
| "cmd_text (LIST l r) = wrap 2 l (cmd_text l) @ 59 # cmd_text r"
| "cmd_text (BACK c) = wrap 2 c (cmd_text c) @ [38]"

definition word_ok :: "byte list \<Rightarrow> bool" where
  "word_ok w \<longleftrightarrow> w \<noteq> [] \<and> (\<forall>c \<in> set w. c \<noteq> 0 \<and> c \<notin> whitespace \<and> c \<notin> symbols)"

definition redir_ok :: "redir \<Rightarrow> bool" where
  "redir_ok r \<longleftrightarrow> (case r of (f, m, d) \<Rightarrow> word_ok f \<and> (m = sh_RDONLY \<and> d = 0 \<or> m = sh_WRCREATE \<and> d = 1))"

primrec cmd_ok :: "cmd \<Rightarrow> bool" where
  "cmd_ok (EXEC args) \<longleftrightarrow> length args < MAXARGS \<and> list_all word_ok args"
| "cmd_ok (REDIR c f m d) \<longleftrightarrow> cmd_ok c \<and> redir_ok (f, m, d)"
| "cmd_ok (PIPE l r) \<longleftrightarrow> cmd_ok l \<and> cmd_ok r"
| "cmd_ok (LIST l r) \<longleftrightarrow> cmd_ok l \<and> cmd_ok r"
| "cmd_ok (BACK c) \<longleftrightarrow> cmd_ok c"

section \<open>Tokens of a printed command\<close>

lemma skip_skip [simp]: "skip (skip s) = skip s"
  unfolding skip_def by (rule dropWhile_idem)

lemma gettoken_skip [simp]: "gettoken (skip s) = gettoken s" "peek (skip s) t = peek s t"
  by (simp_all add: gettoken_def peek_def)

lemma parse_skip [simp]:
  "parsebacks c (skip s) = parsebacks c s" "parseredirs rs (skip s) = parseredirs rs s" "parseargs as rs (skip s) = parseargs as rs s"
  by (subst (1 2) parsebacks.simps, simp) (subst (1 2) parseredirs.simps, simp add: Let_def, subst (1 2) parseargs.simps, simp add: Let_def)

lemma parse_skip_rec [simp]:
  "parseblock n (skip s) = parseblock n s" "parseexec n (skip s) = parseexec n s" "parsepipe n (skip s) = parsepipe n s" "parseline n (skip s) = parseline n s"
proof -
  show b: "parseblock n (skip s) = parseblock n s" for n by (cases n) simp_all
  show e: "parseexec n (skip s) = parseexec n s" for n by (cases n) (simp_all add: b)
  show p: "parsepipe n (skip s) = parsepipe n s" for n by (cases n) (simp_all add: e)
  show "parseline n (skip s) = parseline n s" by (cases n) (simp_all add: p)
qed

lemma sym_facts: "c \<in> symbols \<Longrightarrow> c \<notin> whitespace"
  by (auto simp: symbols_def whitespace_def)

lemma skip_sym [simp]: "c \<in> symbols \<Longrightarrow> skip (c # s) = c # s"
  by (simp add: skip_def sym_facts)

lemma in_symbols [simp]: "60 \<in> symbols" "124 \<in> symbols" "62 \<in> symbols" "38 \<in> symbols" "59 \<in> symbols" "40 \<in> symbols" "41 \<in> symbols"
  by (simp_all add: symbols_def)

lemma peek_sym [simp]: "c \<in> symbols \<Longrightarrow> peek (c # s) t \<longleftrightarrow> c \<in> t"
  by (simp add: peek_def)

lemma gettoken_sym [simp]: "c \<in> {124, 40, 41, 59, 38, 60} \<Longrightarrow> gettoken (c # s) = (c, [c], skip s)"
  using skip_sym [of c s] by (auto simp: gettoken_def)

definition boundary :: "byte list \<Rightarrow> bool" where
  "boundary s \<longleftrightarrow> (case s of [] \<Rightarrow> True | c # _ \<Rightarrow> c \<in> whitespace \<or> c \<in> symbols)"

lemma gettoken_word:
  assumes "word_ok w" and "boundary s"
  shows "gettoken (w @ s) = (97, w, skip s)" and "peek (w @ s) t \<longleftrightarrow> hd w \<in> t" and "hd w \<notin> symbols" and "skip (w @ s) = w @ s"
proof -
  let ?P = "\<lambda>c. c \<notin> whitespace \<and> c \<notin> symbols"
  obtain c w' where w: "w = c # w'" using assms(1) by (cases w) (auto simp: word_ok_def)
  have c: "c \<notin> whitespace" "c \<notin> symbols" using assms(1) by (simp_all add: word_ok_def w)
  show h: "hd w \<notin> symbols" using c w by simp
  show k: "skip (w @ s) = w @ s" using c w by (simp add: skip_def)
  show "peek (w @ s) t \<longleftrightarrow> hd w \<in> t" unfolding peek_def k by (simp add: w)
  have p: "\<forall>x \<in> set w. ?P x" using assms(1) by (simp add: word_ok_def)
  have b: "takeWhile ?P s = []" "dropWhile ?P s = s" using assms(2) by (auto simp: boundary_def split: list.splits)
  have t: "takeWhile ?P (w @ s) = w" "dropWhile ?P (w @ s) = s" using p b by (simp_all add: takeWhile_append2 dropWhile_append2)
  have n: "c \<notin> {124, 40, 41, 59, 38, 60}" "c \<noteq> 62" using c(2) by (auto simp: symbols_def)
  have "gettoken (w @ s) = (97, takeWhile ?P (w @ s), skip (dropWhile ?P (w @ s)))"
    unfolding gettoken_def k unfolding w append_Cons list.case if_not_P [OF n(1)] if_not_P [OF n(2)] Let_def ..
  then show "gettoken (w @ s) = (97, w, skip s)" unfolding t .
qed

lemma gettoken_gt: "word_ok w \<Longrightarrow> gettoken (62 # w @ s) = (62, [62], skip (w @ s))"
proof -
  assume "word_ok w"
  then obtain c w' where w: "w = c # w'" "c \<noteq> 62" by (cases w) (auto simp: word_ok_def symbols_def)
  have n: "(62 :: byte) \<notin> {124, 40, 41, 59, 38, 60}" by simp
  show ?thesis unfolding gettoken_def skip_sym [OF in_symbols(3)] list.case if_not_P [OF n] using w by simp
qed

abbreviation redirs_text :: "redir list \<Rightarrow> byte list" where
  "redirs_text rs \<equiv> concat (map redir_text rs)"

lemma boundary_redirs: "boundary s \<Longrightarrow> boundary (redirs_text rs @ s)"
  by (cases rs) (auto simp: boundary_def redir_text_def split: prod.splits)

lemma parseredirs_text:
  assumes "list_all redir_ok rs" and "boundary s" and "\<not> peek s {60, 62}"
  shows "parseredirs acc (redirs_text rs @ s) = Ok (acc @ rs) (skip s)"
  using assms(1)
proof (induction rs arbitrary: acc)
  case Nil
  then show ?case using assms(3) by (simp add: parseredirs.simps [of acc s])
next
  case (Cons r rs)
  obtain f m d where r: "r = (f, m, d)" by (cases r)
  have ok: "word_ok f" "m = sh_RDONLY \<and> d = 0 \<or> m = sh_WRCREATE \<and> d = 1" using Cons.prems by (simp_all add: r redir_ok_def)
  let ?s = "redirs_text rs @ s"
  note w = gettoken_word [OF ok(1) boundary_redirs [OF assms(2), of rs]]
  have IH: "parseredirs (acc @ [r]) ?s = Ok ((acc @ [r]) @ rs) (skip s)" using Cons by simp
  show ?case
  proof (cases "d = 0")
    case True
    have "gettoken (60 # f @ ?s) = (60, [60], skip (f @ ?s))" by (rule gettoken_sym) simp
    then show ?thesis using True ok(2) w IH by (subst parseredirs.simps) (simp add: r redir_text_def Let_def)
  next
    case False
    note gettoken_gt [OF ok(1), of ?s]
    then show ?thesis using False ok(2) w IH by (subst parseredirs.simps) (simp add: r redir_text_def Let_def)
  qed
qed

section \<open>Parsing what was printed\<close>

text \<open>\<open>follows T s\<close>: after white space, \<open>s\<close> goes on with a character of \<open>T\<close> or ends.\<close>

definition follows :: "byte set \<Rightarrow> byte list \<Rightarrow> bool" where
  "follows T s \<longleftrightarrow> (case skip s of [] \<Rightarrow> True | c # _ \<Rightarrow> c \<in> T)"

lemma follows_mono: "follows T s \<Longrightarrow> T \<subseteq> T' \<Longrightarrow> follows T' s"
  by (auto simp: follows_def split: list.splits)

lemma follows_peek: "follows T s \<Longrightarrow> T \<inter> U = {} \<Longrightarrow> \<not> peek s U"
  by (auto simp: follows_def peek_def split: list.splits)

lemma follows_boundary: "follows T s \<Longrightarrow> T \<subseteq> symbols \<Longrightarrow> boundary s"
  by (cases s) (auto simp: follows_def boundary_def skip_def split: if_splits)

lemma follows_sym [simp]: "c \<in> symbols \<Longrightarrow> follows T (c # s) \<longleftrightarrow> c \<in> T"
  by (simp add: follows_def)

lemma follows_skip [simp]: "follows T (skip s) = follows T s"
  by (simp add: follows_def)

abbreviation ends_exec :: "byte set" where "ends_exec \<equiv> {124, 41, 38, 59}"

lemma parseargs_end: "follows ends_exec s \<Longrightarrow> parseargs args rs s = Ok (redircmd (EXEC args) rs) (skip s)"
  by (subst parseargs.simps) (auto simp: follows_def peek_def gettoken_def Let_def split: list.splits)

lemma parseargs_text:
  assumes "list_all word_ok args" and "args \<noteq> []" and "length acc + length args < MAXARGS" and rs: "list_all redir_ok rs" and s: "follows ends_exec s"
  shows "parseargs acc [] (concat (map (\<lambda>a. 32 # a) args) @ redirs_text rs @ s) = Ok (redircmd (EXEC (acc @ args)) rs) (skip s)"
  using assms(1-3)
proof (induction args arbitrary: acc)
  case (Cons a args)
  let ?t = "concat (map (\<lambda>a. 32 # a) args) @ redirs_text rs @ s"
  have bs: "boundary s" using s by (rule follows_boundary) simp
  have bt: "boundary ?t" using boundary_redirs [OF bs, of rs] by (cases args) (simp_all add: boundary_def whitespace_def)
  have a: "word_ok a" using Cons.prems(1) by simp
  note w = gettoken_word [OF a bt]
  have sp: "skip (32 # x) = skip x" for x by (simp add: skip_def whitespace_def)
  have g: "gettoken (32 # x) = gettoken x" "peek (32 # x) T = peek x T" for x T by (simp_all add: gettoken_def peek_def sp)
  have np: "\<not> peek (32 # a @ ?t) ends_exec" unfolding g w(2) using w(3) by (auto simp: symbols_def)
  have run: "parseargs acc [] (32 # a @ ?t) = (case parseredirs [] ?t of Ok rs' s \<Rightarrow> parseargs (acc @ [a]) rs' s | Err e \<Rightarrow> Err e | NoFuel \<Rightarrow> NoFuel)"
    using np Cons.prems(3) unfolding parseargs.simps [of acc "[]" "32 # a @ ?t"] g w(1) by (simp add: Let_def)
  show ?case
  proof (cases args)
    case Nil
    have "\<not> peek s {60, 62}" using s by (rule follows_peek) simp
    then have "parseredirs [] ?t = Ok rs (skip s)" using parseredirs_text [OF rs bs, of "[]"] by (simp add: Nil)
    then show ?thesis using run parseargs_end [OF s] by (simp add: Nil)
  next
    case (Cons b bs)
    have "word_ok b" using Cons.prems(1) Cons by simp
    then have "\<not> peek ?t {60, 62}"
    proof -
      have "boundary (concat (map (\<lambda>a. 32 # a) bs) @ redirs_text rs @ s)" using boundary_redirs [OF \<open>boundary s\<close>, of rs] by (cases bs) (simp_all add: boundary_def whitespace_def)
      from gettoken_word [OF \<open>word_ok b\<close> this] show ?thesis by (auto simp: Cons g symbols_def)
    qed
    then have "parseredirs [] ?t = Ok [] (skip ?t)" by (simp add: parseredirs.simps [of "[]" ?t])
    moreover have "parseargs (acc @ [a]) [] ?t = Ok (redircmd (EXEC ((acc @ [a]) @ args)) rs) (skip s)"
      using Cons.prems Cons by (intro Cons.IH) simp_all
    ultimately show ?thesis using run by simp
  qed
qed simp

text \<open>A command without its redirections, and these.\<close>

primrec base :: "cmd \<Rightarrow> cmd" where
  "base (EXEC args) = EXEC args"
| "base (REDIR c f m d) = base c"
| "base (PIPE l r) = PIPE l r"
| "base (LIST l r) = LIST l r"
| "base (BACK c) = BACK c"

primrec redirs :: "cmd \<Rightarrow> redir list" where
  "redirs (EXEC args) = []"
| "redirs (REDIR c f m d) = redirs c @ [(f, m, d)]"
| "redirs (PIPE l r) = []"
| "redirs (LIST l r) = []"
| "redirs (BACK c) = []"

lemma redircmd_base: "redircmd (base c) (redirs c) = c"
  by (induction c) (simp_all add: redircmd_def)

lemma base_text: "wrap 0 c (cmd_text c) = wrap 0 (base c) (cmd_text (base c)) @ redirs_text (redirs c)"
  by (induction c) (simp_all add: wrap_def)

lemma base_ok: "cmd_ok c \<Longrightarrow> cmd_ok (base c) \<and> list_all redir_ok (redirs c)"
  by (induction c) simp_all

lemma base_cases: "(\<exists>args. base c = EXEC args) \<or> 0 < cmd_level (base c)"
  by (induction c) auto

lemma base_smaller: "base c \<noteq> c \<Longrightarrow> size (base c) < size c"
proof -
  have "size (base c) \<le> size c" for c by (induction c) auto
  then show "base c \<noteq> c \<Longrightarrow> ?thesis" by (cases c) (auto simp: less_Suc_eq_le)
qed

definition line_ok :: "cmd \<Rightarrow> bool" where
  "line_ok c \<longleftrightarrow> (\<forall>n s. follows {41} s \<longrightarrow> parseline n (cmd_text c @ s) \<in> {NoFuel, Ok c (skip s)})"

definition parsebk :: "nat \<Rightarrow> byte list \<Rightarrow> cmd pres" where
  "parsebk n s = pbind (parsepipe n s) (\<lambda>c s. case parsebacks c s of (c, s) \<Rightarrow> Ok c s)"

definition back_ok :: "cmd \<Rightarrow> bool" where
  "back_ok c \<longleftrightarrow> (\<forall>n s. follows {41, 38, 59} s \<longrightarrow> parsebk n (wrap 2 c (cmd_text c) @ s) \<in> {NoFuel, case parsebacks c s of (c, s) \<Rightarrow> Ok c s})"

definition pipe_level_ok :: "cmd \<Rightarrow> bool" where
  "pipe_level_ok c \<longleftrightarrow> (\<forall>n s. follows {41, 38, 59} s \<longrightarrow> parsepipe n (wrap 1 c (cmd_text c) @ s) \<in> {NoFuel, Ok c (skip s)})"

definition exec_ok :: "cmd \<Rightarrow> bool" where
  "exec_ok c \<longleftrightarrow> (\<forall>n s. follows ends_exec s \<longrightarrow> parseexec n (wrap 0 c (cmd_text c) @ s) \<in> {NoFuel, Ok c (skip s)})"


lemma resI: "r \<noteq> NoFuel \<Longrightarrow> r = x \<Longrightarrow> r \<in> {NoFuel, x}" "(r \<noteq> NoFuel \<Longrightarrow> r = x) \<Longrightarrow> r \<in> {NoFuel, x}"
  by auto

lemma exec_pipe:
  assumes "exec_ok c" and "wrap 1 c (cmd_text c) = wrap 0 c (cmd_text c)"
  shows "pipe_level_ok c"
  unfolding pipe_level_ok_def
proof (intro allI impI)
  fix n s assume s: "follows {41, 38, 59} s"
  have np: "\<not> peek s {124}" using s by (rule follows_peek) simp
  have "follows ends_exec s" using s by (rule follows_mono) auto
  then have H: "parseexec m (wrap 1 c (cmd_text c) @ s) \<in> {NoFuel, Ok c (skip s)}" for m using assms by (simp add: exec_ok_def)
  show "parsepipe n (wrap 1 c (cmd_text c) @ s) \<in> {NoFuel, Ok c (skip s)}"
  proof (cases n)
    case (Suc m)
    show ?thesis using H [of m] np unfolding Suc parsepipe.simps by (elim insertE emptyE) simp_all
  qed simp
qed

lemma pipe_back:
  assumes "pipe_level_ok c" and "wrap 2 c (cmd_text c) = wrap 1 c (cmd_text c)"
  shows "back_ok c"
  unfolding back_ok_def
proof (intro allI impI)
  fix n s assume "follows {41, 38, 59} s"
  then have "parsepipe n (wrap 2 c (cmd_text c) @ s) \<in> {NoFuel, Ok c (skip s)}" using assms by (simp add: pipe_level_ok_def)
  then show "parsebk n (wrap 2 c (cmd_text c) @ s) \<in> {NoFuel, case parsebacks c s of (c, s) \<Rightarrow> Ok c s}" unfolding parsebk_def by (elim insertE emptyE) simp_all
qed

lemma parseline_back:
  "parseline (Suc n) ps = pbind (parsebk n ps) (\<lambda>c s. if peek s {59} then pbind (parseline n (tok_rest s)) (\<lambda>d s. Ok (LIST c d) s) else Ok c (skip s))"
  by (cases "parsepipe n ps") (simp_all add: parsebk_def split: prod.splits)

lemma back_line:
  assumes "back_ok c" and "cmd_level c \<le> 2"
  shows "line_ok c"
  unfolding line_ok_def
proof (intro allI impI)
  fix n s assume s: "follows {41} s"
  have np: "\<not> peek s {59}" using s by (rule follows_peek) simp
  have "\<not> peek s {38}" using s by (rule follows_peek) simp
  then have b: "parsebacks c s = (c, skip s)" by (simp add: parsebacks.simps [of c s])
  have "follows {41, 38, 59} s" using s by (rule follows_mono) auto
  then have H: "parsebk m (cmd_text c @ s) \<in> {NoFuel, Ok c (skip s)}" for m using assms b unfolding back_ok_def wrap_def by fastforce
  show "parseline n (cmd_text c @ s) \<in> {NoFuel, Ok c (skip s)}"
  proof (cases n)
    case (Suc m)
    show ?thesis using H [of m] np unfolding Suc parseline_back by (elim insertE emptyE) simp_all
  qed simp
qed

lemma block_exec:
  assumes l: "line_ok b" and b: "0 < cmd_level b" and rs: "list_all redir_ok rs" and s: "follows ends_exec s"
  shows "parseexec n (wrap 0 b (cmd_text b) @ redirs_text rs @ s) \<in> {NoFuel, Ok (redircmd b rs) (skip s)}"
proof -
  let ?t = "redirs_text rs @ s"
  have bs: "boundary s" "\<not> peek s {60, 62}" using follows_boundary [OF s] follows_peek [OF s, of "{60, 62}"] by simp_all
  have w: "wrap 0 b (cmd_text b) @ ?t = 40 # cmd_text b @ 41 # ?t" using b by (simp add: wrap_def)
  have "\<forall>m. parseline m (cmd_text b @ 41 # ?t) \<in> {NoFuel, Ok b (skip (41 # ?t))}" using l follows_sym [OF in_symbols(7), of "{41}" ?t] unfolding line_ok_def by blast
  then have B: "parseblock (Suc m) (40 # cmd_text b @ 41 # ?t) \<in> {NoFuel, Ok (redircmd b rs) (skip s)}" for m
    using parseredirs_text [OF rs bs, of "[]"] unfolding parseblock.simps by (elim allE [of _ m] insertE emptyE) (simp_all add: line_ok_def)
  have "parseblock m (40 # cmd_text b @ 41 # ?t) \<in> {NoFuel, Ok (redircmd b rs) (skip s)}" for m
  proof (cases m)
    case (Suc k)
    then show ?thesis using B by blast
  qed simp
  then show ?thesis unfolding w by (cases n) simp_all
qed

lemma exec_base:
  assumes "cmd_ok c" and "0 < cmd_level (base c) \<Longrightarrow> line_ok (base c)"
  shows "exec_ok c"
  unfolding exec_ok_def
proof (intro allI impI)
  fix n s assume s: "follows ends_exec s"
  note ok = base_ok [OF assms(1)]
  let ?t = "redirs_text (redirs c) @ s"
  have e: "wrap 0 c (cmd_text c) @ s = wrap 0 (base c) (cmd_text (base c)) @ ?t" by (subst base_text) simp
  show "parseexec n (wrap 0 c (cmd_text c) @ s) \<in> {NoFuel, Ok c (skip s)}"
  proof (cases "0 < cmd_level (base c)")
    case True
    from block_exec [OF assms(2) [OF True] True conjunct2 [OF ok] s, of n] show ?thesis unfolding e redircmd_base .
  next
    case False
    then obtain args where a: "base c = EXEC args" using base_cases [of c] by auto
    have rc: "redircmd (EXEC args) (redirs c) = c" using redircmd_base [of c] unfolding a .
    have w: "wrap 0 (base c) (cmd_text (base c)) = concat (map (\<lambda>a. 32 # a) args)" by (simp add: a wrap_def)
    have bs: "boundary s" "\<not> peek s {60, 62}" "\<not> peek s {40}" using follows_boundary [OF s] follows_peek [OF s, of "{60, 62}"] follows_peek [OF s, of "{40}"] by simp_all
    have aok: "length args < MAXARGS" "list_all word_ok args" "list_all redir_ok (redirs c)" using ok a by simp_all
    have "parseexec (Suc m) (concat (map (\<lambda>a. 32 # a) args) @ ?t) = Ok c (skip s)" for m
    proof (cases args)
      case Nil
      have "\<not> peek ?t {40}" using bs(3) by (cases "redirs c") (auto simp: redir_text_def split: prod.splits)
      then show ?thesis using parseredirs_text [OF aok(3) bs(1,2), of "[]"] parseargs_end [OF s, of "[]" "redirs c"] rc by (simp add: Nil)
    next
      case (Cons x xs)
      let ?u = "concat (map (\<lambda>a. 32 # a) xs) @ ?t"
      have "boundary ?u" using boundary_redirs [OF bs(1), of "redirs c"] by (cases xs) (simp_all add: boundary_def whitespace_def)
      moreover have "word_ok x" using aok(2) Cons by simp
      ultimately have "peek (32 # x @ ?u) T \<longleftrightarrow> hd x \<in> T" "hd x \<notin> symbols" for T using gettoken_word(2,3) [of x ?u] by (simp_all add: peek_def skip_def whitespace_def)
      then have np: "\<not> peek (32 # x @ ?u) {40}" "\<not> peek (32 # x @ ?u) {60, 62}" by (auto simp: symbols_def)
      have "parseargs [] [] (32 # x @ ?u) = Ok c (skip s)"
        using parseargs_text [OF aok(2) _ _ aok(3) s, of "[]"] aok(1) Cons rc by simp
      then show ?thesis using np by (simp add: Cons parseredirs.simps [of "[]" "32 # x @ ?u"])
    qed
    then show ?thesis unfolding e w by (cases n) simp_all
  qed
qed

lemma wrap_eq: "j \<le> k \<Longrightarrow> cmd_level c \<le> j \<or> k < cmd_level c \<Longrightarrow> wrap k c t = wrap j c t"
  by (auto simp: wrap_def)

lemma pipe_cmd:
  assumes "exec_ok l" and "pipe_level_ok r"
  shows "pipe_level_ok (PIPE l r)"
  unfolding pipe_level_ok_def
proof (intro allI impI)
  fix n s assume s: "follows {41, 38, 59} s"
  let ?r = "wrap 1 r (cmd_text r) @ s"
  have w: "wrap 1 (PIPE l r) (cmd_text (PIPE l r)) @ s = wrap 0 l (cmd_text l) @ 124 # ?r" by (simp add: wrap_def)
  have "parseexec m (wrap 0 l (cmd_text l) @ 124 # ?r) \<in> {NoFuel, Ok l (skip (124 # ?r))}" for m using assms(1) follows_sym [OF in_symbols(2), of ends_exec ?r] unfolding exec_ok_def by blast
  moreover have "parsepipe m ?r \<in> {NoFuel, Ok r (skip s)}" for m using assms(2) s unfolding pipe_level_ok_def by blast
  ultimately have H: "parseexec m (wrap 0 l (cmd_text l) @ 124 # ?r) = NoFuel \<or> parseexec m (wrap 0 l (cmd_text l) @ 124 # ?r) = Ok l (124 # ?r) \<and> parsepipe m ?r \<in> {NoFuel, Ok r (skip s)}" for m by simp
  show "parsepipe n (wrap 1 (PIPE l r) (cmd_text (PIPE l r)) @ s) \<in> {NoFuel, Ok (PIPE l r) (skip s)}"
  proof (cases n)
    case (Suc m)
    show ?thesis using H [of m] unfolding w Suc parsepipe.simps by (elim disjE conjE insertE emptyE) simp_all
  qed simp
qed

lemma parsebacks_sym: "parsebacks c (38 # s) = parsebacks (BACK c) s"
  by (subst parsebacks.simps) simp

lemma back_cmd:
  assumes "back_ok d"
  shows "back_ok (BACK d)"
  unfolding back_ok_def
proof (intro allI impI)
  fix n s assume s: "follows {41, 38, 59} s"
  have w: "wrap 2 (BACK d) (cmd_text (BACK d)) @ s = wrap 2 d (cmd_text d) @ 38 # s" by (simp add: wrap_def)
  have "parsebk n (wrap 2 d (cmd_text d) @ 38 # s) \<in> {NoFuel, case parsebacks d (38 # s) of (c, s) \<Rightarrow> Ok c s}"
    using assms follows_sym [OF in_symbols(4), of "{41, 38, 59}" s] unfolding back_ok_def by blast
  then show "parsebk n (wrap 2 (BACK d) (cmd_text (BACK d)) @ s) \<in> {NoFuel, case parsebacks (BACK d) s of (c, s) \<Rightarrow> Ok c s}" unfolding w parsebacks_sym .
qed

lemma list_cmd:
  assumes "back_ok l" and "line_ok r"
  shows "line_ok (LIST l r)"
  unfolding line_ok_def
proof (intro allI impI)
  fix n s assume s: "follows {41} s"
  let ?r = "cmd_text r @ s"
  have w: "cmd_text (LIST l r) @ s = wrap 2 l (cmd_text l) @ 59 # ?r" by simp
  have b: "parsebacks l (59 # ?r) = (l, 59 # ?r)" by (subst parsebacks.simps) simp
  have "parsebk m (wrap 2 l (cmd_text l) @ 59 # ?r) \<in> {NoFuel, case parsebacks l (59 # ?r) of (c, s) \<Rightarrow> Ok c s}" for m
    using assms(1) follows_sym [OF in_symbols(5), of "{41, 38, 59}" ?r] unfolding back_ok_def by blast
  moreover have "parseline m ?r \<in> {NoFuel, Ok r (skip s)}" for m using assms(2) s unfolding line_ok_def by blast
  ultimately have H: "parsebk m (wrap 2 l (cmd_text l) @ 59 # ?r) = NoFuel \<or> parsebk m (wrap 2 l (cmd_text l) @ 59 # ?r) = Ok l (59 # ?r) \<and> parseline m ?r \<in> {NoFuel, Ok r (skip s)}" for m
    by (simp add: b)
  show "parseline n (cmd_text (LIST l r) @ s) \<in> {NoFuel, Ok (LIST l r) (skip s)}"
  proof (cases n)
    case (Suc m)
    show ?thesis using H [of m] unfolding w Suc parseline_back by (elim disjE conjE insertE emptyE) simp_all
  qed simp
qed

lemma printed_parses: "cmd_ok c \<Longrightarrow> exec_ok c \<and> pipe_level_ok c \<and> back_ok c \<and> line_ok c"
proof (induction c rule: measure_induct_rule [where f = size])
  case (less c)
  show ?case
  proof (cases c)
    case (EXEC args)
    then have e: "exec_ok c" by (intro exec_base less.prems) simp
    then have p: "pipe_level_ok c" by (rule exec_pipe) (rule wrap_eq, simp_all add: EXEC)
    then have b: "back_ok c" by (rule pipe_back) (rule wrap_eq, simp_all add: EXEC)
    then have "line_ok c" by (rule back_line) (simp add: EXEC)
    then show ?thesis using e p b by blast
  next
    case (REDIR c' f m d)
    have "base c \<noteq> c" using REDIR base_smaller [of c'] by (cases "base c' = c'") auto
    then have "line_ok (base c)" using less.IH [OF base_smaller] base_ok [OF less.prems] by blast
    then have e: "exec_ok c" by (intro exec_base less.prems) simp
    then have p: "pipe_level_ok c" by (rule exec_pipe) (rule wrap_eq, simp_all add: REDIR)
    then have b: "back_ok c" by (rule pipe_back) (rule wrap_eq, simp_all add: REDIR)
    then have "line_ok c" by (rule back_line) (simp add: REDIR)
    then show ?thesis using e p b by blast
  next
    case (PIPE l r)
    then have p: "pipe_level_ok c" using less.IH [of l] less.IH [of r] less.prems by (simp add: pipe_cmd)
    then have b: "back_ok c" by (rule pipe_back) (rule wrap_eq, simp_all add: PIPE)
    then have l: "line_ok c" by (rule back_line) (simp add: PIPE)
    then have "exec_ok c" by (intro exec_base less.prems) (simp add: PIPE)
    then show ?thesis using p b l by blast
  next
    case (LIST l r)
    then have l: "line_ok c" using less.IH [of l] less.IH [of r] less.prems by (simp add: list_cmd)
    then have e: "exec_ok c" by (intro exec_base less.prems) (simp add: LIST)
    then have p: "pipe_level_ok c" by (rule exec_pipe) (rule wrap_eq, simp_all add: LIST)
    then have "back_ok c" by (rule pipe_back) (rule wrap_eq, simp_all add: LIST)
    then show ?thesis using e p l by blast
  next
    case (BACK d)
    then have b: "back_ok c" using less.IH [of d] less.prems by (simp add: back_cmd)
    then have l: "line_ok c" by (rule back_line) (simp add: BACK)
    then have e: "exec_ok c" by (intro exec_base less.prems) (simp add: BACK)
    then have "pipe_level_ok c" by (rule exec_pipe) (rule wrap_eq, simp_all add: BACK)
    then show ?thesis using b l e by blast
  qed
qed

text \<open>C21: The parser of the shell ends on every line, whatever it contains: it returns a command with nothing left of the line or
  reports one of its errors.\<close>

theorem parsecmd_terminates:
  "(\<exists>c. parsecmd s = Ok c []) \<or> (\<exists>e. parsecmd s = Err e)"
  using parse_enough_fuel(1) [of s "4 * length s + 4"] by (cases "parseline (4 * length s + 4) s") (auto simp: parsecmd_def)

text \<open>C11: A command written out with parentheses where the grammar needs them is parsed back into itself: words, redirections, pipelines, lists
  and background commands nested in any way, with at most nine words in each simple command.\<close>

theorem parsecmd_roundtrip:
  assumes "cmd_ok c"
  shows "parsecmd (cmd_text c) = Ok c []"
proof -
  let ?s = "cmd_text c"
  have "parseline (4 * length ?s + 4) ?s \<noteq> NoFuel" by (rule parse_enough_fuel) simp
  moreover have "follows {41} []" by (simp add: follows_def skip_def)
  then have "parseline (4 * length ?s + 4) (?s @ []) \<in> {NoFuel, Ok c (skip [])}" using printed_parses [OF assms] unfolding line_ok_def by blast
  ultimately show ?thesis by (auto simp: parsecmd_def skip_def)
qed

theorem parsecmd_roundtrip_witness:
  "parsecmd [40, 32, 97, 60, 102, 124, 32, 98, 59, 32, 99, 38, 41, 62, 103] = Ok (REDIR (LIST (PIPE (REDIR (EXEC [[97]]) [102] 0 0) (EXEC [[98]])) (BACK (EXEC [[99]]))) [103] 0x201 1) []"
proof -
  let ?c = "REDIR (LIST (PIPE (REDIR (EXEC [[97]]) [102] 0 0) (EXEC [[98]])) (BACK (EXEC [[99]]))) [103] 0x201 1"
  have "cmd_ok ?c" by (simp add: word_ok_def redir_ok_def whitespace_def symbols_def MAXARGS_def sh_RDONLY_def sh_WRCREATE_def)
  from parsecmd_roundtrip [OF this] show ?thesis by (simp add: wrap_def redir_text_def)
qed

section \<open>Running a command\<close>

text \<open>
  \<open>runcmd\<close> as the system calls a process makes, in order; a forked child is a list of its own. What the calls return is the environment:
  whether a file can be opened, a program run, a pipe made and a process forked. \<open>exec\<close> returns only if it fails. The two descriptors of a new pipe are
  \<open>PipeR\<close> and \<open>PipeW\<close>.
\<close>

datatype fd = Fd int | PipeR | PipeW

datatype act =
    Exec "byte list list" | Open "byte list" int | Close fd | Dup fd | Pipe | Fork "act list" | Wait | Chdir "byte list" | Print "byte list" | Exit

record shenv =
  can_open :: "byte list \<Rightarrow> int \<Rightarrow> bool"
  can_exec :: "byte list list \<Rightarrow> bool"
  can_chdir :: "byte list \<Rightarrow> bool"
  can_pipe :: bool
  can_fork :: bool

definition sh_panic :: "byte list \<Rightarrow> act list" where
  "sh_panic m = [Print (m @ [10]), Exit]"

definition fork1 :: "shenv \<Rightarrow> act list \<Rightarrow> act list \<Rightarrow> act list" where
  "fork1 e child parent = (if can_fork e then Fork child # parent else sh_panic [102, 111, 114, 107])"

primrec runcmd :: "shenv \<Rightarrow> cmd \<Rightarrow> act list" where
  "runcmd e (EXEC argv) =
     (case argv of
        [] \<Rightarrow> [Exit]
      | p # _ \<Rightarrow>
          if can_exec e argv then [Exec argv]
          else [Exec argv, Print ([101, 120, 101, 99, 32] @ p @ [32, 102, 97, 105, 108, 101, 100, 10]), Exit])"
| "runcmd e (REDIR c f m d) =
     Close (Fd d) # Open f m #
     (if \<not> can_open e f m then [Print ([111, 112, 101, 110, 32] @ f @ [32, 102, 97, 105, 108, 101, 100, 10]), Exit]
      else runcmd e c)"
| "runcmd e (LIST l r) = fork1 e (runcmd e l) (Wait # runcmd e r)"
| "runcmd e (PIPE l r) =
     Pipe #
     (if \<not> can_pipe e then sh_panic [112, 105, 112, 101]
      else
        fork1 e ([Close (Fd 1), Dup PipeW, Close PipeR, Close PipeW] @ runcmd e l) (
        fork1 e ([Close (Fd 0), Dup PipeR, Close PipeR, Close PipeW] @ runcmd e r)
          [Close PipeR, Close PipeW, Wait, Wait, Exit]))"
| "runcmd e (BACK c) = fork1 e (runcmd e c) [Exit]"

text \<open>Every process a command starts ends, by running a program or by exiting, and after that makes no call.\<close>

fun ends1 :: "act \<Rightarrow> bool" where
  "ends1 (Fork as) \<longleftrightarrow> as \<noteq> [] \<and> (\<forall>a \<in> set as. ends1 a) \<and> (last as = Exit \<or> (\<exists>v. last as = Exec v)) \<and> Exit \<notin> set (butlast as)"
| "ends1 _ = True"

lemma fork1_ends: "ends1 (Fork as) \<Longrightarrow> ends1 (Fork ps) \<Longrightarrow> ends1 (Fork (fork1 e as ps))"
  by (auto simp: fork1_def sh_panic_def)

lemma ends1_Cons: "ends1 (Fork as) \<Longrightarrow> ends1 a \<Longrightarrow> a \<noteq> Exit \<Longrightarrow> ends1 (Fork (a # as))"
  by auto

lemma runcmd_ends: "ends1 (Fork (runcmd e c))"
proof (induction c)
  case (EXEC argv)
  then show ?case by (auto split: list.splits)
next
  case (PIPE l r)
  let ?t = "[Close PipeR, Close PipeW, Wait, Wait, Exit]"
  have "ends1 (Fork ([Close (Fd 1), Dup PipeW, Close PipeR, Close PipeW] @ runcmd e l))" "ends1 (Fork ([Close (Fd 0), Dup PipeR, Close PipeR, Close PipeW] @ runcmd e r))" "ends1 (Fork ?t)"
    using PIPE.IH by auto
  then have "ends1 (Fork (fork1 e ([Close (Fd 1), Dup PipeW, Close PipeR, Close PipeW] @ runcmd e l) (fork1 e ([Close (Fd 0), Dup PipeR, Close PipeR, Close PipeW] @ runcmd e r) ?t)))"
    by (intro fork1_ends)
  then show ?case by (cases "can_pipe e") (simp_all del: ends1.simps(1) add: ends1_Cons, simp add: sh_panic_def)
next
  case (REDIR c f m d)
  then show ?case by auto
next
  case (LIST l r)
  then have "ends1 (Fork (Wait # runcmd e r))" by auto
  then show ?case using LIST.IH(1) by (simp del: ends1.simps(1) add: fork1_ends)
next
  case (BACK c)
  have "ends1 (Fork [Exit])" by simp
  then show ?case using BACK.IH by (simp del: ends1.simps(1) add: fork1_ends)
qed

text \<open>
  The loop of \<open>main\<close>, on the characters typed. \<open>cd\<close> is done by the shell itself, which chops the last character of the line. A syntax
  error is printed by the child, after what is left of the line when there is a command before it. First the console is opened until three descriptors are open; \<open>n\<close> is the
  number of those open at the start.
\<close>

definition leftovers :: "byte list \<Rightarrow> act list" where
  "leftovers buf =
     (case parseline (4 * length buf + 4) buf of
        Ok _ s \<Rightarrow> [Print ([108, 101, 102, 116, 111, 118, 101, 114, 115, 58, 32] @ skip s @ [10])]
      | _ \<Rightarrow> [])"

definition sh_line :: "shenv \<Rightarrow> byte list \<Rightarrow> act list" where
  "sh_line e buf =
     (if take 3 buf = [99, 100, 32] then
        let d = drop 3 (butlast buf)
        in Chdir d # (if can_chdir e d then [] else [Print ([99, 97, 110, 110, 111, 116, 32, 99, 100, 32] @ d @ [10])])
      else
        fork1 e (case parsecmd buf of Ok c _ \<Rightarrow> runcmd e c | Err m \<Rightarrow> leftovers buf @ sh_panic (map of_char m) | NoFuel \<Rightarrow> []) [Wait])"

lemma gets_loop_shorter: "gets_loop k inp = (xs, r) \<Longrightarrow> xs \<noteq> [] \<Longrightarrow> length r < length inp"
proof -
  assume a: "gets_loop k inp = (xs, r)" "xs \<noteq> []"
  have "length (fst (gets_loop k inp)) + length (snd (gets_loop k inp)) \<le> length inp" for k
    by (induction k arbitrary: inp) (auto simp: case_prod_beta split: list.splits)
  from this [of k] a show ?thesis by (cases xs) auto
qed

function sh_loop :: "shenv \<Rightarrow> byte list \<Rightarrow> act list" where
  "sh_loop e inp =
     (case gets_loop 99 inp of (buf, r) \<Rightarrow>
        if buf = [] then [Exit]
        else sh_line e buf @ (if can_fork e \<or> take 3 buf = [99, 100, 32] then sh_loop e r else []))"
  by pat_completeness auto
termination
  by (relation "measure (\<lambda>(e, inp). length inp)") (auto dest: gets_loop_shorter [OF sym])

declare sh_loop.simps [simp del]

function sh_open :: "shenv \<Rightarrow> nat \<Rightarrow> act list" where
  "sh_open e n =
     Open [99, 111, 110, 115, 111, 108, 101] 2 #
     (if \<not> can_open e [99, 111, 110, 115, 111, 108, 101] 2 then []
      else if 3 \<le> n then [Close (Fd (int n))] else sh_open e (Suc n))"
  by pat_completeness auto
termination
  by (relation "measure (\<lambda>(e, n). 3 - n)") auto

declare sh_open.simps [simp del]

definition sh_main :: "shenv \<Rightarrow> nat \<Rightarrow> byte list \<Rightarrow> act list" where
  "sh_main e n inp = sh_open e n @ sh_loop e inp"

end
