(* ===== verification/Projshell.thy ===== *)
theory Projshell
  imports Ulib
begin

text \<open>
  The course shell of proj_shell/src/shell.c, a program for the host system. It reads a line, splits it into commands at semicolons and each command into
  words at blanks, and runs the commands one after the other. The C library's \<open>strtok\<close> and \<open>getline\<close> are modelled as far as the shell uses them; the
  program run by a command is an action of the trace. The theorem says which actions a line gives.
\<close>

section \<open>Lines and words\<close>

definition blank :: "byte \<Rightarrow> bool" where
  "blank c \<longleftrightarrow> c = 32 \<or> c = 9 \<or> c = 10"

text \<open>
  \<open>trim\<close> moves the string to the front over the leading blanks, finds the index of its last character that is not a blank (\<open>-1\<close> if there is none)
  and cuts it after that.
\<close>

primrec last_mark :: "int \<Rightarrow> int \<Rightarrow> byte list \<Rightarrow> int" where
  "last_mark i ix [] = ix"
| "last_mark i ix (c # s) = last_mark (i + 1) (if \<not> blank c then i else ix) s"

definition trim :: "byte list \<Rightarrow> byte list" where
  "trim str = (let s = dropWhile blank str in take (nat (last_mark 0 (- 1) s + 1)) s)"

text \<open>The tokens that repeated calls of \<open>strtok\<close> return.\<close>

function strtok :: "(byte \<Rightarrow> bool) \<Rightarrow> byte list \<Rightarrow> byte list list" where
  "strtok sep s =
     (case dropWhile sep s of
        [] \<Rightarrow> []
      | c # t \<Rightarrow> takeWhile (\<lambda>c. \<not> sep c) (c # t) # strtok sep (dropWhile (\<lambda>c. \<not> sep c) (c # t)))"
  by pat_completeness auto
termination
proof (relation "measure (\<lambda>(sep, s). length s)")
  fix sep :: "byte \<Rightarrow> bool" and s c t
  assume a: "dropWhile sep s = c # t"
  then have "\<not> sep c" using hd_dropWhile [of sep s] by auto
  then have "dropWhile (\<lambda>c. \<not> sep c) (c # t) = dropWhile (\<lambda>c. \<not> sep c) t" by simp
  also have "length \<dots> \<le> length t" by (rule length_dropWhile_le)
  also have "\<dots> < length s" using length_dropWhile_le [of sep s] a by simp
  finally show "((sep, dropWhile (\<lambda>c. \<not> sep c) (c # t)), sep, s) \<in> measure (\<lambda>(sep, s). length s)" by simp
qed simp

declare strtok.simps [simp del]

text \<open>
  The arrays that \<open>get_parsed\<close> and \<open>get_parsed2\<close> allocate have \<open>bsize\<close> entries, and one is needed for the null pointer at the end; with more tokens the
  functions write past the array, which is \<open>None\<close>.
\<close>

definition get_parsed :: "byte list \<Rightarrow> nat \<Rightarrow> byte list list option" where
  "get_parsed input bsize = (let ws = strtok blank input in if length ws < bsize then Some ws else None)"

definition get_parsed2 :: "byte list \<Rightarrow> nat \<Rightarrow> byte list list option" where
  "get_parsed2 input bsize =
     (let cs = strtok (\<lambda>c. c = 59) input in if length cs < bsize then Some (map trim cs) else None)"

text \<open>
  \<open>get_line\<close> gets the line with its newline; \<open>None\<close> is the end of the input, where \<open>getline\<close> returns \<open>-1\<close>. As an unsigned number this is larger than every buffer size, so
  the loop that doubles the size does not end.
\<close>

datatype gline = Again | Hang | Line "byte list" nat

function grow_size :: "nat \<Rightarrow> nat \<Rightarrow> nat" where
  "grow_size r bsize = (if r > bsize \<and> 0 < bsize then grow_size r (bsize * 2) else bsize)"
  by pat_completeness auto
termination
  by (relation "measure (\<lambda>(r, bsize). r - bsize)") auto

declare grow_size.simps [simp del]

definition get_line :: "byte list option \<Rightarrow> nat \<Rightarrow> gline" where
  "get_line input bsize =
     (case input of
        None \<Rightarrow> Hang
      | Some l \<Rightarrow> if length l \<le> 1 then Again else Line (butlast l) (grow_size (length l) bsize))"

section \<open>Running a line\<close>

text \<open>
  What the shell does with the commands of a line: run a program in a child and wait for it, change the directory, quit. \<open>Crash\<close> is
  undefined behaviour: a null pointer passed to \<open>strcmp\<close>, or a write past an array.
\<close>

datatype pact = Run "byte list list" | Cd "byte list" | Quit | Crash

definition BUFFER_SIZE :: nat where "BUFFER_SIZE = 50"

primrec run_cmds :: "nat \<Rightarrow> byte list list \<Rightarrow> pact list" where
  "run_cmds bsize [] = []"
| "run_cmds bsize (c # cs) =
     (case get_parsed c bsize of
        None \<Rightarrow> [Crash]
      | Some ws \<Rightarrow>
          (case ws of
             [] \<Rightarrow> [Crash]
           | w # args \<Rightarrow>
               if w = [113, 117, 105, 116] then [Quit]
               else if w = [99, 100] then
                 Cd (case args of [] \<Rightarrow> [47] | d # _ \<Rightarrow> d) # run_cmds BUFFER_SIZE cs
               else Run ws # run_cmds BUFFER_SIZE cs))"

definition interactive :: "byte list option \<Rightarrow> pact list" where
  "interactive input =
     (case get_line input BUFFER_SIZE of
        Line l bsize \<Rightarrow> (case get_parsed2 l bsize of None \<Rightarrow> [Crash] | Some cs \<Rightarrow> run_cmds bsize cs)
      | _ \<Rightarrow> [])"

text \<open>In batch mode every command is run as a program, also \<open>cd\<close> and \<open>quit\<close>; an empty one gives \<open>execvp\<close> a null pointer.\<close>

primrec batch_cmds :: "byte list list \<Rightarrow> pact list" where
  "batch_cmds [] = []"
| "batch_cmds (c # cs) =
     (case get_parsed c BUFFER_SIZE of
        None \<Rightarrow> [Crash]
      | Some ws \<Rightarrow> (if ws = [] then Crash else Run ws) # batch_cmds cs)"

definition batch :: "byte list \<Rightarrow> pact list" where
  "batch line = (case get_parsed2 (butlast line) BUFFER_SIZE of None \<Rightarrow> [Crash] | Some cs \<Rightarrow> batch_cmds cs)"

section \<open>Facts\<close>

lemma last_mark_spec: "last_mark i ix s = (if \<forall>c \<in> set s. blank c then ix else i + int (length s - length (takeWhile blank (rev s))) - 1)"
proof (induction s arbitrary: i ix)
  case (Cons c s)
  show ?case
  proof (cases "\<forall>c \<in> set s. blank c")
    case True
    then have "takeWhile blank (rev s @ [c]) = rev s @ (if blank c then [c] else [])" using takeWhile_append2 [of "rev s" blank "[c]"] by simp
    then show ?thesis using True by (auto simp: Cons.IH)
  next
    case False
    then obtain x where x: "x \<in> set (rev s)" "\<not> blank x" by auto
    then have t: "takeWhile blank (rev s @ [c]) = takeWhile blank (rev s)" by (rule takeWhile_append1)
    have "length (takeWhile blank (rev s)) \<le> length s" using length_takeWhile_le [of blank "rev s"] by simp
    then show ?thesis using False t by (auto simp: Cons.IH Suc_diff_le)
  qed
qed simp

lemma trim_spec: "trim s = rev (dropWhile blank (rev (dropWhile blank s)))"
proof -
  let ?s = "dropWhile blank s"
  have d: "rev (dropWhile blank (rev ?s)) = take (length ?s - length (takeWhile blank (rev ?s))) ?s"
    by (metis length_rev dropWhile_eq_drop rev_drop rev_rev_ident)
  show ?thesis
  proof (cases "\<forall>c \<in> set ?s. blank c")
    case True
    then have n: "?s = []" by (metis dropWhile_eq_Nil_conv dropWhile_idem)
    show ?thesis unfolding trim_def Let_def n by simp
  next
    case False
    show ?thesis unfolding d trim_def Let_def last_mark_spec if_not_P [OF False] by simp
  qed
qed

lemma strtok_all: "\<forall>c \<in> set s. sep c \<Longrightarrow> strtok sep s = []"
proof -
  assume "\<forall>c \<in> set s. sep c"
  then have n: "dropWhile sep s = []" by (simp add: dropWhile_eq_Nil_conv)
  show ?thesis unfolding strtok.simps [of sep s] n by simp
qed

lemma strtok_blanks: "\<forall>c \<in> set b. sep c \<Longrightarrow> strtok sep (b @ s) = strtok sep s"
proof -
  assume "\<forall>c \<in> set b. sep c"
  then have n: "dropWhile sep (b @ s) = dropWhile sep s" by (intro dropWhile_append2) blast
  show ?thesis unfolding strtok.simps [of sep "b @ s"] n strtok.simps [of sep s, symmetric] ..
qed

lemma strtok_snoc: "\<forall>c \<in> set b. sep c \<Longrightarrow> strtok sep (s @ b) = strtok sep s"
proof (induction sep s rule: strtok.induct)
  case (1 sep s)
  show ?case
  proof (cases "dropWhile sep s")
    case Nil
    then have "\<forall>c \<in> set (s @ b). sep c" "\<forall>c \<in> set s. sep c" using "1.prems" by (auto simp: dropWhile_eq_Nil_conv)
    then show ?thesis using strtok_all [of "s @ b" sep] strtok_all [of s sep] by simp
  next
    case (Cons c t)
    let ?r = "c # t"
    have c: "\<not> sep c" using hd_dropWhile [of sep s] Cons by auto
    obtain x where x: "x \<in> set s" "\<not> sep x" using Cons by (metis dropWhile_eq_Nil_conv list.distinct(1))
    have d: "dropWhile sep (s @ b) = ?r @ b" using dropWhile_append1 [of x s sep b] x Cons by simp
    have e: "takeWhile (\<lambda>c. \<not> sep c) (?r @ b) = takeWhile (\<lambda>c. \<not> sep c) ?r \<and> strtok sep (dropWhile (\<lambda>c. \<not> sep c) (?r @ b)) = strtok sep (dropWhile (\<lambda>c. \<not> sep c) ?r)"
    proof (cases "\<exists>y \<in> set ?r. sep y")
      case True
      then obtain y where y: "y \<in> set ?r" "\<not> \<not> sep y" by blast
      have "takeWhile (\<lambda>c. \<not> sep c) (?r @ b) = takeWhile (\<lambda>c. \<not> sep c) ?r" using y by (rule takeWhile_append1)
      moreover have "dropWhile (\<lambda>c. \<not> sep c) (?r @ b) = dropWhile (\<lambda>c. \<not> sep c) ?r @ b" using y by (rule dropWhile_append1)
      ultimately show ?thesis using "1.IH" [OF Cons "1.prems"] by simp
    next
      case False
      then have n: "\<And>y. y \<in> set ?r \<Longrightarrow> \<not> sep y" by blast
      have t: "takeWhile (\<lambda>c. \<not> sep c) b = []" "dropWhile (\<lambda>c. \<not> sep c) b = b" using "1.prems" by (cases b, simp_all)+
      have "takeWhile (\<lambda>c. \<not> sep c) (?r @ b) = ?r" "dropWhile (\<lambda>c. \<not> sep c) (?r @ b) = b" "takeWhile (\<lambda>c. \<not> sep c) ?r = ?r" "dropWhile (\<lambda>c. \<not> sep c) ?r = []"
        using takeWhile_append2 [of ?r "\<lambda>c. \<not> sep c" b, OF n] dropWhile_append2 [of ?r "\<lambda>c. \<not> sep c" b, OF n] t n by (auto simp: takeWhile_eq_all_conv dropWhile_eq_Nil_conv)
      then show ?thesis using strtok_all [OF "1.prems"] strtok_all [of "[]" sep] by simp
    qed
    show ?thesis unfolding strtok.simps [of sep "s @ b"] strtok.simps [of sep s] d Cons using e by simp
  qed
qed

text \<open>Trimming a command does not change its words.\<close>

lemma trim_words: "strtok blank (trim s) = strtok blank s"
proof -
  let ?s = "dropWhile blank s"
  have a: "s = takeWhile blank s @ ?s" by simp
  have b: "?s = trim s @ rev (takeWhile blank (rev ?s))" unfolding trim_spec by (metis rev_append rev_rev_ident takeWhile_dropWhile_id)
  have "strtok blank s = strtok blank ?s" by (subst a, rule strtok_blanks) (auto dest: set_takeWhileD)
  also have "\<dots> = strtok blank (trim s)" by (subst b, rule strtok_snoc) (auto dest: set_takeWhileD)
  finally show ?thesis ..
qed

lemma strtok_length: "length (strtok sep s) \<le> length s"
proof (induction sep s rule: strtok.induct)
  case (1 sep s)
  show ?case
  proof (cases "dropWhile sep s")
    case Nil
    then have "strtok sep s = []" unfolding strtok.simps [of sep s] Nil by (simp only: list.case)
    then show ?thesis by simp
  next
    case (Cons c t)
    have c: "\<not> sep c" using hd_dropWhile [of sep s] Cons by auto
    have "length (strtok sep s) = Suc (length (strtok sep (dropWhile (\<lambda>c. \<not> sep c) (c # t))))" unfolding strtok.simps [of sep s] Cons by simp
    also have "\<dots> \<le> Suc (length (dropWhile (\<lambda>c. \<not> sep c) (c # t)))" using "1.IH" [OF Cons] by simp
    also have "\<dots> \<le> Suc (length t)" using c length_dropWhile_le [of "\<lambda>c. \<not> sep c" t] by simp
    also have "\<dots> \<le> length s" using length_dropWhile_le [of sep s] Cons by simp
    finally show ?thesis .
  qed
qed

lemma strtok_piece: "w \<in> set (strtok sep s) \<Longrightarrow> length w \<le> length s"
proof (induction sep s rule: strtok.induct)
  case (1 sep s)
  show ?case
  proof (cases "dropWhile sep s")
    case Nil
    then have "strtok sep s = []" unfolding strtok.simps [of sep s] Nil by (simp only: list.case)
    then show ?thesis using "1.prems" by simp
  next
    case (Cons c t)
    let ?r = "c # t"
    have r: "length ?r \<le> length s" using length_dropWhile_le [of sep s] Cons by simp
    have e: "strtok sep s = takeWhile (\<lambda>c. \<not> sep c) ?r # strtok sep (dropWhile (\<lambda>c. \<not> sep c) ?r)" unfolding strtok.simps [of sep s] Cons by simp
    from "1.prems" consider "w = takeWhile (\<lambda>c. \<not> sep c) ?r" | "w \<in> set (strtok sep (dropWhile (\<lambda>c. \<not> sep c) ?r))" unfolding e by auto
    then show ?thesis
    proof cases
      case 1
      have "length w \<le> length ?r" unfolding 1 by (rule length_takeWhile_le)
      then show ?thesis using r by simp
    next
      case 2
      then have "length w \<le> length (dropWhile (\<lambda>c. \<not> sep c) ?r)" using "1.IH" [OF Cons] by blast
      also have "\<dots> \<le> length ?r" by (rule length_dropWhile_le)
      finally show ?thesis using r by simp
    qed
  qed
qed

lemma grow_size_enough: "0 < bsize \<Longrightarrow> r \<le> grow_size r bsize \<and> bsize \<le> grow_size r bsize"
  by (induction r bsize rule: grow_size.induct) (subst (1 2) grow_size.simps, fastforce)

text \<open>What a line of commands, each given by its words, asks the shell to do.\<close>

primrec plan :: "byte list list list \<Rightarrow> pact list" where
  "plan [] = []"
| "plan (ws # cs) =
     (if ws = [] then [Crash]
      else if hd ws = [113, 117, 105, 116] then [Quit]
      else (if hd ws = [99, 100] then Cd (if tl ws = [] then [47] else hd (tl ws)) else Run ws) # plan cs)"

lemma run_cmds_plan:
  assumes "length (strtok blank (hd cs)) < bsize" and "\<forall>c \<in> set (tl cs). length (strtok blank c) < BUFFER_SIZE"
  shows "run_cmds bsize (map trim cs) = plan (map (strtok blank) cs)"
  using assms
proof (induction cs arbitrary: bsize)
  case (Cons c cs)
  have "run_cmds BUFFER_SIZE (map trim cs) = plan (map (strtok blank) cs)"
  proof (cases cs)
    case (Cons d ds)
    then show ?thesis using Cons.IH [of BUFFER_SIZE] Cons.prems(2) by simp
  qed simp
  then show ?case using Cons.prems(1) by (cases "strtok blank c") (auto simp: get_parsed_def Let_def trim_words split: list.splits)
qed simp

text \<open>C33: The course shell runs the commands of a line. The line, without its last character, is split at the semicolons and each command at blanks; for every command in
  order, \<open>quit\<close> ends the shell, \<open>cd\<close> changes to the directory named or to the root, and anything else is run with its words. This holds when every command after
  the first has less than fifty words. A command without words, as in \<open>;\<close> after a blank, makes the shell crash.\<close>

theorem interactive_runs_commands:
  assumes "1 < length l" and "\<forall>c \<in> set (tl (strtok (\<lambda>c. c = 59) (butlast l))). length (strtok blank c) < BUFFER_SIZE"
  shows "interactive (Some l) = plan (map (strtok blank) (strtok (\<lambda>c. c = 59) (butlast l)))"
proof -
  let ?b = "grow_size (length l) BUFFER_SIZE" and ?cs = "strtok (\<lambda>c. c = 59) (butlast l)"
  have b: "length l \<le> ?b" using grow_size_enough [of BUFFER_SIZE "length l"] by (simp add: BUFFER_SIZE_def)
  then have "length (butlast l) < ?b" using assms(1) by simp
  then have n: "length ?cs < ?b" using strtok_length [of "\<lambda>c. c = 59" "butlast l"] by simp
  have "?cs \<noteq> [] \<Longrightarrow> length (strtok blank (hd ?cs)) < ?b"
    using strtok_length [of blank "hd ?cs"] strtok_piece [of "hd ?cs" "\<lambda>c. c = 59" "butlast l"] \<open>length (butlast l) < ?b\<close> by simp
  then have "run_cmds ?b (map trim ?cs) = plan (map (strtok blank) ?cs)"
    using run_cmds_plan [of ?cs ?b] assms(2) by (cases ?cs) simp_all
  then show ?thesis using assms(1) n by (simp add: interactive_def get_line_def get_parsed2_def Let_def)
qed

theorem interactive_runs_commands_witness:
  "interactive (Some [108, 115, 32, 97, 59, 32, 99, 100, 59, 113, 117, 105, 116, 10]) = [Run [[108, 115], [97]], Cd [47], Quit] \<and> interactive (Some [32, 59, 108, 115, 10]) = [Crash]"
proof -
  have a: "strtok (\<lambda>c. c = 59) (butlast [108, 115, 32, 97, 59, 32, 99, 100, 59, 113, 117, 105, 116, 10]) = [[108, 115, 32, 97], [32, 99, 100], [113, 117, 105, 116]]"
    by (simp add: strtok.simps)
  have b: "strtok (\<lambda>c. c = 59) (butlast [32, 59, 108, 115, 10]) = [[32], [108, 115]]" by (simp add: strtok.simps)
  have w: "strtok blank [108, 115, 32, 97] = [[108, 115], [97]]" "strtok blank [32, 99, 100] = [[99, 100]]" "strtok blank [113, 117, 105, 116] = [[113, 117, 105, 116]]"
    "strtok blank [32] = []" "strtok blank [108, 115] = [[108, 115]]" by (simp_all add: strtok.simps blank_def)
  have "interactive (Some [108, 115, 32, 97, 59, 32, 99, 100, 59, 113, 117, 105, 116, 10]) = [Run [[108, 115], [97]], Cd [47], Quit]"
    by (subst interactive_runs_commands) (simp_all add: a w BUFFER_SIZE_def del: butlast.simps)
  moreover have "interactive (Some [32, 59, 108, 115, 10]) = [Crash]"
    by (subst interactive_runs_commands) (simp_all add: b w BUFFER_SIZE_def del: butlast.simps)
  ultimately show ?thesis ..
qed

text \<open>A later command of a line with fifty words overruns its array, although the first one may have as many as the line holds.\<close>

lemma later_command_overruns:
  assumes "strtok blank c = [w]" and "w \<noteq> [113, 117, 105, 116]" and "w \<noteq> [99, 100]" and "BUFFER_SIZE \<le> length (strtok blank d)" and "1 < bsize"
  shows "run_cmds bsize [c, d] = [Run [w], Crash]"
  using assms by (simp add: get_parsed_def Let_def)

end
