(* ===== verification/Mkfs.thy ===== *)
theory Mkfs
  imports Filedata "HOL-Library.Multiset"
begin

text \<open>
  The program that builds a file system image (\<^verbatim>\<open>src/xv6-public/mkfs.c\<close>). It runs on the host and shares with the kernel only the layout of \<open>fs.h\<close>; the
  structures it writes are packed with the operations of \<open>Fs\<close> (\<open>put_dinode\<close>, \<open>de_pack\<close>), which lay out the same structures in the same byte order
  (\<open>xint\<close> and \<open>xshort\<close>). The theorems compose it with the kernel: what \<open>mkfs\<close> puts into a file is what \<open>ilock\<close> and \<open>readi\<close> find there.
\<close>

section \<open>The program\<close>

text \<open>
  The image is a file of sectors; sectors that were never written read as zeros. A failed system call, a failed assertion and a write past an array end the program.
\<close>

datatype mkerr = IOError | AssertFailed | Overrun

record mkst =
  img :: "nat \<Rightarrow> byte list"
  nsect :: nat
  freeinode :: nat
  freeblock :: nat

primrec mbind :: "mkerr + 'a \<Rightarrow> ('a \<Rightarrow> mkerr + 'b) \<Rightarrow> mkerr + 'b" where
  "mbind (Inl e) f = Inl e"
| "mbind (Inr a) f = f a"

definition FSSIZE :: nat where "FSSIZE = 40000"
definition NINODES :: nat where "NINODES = 200"
definition nbitmap :: nat where "nbitmap = FSSIZE div (BSIZE * 8) + 1"
definition ninodeblocks :: nat where "ninodeblocks = NINODES div IPB + 1"
definition nmeta :: nat where "nmeta = 2 + LOGSIZE + ninodeblocks + nbitmap"

definition mk_sb :: superblock where
  "mk_sb = \<lparr>sb_size = FSSIZE, sb_nblocks = FSSIZE - nmeta, sb_ninodes = NINODES, sb_nlog = LOGSIZE, sb_logstart = 2,
     sb_inodestart = 2 + LOGSIZE, sb_bmapstart = 2 + LOGSIZE + ninodeblocks\<rparr>"

definition wsect :: "nat \<Rightarrow> byte list \<Rightarrow> mkst \<Rightarrow> mkst" where
  "wsect sec buf m = m\<lparr>img := (img m)(sec := buf), nsect := max (nsect m) (Suc sec)\<rparr>"

definition rsect :: "nat \<Rightarrow> mkst \<Rightarrow> mkerr + byte list" where
  "rsect sec m = (if sec < nsect m then Inr (img m sec) else Inl IOError)"

definition winode :: "nat \<Rightarrow> inode \<Rightarrow> mkst \<Rightarrow> mkerr + mkst" where
  "winode ino ip m =
     (let bn = IBLOCK ino mk_sb
      in mbind (rsect bn m) (\<lambda>buf. Inr (wsect bn (put_dinode (doff ino) ip buf) m)))"

definition rinode :: "nat \<Rightarrow> mkst \<Rightarrow> mkerr + inode" where
  "rinode ino m = mbind (rsect (IBLOCK ino mk_sb) m) (\<lambda>buf. Inr (get_dinode buf (doff ino) inode0))"

definition mk_ialloc :: "int \<Rightarrow> mkst \<Rightarrow> mkerr + nat \<times> mkst" where
  "mk_ialloc type m =
     (let ino = freeinode m; din = inode0\<lparr>itype := type, nlink := 1, isize := 0\<rparr>
      in mbind (winode ino din (m\<lparr>freeinode := ino + 1\<rparr>)) (\<lambda>m. Inr (ino, m)))"

definition mk_balloc :: "nat \<Rightarrow> mkst \<Rightarrow> mkerr + mkst" where
  "mk_balloc used m =
     (if \<not> used < BSIZE * 8 then Inl AssertFailed
      else Inr (wsect (sb_bmapstart mk_sb) (fold set_used [0..<used] (replicate BSIZE 0)) m))"

text \<open>
  \<open>iappend\<close> finds the block of the file for the current offset, allocating it if it is missing, and copies into it. Only one level of
  indirection is known here: beyond it the entry of the array \<open>indirect\<close> is out of range.
\<close>

definition iappend_block :: "nat \<Rightarrow> inode \<Rightarrow> mkst \<Rightarrow> mkerr + nat \<times> inode \<times> mkst" where
  "iappend_block fbn din m =
     (if fbn < NDIRECT then
        if addrs din ! fbn = 0 then
          let x = freeblock m in Inr (x, din\<lparr>addrs := (addrs din)[fbn := x]\<rparr>, m\<lparr>freeblock := x + 1\<rparr>)
        else Inr (addrs din ! fbn, din, m)
      else
        let (din, m) =
          (if addrs din ! NDIRECT = 0 then
             (din\<lparr>addrs := (addrs din)[NDIRECT := freeblock m]\<rparr>, m\<lparr>freeblock := freeblock m + 1\<rparr>)
           else (din, m));
          q = addrs din ! NDIRECT; k = fbn - NDIRECT
        in mbind (rsect q m) (\<lambda>indirect.
           if \<not> k < NINDIRECT then Inl Overrun
           else
             let e = unat (get32 (4 * k) indirect); x = freeblock m
             in if e = 0 then Inr (x, din, wsect q (put32 (4 * k) (of_nat x) indirect) (m\<lparr>freeblock := x + 1\<rparr>))
                else Inr (e, din, m)))"

function iappend_loop :: "nat \<Rightarrow> byte list \<Rightarrow> inode \<Rightarrow> mkst \<Rightarrow> mkerr + nat \<times> inode \<times> mkst" where
  "iappend_loop off p din m =
     (if p = [] then Inr (off, din, m)
      else
        let fbn = off div BSIZE; n1 = min (length p) ((fbn + 1) * BSIZE - off)
        in if \<not> fbn < MAXFILE then Inl AssertFailed
           else
             mbind (iappend_block fbn din m) (\<lambda>(x, din, m).
             mbind (rsect x m) (\<lambda>buf.
               iappend_loop (off + n1) (drop n1 p) din (wsect x (splice (off - fbn * BSIZE) (take n1 p) buf) m))))"
  by pat_completeness auto
termination
proof (relation "measure (\<lambda>(off, p, din, m). length p)")
  fix off :: nat and p :: "byte list" and x xa fbn n1 din m
  have "off < (off div BSIZE + 1) * BSIZE" using mod_less_divisor [of BSIZE off] div_mult_mod_eq [of off BSIZE] by (simp add: BSIZE_def)
  moreover assume "p \<noteq> []" "fbn = off div BSIZE" "n1 = min (length p) ((fbn + 1) * BSIZE - off)"
  ultimately have "0 < n1" "p \<noteq> []" by simp_all
  then have "length (drop n1 p) < length p" by simp
  then show "((off + n1, drop n1 p, din, m), off, p, x, xa) \<in> measure (\<lambda>(off, p, din, m). length p)" for din m by simp
qed simp

declare iappend_loop.simps [simp del]

definition iappend :: "nat \<Rightarrow> byte list \<Rightarrow> mkst \<Rightarrow> mkerr + mkst" where
  "iappend ino p m =
     mbind (rinode ino m) (\<lambda>din.
     mbind (iappend_loop (isize din) p din m) (\<lambda>(off, din, m).
       winode ino (din\<lparr>isize := off\<rparr>) m))"

text \<open>
  The host's files are given by their names and what the calls of \<open>read\<close> return, up to an empty one. A leading underscore of the name is dropped.
\<close>

type_synonym hostfile = "byte list \<times> byte list list"

definition file_data :: "byte list list \<Rightarrow> byte list" where
  "file_data cs = concat (takeWhile (\<lambda>c. c \<noteq> []) cs)"

primrec mk_reads :: "nat \<Rightarrow> byte list list \<Rightarrow> mkst \<Rightarrow> mkerr + mkst" where
  "mk_reads ino [] m = Inr m"
| "mk_reads ino (c # cs) m = (if c = [] then Inr m else mbind (iappend ino c m) (mk_reads ino cs))"

definition mk_name :: "byte list \<Rightarrow> byte list" where
  "mk_name nm = (if take 1 nm = [95] then drop 1 nm else nm)"

primrec mk_files :: "hostfile list \<Rightarrow> mkst \<Rightarrow> mkerr + mkst" where
  "mk_files [] m = Inr m"
| "mk_files (f # fs) m =
     (if 47 \<in> set (fst f) then Inl AssertFailed
      else
        mbind (mk_ialloc T_FILE m) (\<lambda>(ino, m).
        mbind (iappend ROOTINO (de_pack (mk_name (fst f)) ino) m) (\<lambda>m.
        mbind (mk_reads ino (snd f) m) (mk_files fs))))"

definition put_sb :: "superblock \<Rightarrow> byte list \<Rightarrow> byte list" where
  "put_sb b d = put32 0 (of_nat (sb_size b)) (put32 4 (of_nat (sb_nblocks b)) (put32 8 (of_nat (sb_ninodes b)) (put32 12 (of_nat (sb_nlog b))
     (put32 16 (of_nat (sb_logstart b)) (put32 20 (of_nat (sb_inodestart b)) (put32 24 (of_nat (sb_bmapstart b)) d))))))"

definition mk_start :: mkst where
  "mk_start =
     (let zeroes = replicate BSIZE 0; m = \<lparr>img = (\<lambda>_. zeroes), nsect = 0, freeinode = 1, freeblock = nmeta\<rparr>
      in wsect 1 (put_sb mk_sb zeroes) (fold (\<lambda>i. wsect i zeroes) [0..<FSSIZE] m))"

definition mk_root :: "mkst \<Rightarrow> mkerr + mkst" where
  "mk_root m =
     mbind (mk_ialloc T_DIR m) (\<lambda>(rootino, m).
     if rootino \<noteq> ROOTINO then Inl AssertFailed
     else
       mbind (iappend rootino (de_pack [46] rootino) m) (\<lambda>m.
         iappend rootino (de_pack [46, 46] rootino) m))"

definition mk_finish :: "mkst \<Rightarrow> mkerr + mkst" where
  "mk_finish m =
     mbind (rinode ROOTINO m) (\<lambda>din.
     mbind (winode ROOTINO (din\<lparr>isize := (isize din div BSIZE + 1) * BSIZE\<rparr>) m) (\<lambda>m.
       mk_balloc (freeblock m) m))"

definition mkfs :: "hostfile list \<Rightarrow> mkerr + mkst" where
  "mkfs files = mbind (mk_root mk_start) (\<lambda>m. mbind (mk_files files m) mk_finish)"

lemmas mk_consts = FSSIZE_def NINODES_def nbitmap_def ninodeblocks_def nmeta_def IPB_def LOGSIZE_def BSIZE_def fs_consts

lemma mk_sb_eq: "mk_sb = \<lparr>sb_size = 40000, sb_nblocks = 39932, sb_ninodes = 200, sb_nlog = 30, sb_logstart = 2, sb_inodestart = 32, sb_bmapstart = 58\<rparr>"
  by (simp add: mk_sb_def mk_consts)

lemma nmeta_eq: "nmeta = 68"
  by (simp add: mk_consts)

section \<open>The files of an image\<close>

text \<open>
  A file of the image is described by its type, the list of its data blocks, its indirect block or 0, and its contents.
\<close>

type_synonym desc = "int \<times> nat list \<times> nat \<times> byte list"

definition dblocks :: "desc \<Rightarrow> nat list" where
  "dblocks d = (case d of (t, L, q, c) \<Rightarrow> L @ (if q = 0 then [] else [q]))"

definition dnode :: "desc \<Rightarrow> inode" where
  "dnode d = (case d of (t, L, q, c) \<Rightarrow>
     inode0\<lparr>itype := t, nlink := 1, isize := length c, addrs := map (\<lambda>k. if k < length L then L ! k else 0) [0..<10] @ [q, 0, 0]\<rparr>)"

definition desc_ok :: "(nat \<Rightarrow> byte list) \<Rightarrow> desc \<Rightarrow> bool" where
  "desc_ok v d \<longleftrightarrow> (case d of (t, L, q, c) \<Rightarrow>
     short_int t \<and> length L \<le> NDIRECT + NINDIRECT \<and> length c \<le> BSIZE * length L \<and> (q = 0 \<longleftrightarrow> length L \<le> NDIRECT) \<and>
     (q \<noteq> 0 \<longrightarrow> (\<forall>k < NINDIRECT. ind v q k = (if NDIRECT + k < length L then L ! (NDIRECT + k) else 0))) \<and>
     (\<forall>p < BSIZE * length L. v (L ! (p div BSIZE)) ! (p mod BSIZE) = (if p < length c then c ! p else 0)))"

lemma desc_ok_cong:
  assumes "\<And>b. b \<in> set (dblocks d) \<Longrightarrow> v' b = v b"
  shows "desc_ok v' d = desc_ok v d"
proof -
  obtain t L q c where d: "d = (t, L, q, c)" by (cases d)
  have "v' (L ! (p div BSIZE)) = v (L ! (p div BSIZE))" if "p < BSIZE * length L" for p
  proof (rule assms)
    have "p div BSIZE < length L" using that by (simp add: less_mult_imp_div_less mult.commute)
    then show "L ! (p div BSIZE) \<in> set (dblocks d)" by (simp add: dblocks_def d)
  qed
  moreover have "q \<noteq> 0 \<Longrightarrow> v' q = v q" by (rule assms) (simp add: dblocks_def d)
  ultimately show ?thesis by (auto simp: desc_ok_def d ind_def)
qed

text \<open>What the kernel's view of a file makes of it.\<close>

lemma dnode_slot:
  assumes "desc_ok v (t, L, q, c)"
  shows "file_addr v ((dnode (t, L, q, c))\<lparr>isize := z\<rparr>) bn = (if bn < length L then L ! bn else 0)"
proof (cases "file_slot bn")
  case None
  then have "\<not> bn < length L" using assms by (auto simp: file_slot_def desc_ok_def fs_consts split: if_splits)
  with None show ?thesis by (simp add: file_addr_def)
next
  case (Some s)
  let ?A = "map (\<lambda>k. if k < length L then L ! k else 0) [0..<10] @ [q, 0, 0]"
  have A: "addrs ((dnode (t, L, q, c))\<lparr>isize := z\<rparr>) = ?A" by (simp add: dnode_def del: upt_rec_numeral)
  have n: "?A ! k = (if k < length L then L ! k else 0)" if "k < 10" for k using that by (simp add: nth_append del: upt_rec_numeral)
  have n2: "?A ! 10 = q" "?A ! Suc 10 = 0" "?A ! (10 + 2) = 0" by (simp_all add: nth_append del: upt_rec_numeral)
  have L: "length L \<le> 138" "q = 0 \<longleftrightarrow> length L \<le> 10" using assms by (simp_all add: desc_ok_def fs_consts)
  have k: "ind v q k = (if 10 + k < length L then L ! (10 + k) else 0)" if "q \<noteq> 0" "k < 128" for k using assms that by (simp add: desc_ok_def fs_consts)
  have N: "NDIRECT = 10" "NINDIRECT = 128" by (simp_all add: fs_consts)
  consider "bn < 10" | "10 \<le> bn" "bn < 138" | "138 \<le> bn" by linarith
  then show ?thesis
  proof cases
    case 1
    then have "file_slot bn = Some (bn, 0, 0)" by (simp add: file_slot_def N)
    then show ?thesis unfolding file_addr_def A using n [OF 1] by (simp del: upt_rec_numeral)
  next
    case 2
    then have "file_slot bn = Some (10, 1, bn - 10)" by (simp add: file_slot_def N)
    then show ?thesis unfolding file_addr_def A using n2(1) 2 L k [of "bn - 10"] by (auto simp: N simp del: upt_rec_numeral)
  next
    case 3
    from Some have "s = (Suc 10, 2, bn - 138) \<or> s = (10 + 2, 3, bn - 138 - 128 ^ 2)" using 3 by (auto simp: file_slot_def N split: if_splits)
    then show ?thesis unfolding file_addr_def A Some using n2(2,3) 3 L by (auto simp del: upt_rec_numeral)
  qed
qed

text \<open>
  The sectors of an image that is being built, with the files \<open>D\<close>: the data area up to \<open>freeblock\<close> is divided among the files, and what lies beyond is zero.
\<close>

definition blk_ok :: "mkst \<Rightarrow> desc list \<Rightarrow> bool" where
  "blk_ok m D \<longleftrightarrow> nsect m = FSSIZE \<and> nmeta \<le> freeblock m \<and> (\<forall>b. length (img m b) = BSIZE) \<and> (\<forall>b \<ge> freeblock m. img m b = replicate BSIZE 0) \<and>
     mset (concat (map dblocks D)) = mset [nmeta..<freeblock m] \<and> (\<forall>d \<in> set D. desc_ok (img m) d)"

lemma mset_concat_update:
  "i < length D \<Longrightarrow> mset (f d) = mset (f (D ! i)) + X \<Longrightarrow> mset (concat (map f (D[i := d]))) = mset (concat (map f D)) + X"
  by (induction D arbitrary: i) (auto split: nat.split)

lemma distinct_concat_disjoint:
  "distinct (concat xs) \<Longrightarrow> i < length xs \<Longrightarrow> j < length xs \<Longrightarrow> i \<noteq> j \<Longrightarrow> set (xs ! i) \<inter> set (xs ! j) = {}"
proof (induction xs arbitrary: i j)
  case (Cons x xs)
  then show ?case by (cases i; cases j) (auto dest!: nth_mem)
qed simp

lemma distinct_concat_nth: "distinct (concat xs) \<Longrightarrow> i < length xs \<Longrightarrow> distinct (xs ! i)"
  by (induction xs arbitrary: i) (auto simp: nth_Cons split: nat.split)

lemma blk_distinct: "blk_ok m D \<Longrightarrow> distinct (concat (map dblocks D))"
  unfolding blk_ok_def by (metis distinct_upt mset_eq_imp_distinct_iff)

lemma blk_range: "blk_ok m D \<Longrightarrow> i < length D \<Longrightarrow> b \<in> set (dblocks (D ! i)) \<Longrightarrow> nmeta \<le> b \<and> b < freeblock m"
proof -
  assume a: "blk_ok m D" "i < length D" "b \<in> set (dblocks (D ! i))"
  then have "b \<in> set (concat (map dblocks D))" by auto
  also have "\<dots> = set [nmeta..<freeblock m]" using a(1) unfolding blk_ok_def by (metis mset_eq_setD)
  finally show ?thesis by simp
qed

lemma blk_count: "blk_ok m D \<Longrightarrow> freeblock m = nmeta + sum_list (map (\<lambda>d. length (dblocks d)) D)"
proof -
  assume a: "blk_ok m D"
  then have "length (concat (map dblocks D)) = length [nmeta..<freeblock m]" unfolding blk_ok_def by (metis mset_eq_length)
  then show ?thesis using a by (simp add: blk_ok_def length_concat comp_def)
qed

lemma blk_step:
  assumes D: "blk_ok m D" and i: "i < length D" and m': "nsect m' = FSSIZE" "freeblock m \<le> freeblock m'" "\<And>b. length (img m' b) = BSIZE"
    "\<And>b. freeblock m' \<le> b \<Longrightarrow> img m' b = replicate BSIZE 0"
    and d: "mset (dblocks d) = mset (dblocks (D ! i)) + mset [freeblock m..<freeblock m']" "desc_ok (img m') d"
    and f: "\<And>b. nmeta \<le> b \<Longrightarrow> b < freeblock m \<Longrightarrow> b \<notin> set (dblocks (D ! i)) \<Longrightarrow> img m' b = img m b"
  shows "blk_ok m' (D[i := d])"
proof -
  have "mset (concat (map dblocks (D[i := d]))) = mset [nmeta..<freeblock m] + mset [freeblock m..<freeblock m']"
    using mset_concat_update [OF i d(1)] D by (simp add: blk_ok_def)
  also have "\<dots> = mset ([nmeta..<freeblock m] @ [freeblock m..<freeblock m'])" by (simp only: mset_append)
  also have "[nmeta..<freeblock m] @ [freeblock m..<freeblock m'] = [nmeta..<freeblock m']"
    using D m'(2) upt_add_eq_append [of nmeta "freeblock m" "freeblock m' - freeblock m"] by (simp add: blk_ok_def)
  finally have c: "mset (concat (map dblocks (D[i := d]))) = mset [nmeta..<freeblock m']" .
  have o: "desc_ok (img m') (D ! j)" if j: "j < length D" "j \<noteq> i" for j
  proof -
    have "img m' b = img m b" if b: "b \<in> set (dblocks (D ! j))" for b
    proof (rule f)
      show "nmeta \<le> b" "b < freeblock m" using blk_range [OF D j(1) b] by simp_all
      show "b \<notin> set (dblocks (D ! i))" using distinct_concat_disjoint [OF blk_distinct [OF D], of j i] j i b by auto
    qed
    then have "desc_ok (img m') (D ! j) = desc_ok (img m) (D ! j)" by (rule desc_ok_cong)
    then show ?thesis using D j(1) by (simp add: blk_ok_def)
  qed
  have "\<forall>e \<in> set (D[i := d]). desc_ok (img m') e"
  proof
    fix e assume "e \<in> set (D[i := d])"
    then obtain j where "j < length D" "e = D[i := d] ! j" by (metis in_set_conv_nth length_list_update)
    then show "desc_ok (img m') e" using o [of j] d(2) i by (cases "j = i") auto
  qed
  then show ?thesis using c m' D by (simp add: blk_ok_def)
qed

text \<open>Copying into a block of a file that is there already.\<close>

lemma div_mod_unique: "p div (B :: nat) = off div B \<Longrightarrow> p mod B = off mod B + j \<Longrightarrow> p = off + j"
  by (metis add.assoc div_mult_mod_eq)

lemma desc_put:
  assumes d: "desc_ok v (t, L, q, c)" and l: "\<And>b. length (v b) = BSIZE" and o: "off = length c" "off div BSIZE < length L" "off mod BSIZE + length xs \<le> BSIZE"
    and u: "distinct (dblocks (t, L, q, c))"
  shows "desc_ok (v(L ! (off div BSIZE) := splice (off mod BSIZE) xs (v (L ! (off div BSIZE))))) (t, L, q, c @ xs)"
proof -
  let ?x = "L ! (off div BSIZE)"
  let ?v = "v(?x := splice (off mod BSIZE) xs (v ?x))"
  have q: "q \<noteq> 0 \<Longrightarrow> q \<noteq> ?x" using u o(2) by (auto simp: dblocks_def)
  have B: "0 < BSIZE" by (simp add: BSIZE_def)
  have "off + length xs \<le> BSIZE * (off div BSIZE + 1)" unfolding distrib_left using o(3) mult_div_mod_eq [of BSIZE off] by linarith
  also have "\<dots> \<le> BSIZE * length L" using o(2) by (intro mult_le_mono2) simp
  finally have len: "length (c @ xs) \<le> BSIZE * length L" using o(1) by simp
  have "?v (L ! (p div BSIZE)) ! (p mod BSIZE) = (if p < length (c @ xs) then (c @ xs) ! p else 0)" if p: "p < BSIZE * length L" for p
  proof (cases "p div BSIZE = off div BSIZE")
    case True
    have pm: "p mod BSIZE < BSIZE" by (rule mod_less_divisor [OF B])
    have ps: "p + off mod BSIZE = off + p mod BSIZE" using div_mult_mod_eq [of p BSIZE, unfolded True] div_mult_mod_eq [of off BSIZE] by linarith
    then have r: "off mod BSIZE \<le> p mod BSIZE \<longleftrightarrow> off \<le> p" "p mod BSIZE < off mod BSIZE + length xs \<longleftrightarrow> p < off + length xs" "p mod BSIZE - off mod BSIZE = p - off"
      by linarith+
    have old: "v (L ! (p div BSIZE)) ! (p mod BSIZE) = (if p < length c then c ! p else 0)" using d p by (simp add: desc_ok_def)
    have "?v (L ! (p div BSIZE)) ! (p mod BSIZE) = splice (off mod BSIZE) xs (v ?x) ! (p mod BSIZE)" using True by simp
    also have "\<dots> = (if off mod BSIZE \<le> p mod BSIZE \<and> p mod BSIZE < off mod BSIZE + length xs then xs ! (p mod BSIZE - off mod BSIZE) else v ?x ! (p mod BSIZE))"
      using o(3) l pm by (simp add: nth_splice)
    finally have "?v (L ! (p div BSIZE)) ! (p mod BSIZE) = (if off \<le> p \<and> p < off + length xs then xs ! (p - off) else v ?x ! (p mod BSIZE))" unfolding r .
    then show ?thesis using old o(1) True by (auto simp: nth_append simp del: fun_upd_apply)
  next
    case False
    have "p div BSIZE < length L" using p by (simp add: less_mult_imp_div_less mult.commute)
    then have "L ! (p div BSIZE) \<noteq> ?x" using u o(2) False by (simp add: dblocks_def nth_eq_iff_index_eq)
    moreover have "p < length (c @ xs) \<Longrightarrow> p < length c"
    proof (rule ccontr)
      assume a: "p < length (c @ xs)" "\<not> p < length c"
      then have "p - off < length xs" "off \<le> p" using o(1) by auto
      then have "(off + (p - off)) div BSIZE = off div BSIZE" using o(3) by (intro within_block(1)) simp
      then show False using False \<open>off \<le> p\<close> by simp
    qed
    ultimately show ?thesis using d p by (auto simp: desc_ok_def nth_append)
  qed
  moreover have "q \<noteq> 0 \<Longrightarrow> ind ?v q = ind v q" using q by (simp add: ind_def fun_eq_iff)
  ultimately show ?thesis using d len by (simp add: desc_ok_def del: fun_upd_apply)
qed

lemma desc_grow:
  assumes d: "desc_ok v (t, L, q, c)" and v': "\<And>b. b \<in> set L \<Longrightarrow> v' b = v b" "v' x = replicate BSIZE 0" and L: "length L < NDIRECT + NINDIRECT"
    and q: "q' = 0 \<longleftrightarrow> length L < NDIRECT" "\<And>k. q' \<noteq> 0 \<Longrightarrow> k < NINDIRECT \<Longrightarrow> ind v' q' k = (if NDIRECT + k < Suc (length L) then (L @ [x]) ! (NDIRECT + k) else 0)"
  shows "desc_ok v' (t, L @ [x], q', c)"
proof -
  have c: "length c \<le> BSIZE * length L" using d by (simp add: desc_ok_def)
  have "v' ((L @ [x]) ! (p div BSIZE)) ! (p mod BSIZE) = (if p < length c then c ! p else 0)" if p: "p < BSIZE * Suc (length L)" for p
  proof (cases "p < BSIZE * length L")
    case True
    then have "p div BSIZE < length L" by (simp add: less_mult_imp_div_less mult.commute)
    then show ?thesis using d True v'(1) by (simp add: desc_ok_def nth_append)
  next
    case False
    then have "length L * BSIZE \<le> p" by (simp add: mult.commute)
    then have "length L \<le> p div BSIZE" using div_le_mono [of "length L * BSIZE" p BSIZE] by (simp add: BSIZE_def)
    moreover have "p div BSIZE < Suc (length L)" using p by (simp add: less_mult_imp_div_less mult.commute del: mult_Suc mult_Suc_right)
    ultimately have "p div BSIZE = length L" by simp
    then show ?thesis using False c v'(2) by (simp add: BSIZE_def)
  qed
  moreover have "q' \<noteq> 0 \<longrightarrow> (\<forall>k < NINDIRECT. ind v' q' k = (if NDIRECT + k < length (L @ [x]) then (L @ [x]) ! (NDIRECT + k) else 0))" using q(2) by simp
  ultimately show ?thesis using d L q(1) c by (auto simp: desc_ok_def Suc_le_eq)
qed

lemma dblocks_zero: "0 \<notin> set L \<Longrightarrow> 0 \<notin> set (dblocks (t, L, q, c))"
  by (simp add: dblocks_def)

lemma length_addrs_dnode [simp]: "length (addrs (dnode d)) = 13"
  by (simp add: dnode_def split: prod.split)

lemma addrs_dnode:
  assumes "desc_ok v (t, L, q, c)"
  shows "k < 10 \<Longrightarrow> addrs (dnode (t, L, q, c)) ! k = (if k < length L then L ! k else 0)" and "addrs (dnode (t, L, q, c)) ! 10 = q"
  by (simp_all add: dnode_def nth_append del: upt_rec_numeral)

lemma dnode_grow:
  assumes "length L < 10"
  shows "dnode (t, L @ [x], q, c) = (dnode (t, L, q, c))\<lparr>addrs := (addrs (dnode (t, L, q, c)))[length L := x]\<rparr>"
proof -
  have "map (\<lambda>k. if k < length (L @ [x]) then (L @ [x]) ! k else 0) [0..<10] = (map (\<lambda>k. if k < length L then L ! k else 0) [0..<10])[length L := x]"
    using assms by (intro nth_equalityI) (auto simp: nth_list_update nth_append simp del: upt_rec_numeral)
  then show ?thesis using assms by (simp add: dnode_def list_update_append del: upt_rec_numeral)
qed

lemma dnode_grow_indirect:
  assumes "10 \<le> length L"
  shows "dnode (t, L @ [x], q', c) = (dnode (t, L, q, c))\<lparr>addrs := (addrs (dnode (t, L, q, c)))[10 := q']\<rparr>"
proof -
  have "map (\<lambda>k. if k < length (L @ [x]) then (L @ [x]) ! k else 0) [0..<10] = map (\<lambda>k. if k < length L then L ! k else 0) [0..<10]"
    using assms by (intro nth_equalityI) (auto simp: nth_append simp del: upt_rec_numeral)
  then show ?thesis using assms by (simp add: dnode_def list_update_append del: upt_rec_numeral)
qed


lemma iappend_block_old:
  assumes d: "desc_ok (img m) (t, L, q, c)" and f: "fbn < length L" "0 \<notin> set L" and q: "q < nsect m"
  shows "iappend_block fbn ((dnode (t, L, q, c))\<lparr>isize := z\<rparr>) m = Inr (L ! fbn, (dnode (t, L, q, c))\<lparr>isize := z\<rparr>, m)"
proof (cases "fbn < 10")
  case True
  have "L ! fbn \<noteq> 0" using f nth_mem by metis
  then show ?thesis using addrs_dnode(1) [OF d True] f(1) True by (simp add: iappend_block_def fs_consts)
next
  case False
  have e: "L ! fbn \<noteq> 0" using f nth_mem by metis
  have l: "length L \<le> 138" "q \<noteq> 0" using d f(1) False by (auto simp: desc_ok_def fs_consts)
  then have "unat (get32 (4 * (fbn - 10)) (img m q)) = L ! fbn" using d f(1) False by (simp add: desc_ok_def fs_consts ind_def)
  then show ?thesis using False addrs_dnode(2) [OF d] f(1) e q l by (simp add: iappend_block_def fs_consts rsect_def Let_def)
qed

lemma desc_first_indirect:
  assumes d: "desc_ok v (t, L, q, c)" and L: "length L = 10" "x \<notin> set L" and v: "v x = replicate BSIZE 0" "v (Suc x) = replicate BSIZE 0" and x: "x \<noteq> 0" "Suc x < 2 ^ 32"
  shows "desc_ok (v(x := put32 0 (of_nat (Suc x)) (v x))) (t, L @ [Suc x], x, c)"
proof (rule desc_grow [OF d])
  show "ind (v(x := put32 0 (of_nat (Suc x)) (v x))) x k = (if NDIRECT + k < Suc (length L) then (L @ [Suc x]) ! (NDIRECT + k) else 0)" if "k < NINDIRECT" for k
    using ind_put [of v x 0 k "Suc x"] ind_zeros [of v x k] v(1) that x(2) L(1) by (simp add: fs_consts nth_append)
qed (use L v x in \<open>auto simp: fs_consts\<close>)

lemma desc_next_indirect:
  assumes d: "desc_ok v (t, L, q, c)" and L: "10 < length L" "length L < 138" "q \<notin> set L" and v: "length (v q) = BSIZE" "v x = replicate BSIZE 0" "x \<noteq> q" and x: "x < 2 ^ 32"
  shows "desc_ok (v(q := put32 (4 * (length L - 10)) (of_nat x) (v q))) (t, L @ [x], q, c)"
proof (rule desc_grow [OF d])
  have q: "q \<noteq> 0" using d L(1) by (simp add: desc_ok_def fs_consts)
  have i: "ind v q k = (if 10 + k < length L then L ! (10 + k) else 0)" if "k < 128" for k using d q that by (simp add: desc_ok_def fs_consts)
  show "ind (v(q := put32 (4 * (length L - 10)) (of_nat x) (v q))) q k = (if NDIRECT + k < Suc (length L) then (L @ [x]) ! (NDIRECT + k) else 0)" if "k < NINDIRECT" for k
    using ind_put [of v q "length L - 10" k x] v(1) that x L i [of k] by (auto simp: fs_consts nth_append)
  show "(q = 0) = (length L < NDIRECT)" using q L by (simp add: fs_consts)
qed (use L v in \<open>auto simp: fs_consts\<close>)

text \<open>Finding the block of the file at its end, or allocating it.\<close>

lemma iappend_block_total:
  assumes D: "blk_ok m D" and i: "i < length D" "D ! i = (t, L, q, c)" and f: "fbn \<le> length L" "fbn < NDIRECT + NINDIRECT" "freeblock m + 2 \<le> FSSIZE"
  shows "\<exists>L' q' m'. iappend_block fbn ((dnode (t, L, q, c))\<lparr>isize := z\<rparr>) m = Inr (L' ! fbn, (dnode (t, L', q', c))\<lparr>isize := z\<rparr>, m') \<and>
    blk_ok m' (D[i := (t, L', q', c)]) \<and> length L' = max (length L) (Suc fbn) \<and> freeinode m' = freeinode m \<and> (\<forall>b < nmeta. img m' b = img m b)"
proof -
  let ?d = "(t, L, q, c)" and ?x = "freeblock m"
  have N: "NDIRECT = 10" "NINDIRECT = 128" by (simp_all add: fs_consts)
  have d: "desc_ok (img m) ?d" using D i by (auto simp: blk_ok_def dest: nth_mem)
  have r: "b \<in> set (dblocks ?d) \<Longrightarrow> nmeta \<le> b \<and> b < ?x" for b using blk_range [OF D i(1)] i(2) by simp
  have nz: "0 \<notin> set L" using r [of 0] by (auto simp: dblocks_def nmeta_eq)
  have m: "nmeta \<le> ?x" "\<And>b. length (img m b) = BSIZE" "\<And>b. ?x \<le> b \<Longrightarrow> img m b = replicate BSIZE 0" "nsect m = FSSIZE" using D by (simp_all add: blk_ok_def)
  have u: "distinct (dblocks ?d)" using distinct_concat_nth [OF blk_distinct [OF D], of i] i by simp
  have q: "q = 0 \<longleftrightarrow> length L \<le> 10" "\<And>k. q \<noteq> 0 \<Longrightarrow> k < 128 \<Longrightarrow> ind (img m) q k = (if 10 + k < length L then L ! (10 + k) else 0)" using d by (simp_all add: desc_ok_def N)
  have s: "x < 40000 \<Longrightarrow> x < 2 ^ 32" for x :: nat by simp
  consider (old) "fbn < length L" | (direct) "fbn = length L" "fbn < 10" | (first) "fbn = length L" "fbn = 10" | (indirect) "fbn = length L" "10 < fbn" using f(1) by linarith
  then show ?thesis
  proof cases
    case old
    have "q < nsect m" using r [of q] f(3) m(4) by (cases "q = 0") (auto simp: dblocks_def FSSIZE_def)
    then have "iappend_block fbn ((dnode ?d)\<lparr>isize := z\<rparr>) m = Inr (L ! fbn, (dnode ?d)\<lparr>isize := z\<rparr>, m)" by (rule iappend_block_old [OF d old nz])
    then show ?thesis using D i old by (metis list_update_id max.absorb1 Suc_leI)
  next
    case direct
    let ?m = "m\<lparr>freeblock := ?x + 1\<rparr>" and ?e = "(t, L @ [?x], q, c)"
    have "iappend_block fbn ((dnode ?d)\<lparr>isize := z\<rparr>) m = Inr (?x, (dnode ?e)\<lparr>isize := z\<rparr>, ?m)"
      using addrs_dnode(1) [OF d direct(2)] direct dnode_grow [of L] by (simp add: iappend_block_def N Let_def)
    moreover have "desc_ok (img m) ?e" using direct q(1) m(3) by (intro desc_grow [OF d]) (simp_all add: N)
    then have "blk_ok ?m (D[i := ?e])" using m i(2) direct q(1) by (intro blk_step [OF D i(1)]) (auto simp: dblocks_def)
    ultimately show ?thesis using direct by (intro exI [of _ "L @ [?x]"] exI [of _ q] exI [of _ ?m]) simp
  next
    case first
    let ?y = "Suc ?x" and ?v = "(img m)(?x := put32 0 (of_nat (Suc ?x)) (img m ?x))"
    let ?m = "wsect ?x (put32 0 (of_nat ?y) (img m ?x)) (m\<lparr>freeblock := Suc (Suc ?x)\<rparr>)" and ?e = "(t, L @ [?y], ?x, c)"
    have x0: "?x \<noteq> 0" "?x < FSSIZE" using m(1) f(3) by (simp_all add: nmeta_eq)
    have q0: "q = 0" using q(1) first by simp
    have g: "get32 0 (img m ?x) = 0" using m(3) [of ?x] by (simp add: get32_def BSIZE_def)
    have dn: "dnode ?e = (dnode (t, L, 0, c))\<lparr>addrs := (addrs (dnode (t, L, 0, c)))[10 := ?x]\<rparr>" using first by (intro dnode_grow_indirect) simp
    have "iappend_block fbn ((dnode ?d)\<lparr>isize := z\<rparr>) m = Inr (?y, (dnode ?e)\<lparr>isize := z\<rparr>, ?m)"
      using addrs_dnode(2) [OF d] first q0 g x0 m(4) by (simp add: iappend_block_def N Let_def rsect_def dn)
    moreover have "?x \<notin> set L" using r [of ?x] by (auto simp: dblocks_def)
    then have "desc_ok ?v ?e" using first m(3) [of ?x] m(3) [of ?y] x0 f(3) by (intro desc_first_indirect [OF d]) (simp_all add: FSSIZE_def)
    then have "blk_ok ?m (D[i := ?e])"
      using m i(2) first q0 x0 by (intro blk_step [OF D i(1)]) (auto simp: dblocks_def wsect_def max_def upt_conv_Cons)
    ultimately show ?thesis using first m(1) by (intro exI [of _ "L @ [?y]"] exI [of _ ?x] exI [of _ ?m]) (simp add: wsect_def nth_append)
  next
    case indirect
    let ?k = "length L - 10"
    let ?v = "(img m)(q := put32 (4 * ?k) (of_nat ?x) (img m q))"
    let ?m = "wsect q (put32 (4 * ?k) (of_nat ?x) (img m q)) (m\<lparr>freeblock := ?x + 1\<rparr>)" and ?e = "(t, L @ [?x], q, c)"
    have q0: "q \<noteq> 0" "nmeta \<le> q" "q < ?x" "q \<notin> set L" using q(1) indirect r [of q] u by (auto simp: dblocks_def)
    have g: "unat (get32 (4 * ?k) (img m q)) = 0" using q(2) [of ?k] q0(1) indirect f(2) by (simp add: N ind_def)
    have dn: "dnode ?e = dnode ?d"
      using dnode_grow_indirect [of L t ?x q c q] addrs_dnode(2) [OF d] indirect list_update_id [of "addrs (dnode ?d)" 10] by simp
    have "iappend_block fbn ((dnode ?d)\<lparr>isize := z\<rparr>) m = Inr (?x, (dnode ?e)\<lparr>isize := z\<rparr>, ?m)"
      using addrs_dnode(2) [OF d] indirect q0 g m(4) f by (simp add: iappend_block_def N Let_def rsect_def dn)
    moreover have "desc_ok ?v ?e" using indirect f q0 m(2,3) by (intro desc_next_indirect [OF d]) (simp_all add: N FSSIZE_def)
    then have "blk_ok ?m (D[i := ?e])"
      using m i(2) indirect q0 f(3) by (intro blk_step [OF D i(1)]) (auto simp: dblocks_def wsect_def max_def)
    ultimately show ?thesis using indirect q0 by (intro exI [of _ "L @ [?x]"] exI [of _ q] exI [of _ ?m]) (simp add: wsect_def)
  qed
qed

text \<open>The number of blocks a file of \<open>n\<close> bytes takes, with its indirect block.\<close>

definition nb :: "nat \<Rightarrow> nat" where
  "nb n = (let k = (n + 511) div 512 in if k \<le> 10 then k else Suc k)"

definition desc_full :: "desc \<Rightarrow> bool" where
  "desc_full d \<longleftrightarrow> (case d of (t, L, q, c) \<Rightarrow> length L = (length c + 511) div 512)"

lemma nb_mono: "a \<le> b \<Longrightarrow> nb a \<le> nb b"
proof -
  assume "a \<le> b"
  then have "(a + 511) div 512 \<le> (b + 511) div 512" by (intro div_le_mono) simp
  then show ?thesis by (auto simp: nb_def Let_def)
qed

lemma desc_blocks:
  assumes "desc_ok v (t, L, q, c)"
  shows "length (dblocks (t, L, q, c)) = (if length L \<le> 10 then length L else Suc (length L))"
  using assms by (simp add: desc_ok_def dblocks_def fs_consts)

lemma desc_nb: "desc_ok v (t, L, q, c) \<Longrightarrow> desc_full (t, L, q, c) \<Longrightarrow> length (dblocks (t, L, q, c)) = nb (length c)"
  by (simp add: desc_blocks desc_full_def nb_def Let_def)

lemma sum_list_nat_update: "i < length xs \<Longrightarrow> sum_list (xs[i := a]) + xs ! i = sum_list xs + (a :: nat)"
  by (induction xs arbitrary: i) (auto split: nat.split)

lemma blk_count_update:
  assumes "blk_ok m D" and "i < length D" and "blk_ok m' (D[i := d])"
  shows "freeblock m' + length (dblocks (D ! i)) = freeblock m + length (dblocks d)"
  using blk_count [OF assms(1)] blk_count [OF assms(3)] assms(2) sum_list_nat_update [of i "map (\<lambda>d. length (dblocks d)) D" "length (dblocks d)"]
  by (simp add: map_update)

lemma dnode_size: "(dnode (t, L, q, c))\<lparr>isize := z\<rparr> = (dnode (t, L, q, c'))\<lparr>isize := z\<rparr>"
  by (simp add: dnode_def)

lemma blk_descD:
  assumes "blk_ok m D" and "i < length D" and "D ! i = d"
  shows "desc_ok (img m) d" and "distinct (dblocks d)" and "b \<in> set (dblocks d) \<Longrightarrow> nmeta \<le> b \<and> b < freeblock m"
proof -
  show "desc_ok (img m) d" using assms by (auto simp: blk_ok_def)
  show "distinct (dblocks d)" using distinct_concat_nth [OF blk_distinct [OF assms(1)], of i] assms by simp
  show "nmeta \<le> b \<and> b < freeblock m" if "b \<in> set (dblocks d)" using blk_range [OF assms(1,2)] assms(3) that by simp
qed

lemma round_length:
  assumes "length L = (o' + 511) div 512" and "l1 = max (length L) (Suc (o' div 512))" and "0 < n1" and "n1 \<le> 512 - o' mod 512"
  shows "l1 = (o' + n1 + 511) div 512" and "o' div 512 \<le> length L"
proof -
  obtain a r where o: "o' = 512 * a + r" "r < 512" and a: "o' div 512 = a" "o' mod 512 = r" by (metis mod_less_divisor mult_div_mod_eq zero_less_numeral)
  have "n1 \<le> 512 - r" using assms(4) unfolding a .
  then have "(o' + n1 + 511) div 512 = Suc a" using assms(3) o by (intro div_nat_eqI) simp_all
  moreover have "a \<le> (o' + 511) div 512" "(o' + 511) div 512 \<le> Suc a" using o div_le_mono [of "o' + 511" "512 * Suc a + 511" 512] by (simp_all add: div_le_mono)
  ultimately show "l1 = (o' + n1 + 511) div 512" "o' div 512 \<le> length L" using assms(1,2) a by simp_all
qed

lemma iappend_round:
  assumes D: "blk_ok m D" and i: "i < length D" "D ! i = (t, L, q, c)" and full: "desc_full (t, L, q, c)"
    and x: "xs \<noteq> []" "length c mod BSIZE + length xs \<le> BSIZE" and l: "length c + length xs \<le> 138 * 512" and f: "freeblock m + 2 \<le> FSSIZE"
  shows "\<exists>L' q' m' x. iappend_block (length c div BSIZE) ((dnode (t, L, q, c))\<lparr>isize := z\<rparr>) m = Inr (x, (dnode (t, L', q', c @ xs))\<lparr>isize := z\<rparr>, m') \<and>
    rsect x m' = Inr (img m' x) \<and> (let m2 = wsect x (splice (length c mod BSIZE) xs (img m' x)) m'
     in blk_ok m2 (D[i := (t, L', q', c @ xs)]) \<and> desc_full (t, L', q', c @ xs) \<and>
        freeblock m2 + nb (length c) = freeblock m + nb (length c + length xs) \<and> freeinode m2 = freeinode m \<and> (\<forall>b < nmeta. img m2 b = img m b))"
proof -
  let ?fbn = "length c div BSIZE" and ?off = "length c mod BSIZE"
  have N: "NDIRECT + NINDIRECT = 138" by (simp add: fs_consts)
  have Lc: "length L = (length c + 511) div 512" using full by (simp add: desc_full_def)
  have n1: "0 < length xs" "length xs \<le> 512 - length c mod 512" using x by (simp_all add: BSIZE_def)
  have fb: "?fbn \<le> length L" using round_length(2) [OF Lc refl n1] by (simp add: BSIZE_def)
  have fb2: "?fbn < NDIRECT + NINDIRECT" unfolding N BSIZE_def using l n1(1) by (intro less_mult_imp_div_less) linarith
  from iappend_block_total [OF D i fb fb2 f] obtain L1 q1 m1 where m1: "iappend_block ?fbn ((dnode (t, L, q, c))\<lparr>isize := z\<rparr>) m = Inr (L1 ! ?fbn, (dnode (t, L1, q1, c))\<lparr>isize := z\<rparr>, m1)"
    "blk_ok m1 (D[i := (t, L1, q1, c)])" "length L1 = max (length L) (Suc ?fbn)" "freeinode m1 = freeinode m" "\<forall>b < nmeta. img m1 b = img m b" by blast
  let ?D = "D[i := (t, L1, q1, c)]" and ?x = "L1 ! ?fbn"
  have i1: "i < length ?D" "?D ! i = (t, L1, q1, c)" using i(1) by simp_all
  note d1 = blk_descD [OF m1(2) i1]
  have L1: "length L1 = (length c + length xs + 511) div 512" using round_length(1) [OF Lc _ n1] m1(3) by (simp add: BSIZE_def)
  have xin: "?fbn < length L1" "?x \<in> set (dblocks (t, L1, q1, c))" using m1(3) by (simp_all add: dblocks_def)
  have nx: "nmeta \<le> ?x" "?x < freeblock m1" using d1(3) [OF xin(2)] by simp_all
  have lm: "\<And>b. length (img m1 b) = BSIZE" "nsect m1 = FSSIZE" "\<And>b. freeblock m1 \<le> b \<Longrightarrow> img m1 b = replicate BSIZE 0" using m1(2) by (simp_all add: blk_ok_def)
  have d: "desc_ok (img m) (t, L, q, c)" using blk_descD(1) [OF D i] .
  have c1: "freeblock m1 + length (dblocks (t, L, q, c)) = freeblock m + length (dblocks (t, L1, q1, c))" using blk_count_update [OF D i(1) m1(2)] i(2) by simp
  have "length L1 \<le> Suc (length L)" using m1(3) fb by simp
  then have xF: "?x < FSSIZE" using nx(2) c1 f unfolding desc_blocks [OF d] desc_blocks [OF d1(1)] by (auto split: if_splits)
  let ?m = "wsect ?x (splice ?off xs (img m1 ?x)) m1" and ?e = "(t, L1, q1, c @ xs)"
  have e: "desc_ok (img ?m) ?e" using desc_put [OF d1(1) lm(1) refl xin(1) x(2) d1(2)] by (simp add: wsect_def)
  have "blk_ok ?m (?D[i := ?e])"
  proof (rule blk_step [OF m1(2) i1(1)])
    show "length (img ?m b) = BSIZE" for b using lm(1) x(2) by (simp add: wsect_def length_splice)
    show "mset (dblocks ?e) = mset (dblocks (?D ! i)) + mset [freeblock m1..<freeblock ?m]" using i(1) by (simp add: dblocks_def wsect_def)
    show "img ?m b = img m1 b" if "b \<notin> set (dblocks (?D ! i))" for b using that xin(2) i1(2) by (auto simp: wsect_def)
    show "img ?m b = replicate BSIZE 0" if "freeblock ?m \<le> b" for b using that lm(3) nx by (auto simp: wsect_def)
  qed (use lm xF e in \<open>simp_all add: wsect_def\<close>)
  then have ok: "blk_ok ?m (D[i := ?e])" by simp
  have fe: "desc_full ?e" using L1 by (simp add: desc_full_def)
  have "freeblock ?m + nb (length c) = freeblock m + nb (length c + length xs)"
    using blk_count_update [OF D i(1) ok] i(2) desc_nb [OF d full] desc_nb [OF e fe] by simp
  moreover have "\<forall>b < nmeta. img ?m b = img m b" using m1(5) nx(1) by (simp add: wsect_def)
  moreover have "rsect ?x m1 = Inr (img m1 ?x)" using xF lm(2) by (simp add: rsect_def)
  ultimately show ?thesis using m1(1,4) ok fe dnode_size [where t = t and L = L1 and q = q1 and c = c and z = z and c' = "c @ xs"]
    by (intro exI [of _ L1] exI [of _ q1] exI [of _ m1] exI [of _ ?x]) (simp add: Let_def wsect_def)
qed

lemma iappend_loop_total:
  assumes "blk_ok m D" and "i < length D" and "D ! i = (t, L, q, c)" and "desc_full (t, L, q, c)"
    and "length c + length p \<le> 138 * 512" and "freeblock m + nb (length c + length p) < 4096 + nb (length c)"
  shows "\<exists>L' q' m'. iappend_loop (length c) p ((dnode (t, L, q, c))\<lparr>isize := z\<rparr>) m = Inr (length c + length p, (dnode (t, L', q', c @ p))\<lparr>isize := z\<rparr>, m') \<and>
    blk_ok m' (D[i := (t, L', q', c @ p)]) \<and> desc_full (t, L', q', c @ p) \<and>
    freeblock m' + nb (length c) = freeblock m + nb (length c + length p) \<and> freeinode m' = freeinode m \<and> (\<forall>b < nmeta. img m' b = img m b)"
  using assms
proof (induction "length p" arbitrary: p m D L q c rule: less_induct)
  case less
  show ?case
  proof (cases "p = []")
    case True
    have "D[i := (t, L, q, c)] = D" using less.prems(2,3) list_update_id by metis
    then show ?thesis using less.prems True dnode_size by (intro exI [of _ L] exI [of _ q] exI [of _ m]) (simp add: iappend_loop.simps)
  next
    case False
    let ?n1 = "min (length p) ((length c div BSIZE + 1) * BSIZE - length c)"
    define xs ys where "xs = take ?n1 p" and "ys = drop ?n1 p"
    have B: "length c mod BSIZE < BSIZE" "length c div BSIZE * BSIZE + length c mod BSIZE = length c" by (simp_all add: BSIZE_def)
    then have n: "(length c div BSIZE + 1) * BSIZE - length c = BSIZE - length c mod BSIZE" unfolding add_mult_distrib by linarith
    have xs: "xs \<noteq> []" "length c mod BSIZE + length xs \<le> BSIZE" unfolding xs_def n using False B(1) by auto
    have nx: "?n1 = length xs" unfolding xs_def by simp
    have p: "p = xs @ ys" by (simp add: xs_def ys_def)
    have td: "take (length xs) p = xs" "drop (length xs) p = ys" using p by simp_all
    have le: "length c + length xs \<le> 138 * 512" using less.prems(5) p by simp
    have "nb (length c) \<le> nb (length c + length p)" by (rule nb_mono) simp
    then have f: "freeblock m + 2 \<le> FSSIZE" using less.prems(6) by (simp add: FSSIZE_def)
    from iappend_round [OF less.prems(1-4) xs le f, of z] obtain L1 q1 m1 x m2 where r: "iappend_block (length c div BSIZE) ((dnode (t, L, q, c))\<lparr>isize := z\<rparr>) m = Inr (x, (dnode (t, L1, q1, c @ xs))\<lparr>isize := z\<rparr>, m1)"
      "rsect x m1 = Inr (img m1 x)" "m2 = wsect x (splice (length c mod BSIZE) xs (img m1 x)) m1" and m2: "blk_ok m2 (D[i := (t, L1, q1, c @ xs)])" "desc_full (t, L1, q1, c @ xs)"
      "freeblock m2 + nb (length c) = freeblock m + nb (length c + length xs)" "freeinode m2 = freeinode m" "\<forall>b < nmeta. img m2 b = img m b"
      unfolding Let_def by blast
    let ?D = "D[i := (t, L1, q1, c @ xs)]"
    have i: "i < length ?D" "?D ! i = (t, L1, q1, c @ xs)" using less.prems(2) by simp_all
    have ys: "length ys < length p" using xs(1) p by simp
    have l2: "length (c @ xs) + length ys = length c + length p" using p by simp
    have c2: "length (c @ xs) + length ys \<le> 138 * 512" unfolding l2 by (rule less.prems(5))
    have c3: "freeblock m2 + nb (length (c @ xs) + length ys) < 4096 + nb (length (c @ xs))" unfolding l2 using less.prems(6) m2(3) by simp
    from less.hyps [OF ys m2(1) i m2(2) c2 c3] obtain L' q' m' where m': "iappend_loop (length (c @ xs)) ys ((dnode (t, L1, q1, c @ xs))\<lparr>isize := z\<rparr>) m2 =
        Inr (length (c @ xs) + length ys, (dnode (t, L', q', (c @ xs) @ ys))\<lparr>isize := z\<rparr>, m')" "blk_ok m' (?D[i := (t, L', q', (c @ xs) @ ys)])"
      "desc_full (t, L', q', (c @ xs) @ ys)" "freeblock m' + nb (length (c @ xs)) = freeblock m2 + nb (length (c @ xs) + length ys)" "freeinode m' = freeinode m2" "\<forall>b < nmeta. img m' b = img m2 b"
      by blast
    have cp: "(c @ xs) @ ys = c @ p" using p by simp
    have mf: "length c div BSIZE < MAXFILE" using le xs(1) less_mult_imp_div_less [of "length c" 138 512] by (simp add: BSIZE_def fs_consts)
    have so: "length c - length c div BSIZE * BSIZE = length c mod BSIZE" using B(2) by linarith
    have "iappend_loop (length c) p ((dnode (t, L, q, c))\<lparr>isize := z\<rparr>) m = iappend_loop (length c + length xs) ys ((dnode (t, L1, q1, c @ xs))\<lparr>isize := z\<rparr>) m2"
      unfolding iappend_loop.simps [of "length c" p] Let_def nx so r(3) using False mf r(1,2) by (simp add: td)
    then have "iappend_loop (length c) p ((dnode (t, L, q, c))\<lparr>isize := z\<rparr>) m = Inr (length c + length p, (dnode (t, L', q', c @ p))\<lparr>isize := z\<rparr>, m')"
      using m'(1) unfolding cp l2 by simp
    moreover have "blk_ok m' (D[i := (t, L', q', c @ p)])" "desc_full (t, L', q', c @ p)" using m'(2,3) unfolding cp by simp_all
    moreover have "freeblock m' + nb (length c) = freeblock m + nb (length c + length p)" using m'(4) m2(3) unfolding l2 by simp
    ultimately show ?thesis using m'(5,6) m2(4,5) by (intro exI [of _ L'] exI [of _ q'] exI [of _ m'] conjI) simp_all
  qed
qed

section \<open>The inodes of an image\<close>

definition dino :: "mkst \<Rightarrow> nat \<Rightarrow> inode" where
  "dino m n = get_dinode (img m (IBLOCK n mk_sb)) (doff n) inode0"

definition mk_ok :: "mkst \<Rightarrow> desc list \<Rightarrow> bool" where
  "mk_ok m D \<longleftrightarrow> blk_ok m D \<and> (\<forall>d \<in> set D. desc_full d) \<and> freeinode m = Suc (length D) \<and> length D < 208 \<and>
     (\<forall>i < length D. dino m (Suc i) = dnode (D ! i)) \<and> img m 1 = put_sb mk_sb (replicate BSIZE 0) \<and>
     (\<forall>b. 58 \<le> b \<longrightarrow> b < nmeta \<longrightarrow> img m b = replicate BSIZE 0) \<and> freeblock m < 4096"

lemma IBLOCK_range: "n < 208 \<Longrightarrow> 32 \<le> IBLOCK n mk_sb \<and> IBLOCK n mk_sb < 58"
  by (simp add: IBLOCK_def mk_sb_eq IPB_def)

lemma dino_cong: "img m' (IBLOCK n mk_sb) = img m (IBLOCK n mk_sb) \<Longrightarrow> dino m' n = dino m n"
  by (simp add: dino_def)

lemma desc_ok_dnode:
  assumes d: "desc_ok v d" and b: "\<And>b. b \<in> set (dblocks d) \<Longrightarrow> b < 4096"
  shows "dinode_ok ((dnode d)\<lparr>isize := z\<rparr>) \<longleftrightarrow> z < 2 ^ 32"
proof -
  obtain t L q c where e: "d = (t, L, q, c)" by (cases d)
  have a: "a < 4096" if "a \<in> set (addrs (dnode d))" for a
  proof -
    from that have "a = 0 \<or> a = q \<or> a \<in> set L" by (auto simp: dnode_def e simp del: upt_rec_numeral)
    then show ?thesis using b [of a] by (cases "a = 0") (auto simp: dblocks_def e)
  qed
  have "short_int t" using d by (simp add: desc_ok_def e)
  moreover have "a < 2 ^ 32" if "a \<in> set (addrs (dnode d))" for a using a [OF that] by simp
  moreover have "itype (dnode d) = t" "major (dnode d) = 0" "minor (dnode d) = 0" "nlink (dnode d) = 1" by (simp_all add: dnode_def e inode0_def)
  ultimately show ?thesis by (simp add: dinode_ok_def short_int_def)
qed

text \<open>Writing an inode changes that inode and no other.\<close>

lemma winode_total:
  assumes m: "nsect m = FSSIZE" "\<And>b. length (img m b) = BSIZE" and n: "n < 208" and ip: "dinode_ok ip" "ip = inode0\<lparr>itype := itype ip, major := major ip, minor := minor ip, nlink := nlink ip, isize := isize ip, addrs := addrs ip\<rparr>"
  shows "\<exists>m'. winode n ip m = Inr m' \<and> nsect m' = FSSIZE \<and> freeinode m' = freeinode m \<and> freeblock m' = freeblock m \<and> (\<forall>b. length (img m' b) = BSIZE) \<and>
    (\<forall>b. b < 32 \<or> 58 \<le> b \<longrightarrow> img m' b = img m b) \<and> dino m' n = ip \<and> (\<forall>k. k \<noteq> n \<longrightarrow> dino m' k = dino m k)"
proof -
  let ?b = "IBLOCK n mk_sb"
  let ?m = "wsect ?b (put_dinode (doff n) ip (img m ?b)) m"
  have b: "32 \<le> ?b" "?b < 58" using IBLOCK_range [OF n] by simp_all
  then have "winode n ip m = Inr ?m" using m(1) by (simp add: winode_def rsect_def Let_def FSSIZE_def)
  moreover have "dino ?m n = ip"
  proof -
    have "dino ?m n = get_dinode (put_dinode (doff n) ip (img m ?b)) (doff n) inode0" by (simp add: dino_def wsect_def)
    also have "\<dots> = ip" using get_put_dinode [OF ip(1), of "doff n" "img m ?b" inode0] doff_block [of n] m(2) ip(2) [symmetric] by simp
    finally show ?thesis .
  qed
  moreover have "dino ?m k = dino m k" if "k \<noteq> n" for k
  proof (cases "IBLOCK k mk_sb = ?b")
    case True
    have "get_dinode (put_dinode (doff n) ip (img m ?b)) (doff k) inode0 = get_dinode (img m ?b) (doff k) inode0"
      using doff_apart [OF that True] by (intro get_dinode_cong nth_put_dinode) linarith
    then show ?thesis by (simp add: dino_def wsect_def True)
  qed (simp add: dino_def wsect_def)
  ultimately show ?thesis using b m by (intro exI [of _ ?m]) (auto simp: wsect_def FSSIZE_def)
qed

lemma dnode_fields: "(dnode d)\<lparr>isize := z\<rparr> = inode0\<lparr>itype := itype (dnode d), major := major (dnode d), minor := minor (dnode d), nlink := nlink (dnode d), isize := z, addrs := addrs (dnode d)\<rparr>"
  by (simp add: dnode_def inode0_def split: prod.split)

lemma blk_ok_cong:
  assumes "blk_ok m D" and "nsect m' = FSSIZE" and "freeblock m' = freeblock m" and "\<And>b. length (img m' b) = BSIZE" and "\<And>b. nmeta \<le> b \<Longrightarrow> img m' b = img m b"
  shows "blk_ok m' D"
proof -
  have "desc_ok (img m') d" if "d \<in> set D" for d
  proof -
    from that obtain i where i: "i < length D" "D ! i = d" unfolding in_set_conv_nth by blast
    have "desc_ok (img m') d = desc_ok (img m) d" using blk_range [OF assms(1) i(1)] i(2) assms(5) by (intro desc_ok_cong) simp
    then show ?thesis using assms(1) that by (simp add: blk_ok_def)
  qed
  then show ?thesis using assms by (auto simp: blk_ok_def)
qed

text \<open>
  What matters of an image is the list of the types and contents of its files, in the order of their inodes. \<open>cost\<close> is the number of sectors in use.
\<close>

definition files_of :: "desc list \<Rightarrow> (int \<times> byte list) list" where
  "files_of D = map (\<lambda>(t, L, q, c). (t, c)) D"

definition has :: "mkst \<Rightarrow> (int \<times> byte list) list \<Rightarrow> bool" where
  "has m F \<longleftrightarrow> (\<exists>D. mk_ok m D \<and> files_of D = F)"

definition cost :: "(int \<times> byte list) list \<Rightarrow> nat" where
  "cost F = nmeta + sum_list (map (\<lambda>f. nb (length (snd f))) F)"

lemma blk_cost:
  assumes "blk_ok m D" and "\<forall>d \<in> set D. desc_full d"
  shows "freeblock m = cost (files_of D)"
proof -
  have "length (dblocks d) = nb (length (snd (case d of (t, L, q, c) \<Rightarrow> (t, c))))" if "d \<in> set D" for d
  proof -
    have "desc_ok (img m) d" "desc_full d" using assms that by (simp_all add: blk_ok_def)
    then show ?thesis by (cases d) (simp add: desc_nb)
  qed
  then have e: "map (\<lambda>d. length (dblocks d)) D = map (\<lambda>d. nb (length (snd (case d of (t, L, q, c) \<Rightarrow> (t, c))))) D" by simp
  show ?thesis using blk_count [OF assms(1), unfolded e] by (simp add: cost_def files_of_def comp_def)
qed

lemma mk_ok_cost: "mk_ok m D \<Longrightarrow> freeblock m = cost (files_of D)"
  unfolding mk_ok_def using blk_cost by blast

lemma cost_update: "i < length F \<Longrightarrow> cost (F[i := f]) + nb (length (snd (F ! i))) = cost F + nb (length (snd f))"
  using sum_list_nat_update [of i "map (\<lambda>f. nb (length (snd f))) F" "nb (length (snd f))"] by (simp add: cost_def map_update)

lemma isize_dnode: "isize (dnode (t, L, q, c)) = length c"
  by (simp add: dnode_def)

lemma iappend_total:
  assumes h: "has m F" and i: "i < length F" "F ! i = (t, c)" and l: "length (c @ p) \<le> 138 * 512" "cost (F[i := (t, c @ p)]) < 4096"
  shows "\<exists>m'. iappend (Suc i) p m = Inr m' \<and> has m' (F[i := (t, c @ p)])"
proof -
  from h obtain D where D: "mk_ok m D" "files_of D = F" by (auto simp: has_def)
  have iD: "i < length D" using i(1) D(2) by (auto simp: files_of_def)
  obtain t' L q c' where e: "D ! i = (t', L, q, c')" by (cases "D ! i")
  then have Di: "D ! i = (t, L, q, c)" using i iD D(2) by (auto simp: files_of_def)
  have b: "blk_ok m D" "desc_full (t, L, q, c)" "dino m (Suc i) = dnode (t, L, q, c)" using D(1) Di iD by (auto simp: mk_ok_def dest: nth_mem)
  have k: "freeblock m + nb (length c + length p) < 4096 + nb (length c)" using cost_update [OF i(1), of "(t, c @ p)"] l(2) mk_ok_cost [OF D(1)] D(2) i(2) by simp
  have l': "length c + length p \<le> 138 * 512" using l(1) by simp
  have n: "Suc i < 208" using D(1) iD by (simp add: mk_ok_def)
  have dn: "dnode (t, L, q, c) = (dnode (t, L, q, c))\<lparr>isize := length c\<rparr>" by (simp add: dnode_def)
  have r: "rinode (Suc i) m = Inr (dnode (t, L, q, c))" using IBLOCK_range [OF n] b(1,3) by (simp add: rinode_def rsect_def blk_ok_def FSSIZE_def dino_def)
  from iappend_loop_total [OF b(1) iD Di b(2) l' k, of "length c"] obtain L' q' m1 where m1: "iappend_loop (length c) p (dnode (t, L, q, c)) m = Inr (length c + length p, (dnode (t, L', q', c @ p))\<lparr>isize := length c\<rparr>, m1)"
    "blk_ok m1 (D[i := (t, L', q', c @ p)])" "desc_full (t, L', q', c @ p)" "freeblock m1 + nb (length c) = freeblock m + nb (length c + length p)" "freeinode m1 = freeinode m" "\<forall>b < nmeta. img m1 b = img m b"
    unfolding dn [symmetric] by blast
  let ?d = "(t, L', q', c @ p)" and ?D = "D[i := (t, L', q', c @ p)]"
  have iD': "i < length ?D" "?D ! i = ?d" using iD by simp_all
  note d' = blk_descD [OF m1(2) iD']
  have f: "freeblock m1 < 4096" using m1(4) k by simp
  have z: "dnode ?d = (dnode ?d)\<lparr>isize := length c + length p\<rparr>" by (simp add: dnode_def)
  have ok: "dinode_ok (dnode ?d)" using desc_ok_dnode [OF d'(1), of "length c + length p"] d'(3) f l' z by fastforce
  have m1': "nsect m1 = FSSIZE" "\<And>b. length (img m1 b) = BSIZE" using m1(2) by (simp_all add: blk_ok_def)
  have df: "dnode ?d = inode0\<lparr>itype := itype (dnode ?d), major := major (dnode ?d), minor := minor (dnode ?d), nlink := nlink (dnode ?d), isize := isize (dnode ?d), addrs := addrs (dnode ?d)\<rparr>"
    by (simp add: dnode_def inode0_def)
  from winode_total [OF m1' n ok df] obtain m' where m': "winode (Suc i) (dnode ?d) m1 = Inr m'" "nsect m' = FSSIZE" "freeinode m' = freeinode m1" "freeblock m' = freeblock m1"
    "\<forall>b. length (img m' b) = BSIZE" "\<forall>b. b < 32 \<or> 58 \<le> b \<longrightarrow> img m' b = img m1 b" "dino m' (Suc i) = dnode ?d" "\<forall>k. k \<noteq> Suc i \<longrightarrow> dino m' k = dino m1 k" by blast
  have "iappend (Suc i) p m = Inr m'"
    using r m1(1) m'(1) by (simp add: iappend_def isize_dnode z [symmetric])
  moreover have "blk_ok m' ?D" using m' by (intro blk_ok_cong [OF m1(2)]) (simp_all add: nmeta_eq)
  moreover have "dino m1 k = dino m k" if "k < 208" for k using IBLOCK_range [OF that] m1(6) by (intro dino_cong) (simp add: nmeta_eq)
  moreover have "\<forall>d \<in> set ?D. desc_full d" using D(1) m1(3) set_update_subset_insert [of D i ?d] by (auto simp: mk_ok_def)
  ultimately have "mk_ok m' ?D" using D(1) m' m1(5,6) f iD by (auto simp: mk_ok_def nth_list_update nmeta_eq)
  moreover have "files_of ?D = F[i := (t, c @ p)]" using D(2) by (simp add: files_of_def map_update)
  ultimately show ?thesis using \<open>iappend (Suc i) p m = Inr m'\<close> by (auto simp: has_def)
qed

lemma mk_ialloc_total:
  assumes h: "has m F" and F: "Suc (length F) < 208" and t: "short_int t"
  shows "\<exists>m'. mk_ialloc t m = Inr (Suc (length F), m') \<and> has m' (F @ [(t, [])])"
proof -
  from h obtain D where D: "mk_ok m D" "files_of D = F" by (auto simp: has_def)
  have n: "length F = length D" using D(2) by (auto simp: files_of_def)
  let ?d = "(t, [], 0, []) :: desc" and ?m = "m\<lparr>freeinode := Suc (Suc (length D))\<rparr>"
  have ip: "inode0\<lparr>itype := t, nlink := 1, isize := 0\<rparr> = dnode ?d" by (simp add: dnode_def inode0_def numeral_eq_Suc)
  have d: "desc_ok v ?d" for v using t by (simp add: desc_ok_def)
  have z: "dnode ?d = (dnode ?d)\<lparr>isize := 0\<rparr>" by (simp add: dnode_def)
  have ok: "dinode_ok (dnode ?d)" by (subst z, subst desc_ok_dnode [OF d]) (simp_all add: dblocks_def)
  have df: "dnode ?d = inode0\<lparr>itype := itype (dnode ?d), major := major (dnode ?d), minor := minor (dnode ?d), nlink := nlink (dnode ?d), isize := isize (dnode ?d), addrs := addrs (dnode ?d)\<rparr>"
    by (simp add: dnode_def inode0_def)
  have m: "nsect ?m = FSSIZE" "\<And>b. length (img ?m b) = BSIZE" using D(1) by (simp_all add: mk_ok_def blk_ok_def)
  from winode_total [OF m F ok df] obtain m' where m': "winode (Suc (length F)) (dnode ?d) ?m = Inr m'" "nsect m' = FSSIZE" "freeinode m' = freeinode ?m" "freeblock m' = freeblock ?m"
    "\<forall>b. length (img m' b) = BSIZE" "\<forall>b. b < 32 \<or> 58 \<le> b \<longrightarrow> img m' b = img ?m b" "dino m' (Suc (length F)) = dnode ?d" "\<forall>k. k \<noteq> Suc (length F) \<longrightarrow> dino m' k = dino ?m k" by blast
  have a: "mk_ialloc t m = Inr (Suc (length F), m')" using m'(1) ip D(1) by (simp add: mk_ialloc_def Let_def mk_ok_def n)
  have "blk_ok m D" using D(1) by (simp add: mk_ok_def)
  then have "blk_ok m' D" by (rule blk_ok_cong) (use m'(2,4,5,6) in \<open>simp_all add: nmeta_eq\<close>)
  then have "blk_ok m' (D @ [?d])" using d by (auto simp: blk_ok_def dblocks_def)
  moreover have "dino m' (Suc i) = dnode ((D @ [?d]) ! i)" if "i < length (D @ [?d])" for i
  proof (cases "i = length D")
    case False
    then have "dino m' (Suc i) = dino ?m (Suc i)" using m'(8) n by simp
    then show ?thesis using False that D(1) by (simp add: dino_def nth_append mk_ok_def)
  qed (use m'(7) n in simp)
  moreover have "img m' 1 = put_sb mk_sb (replicate BSIZE 0)" "\<forall>b. 58 \<le> b \<longrightarrow> b < nmeta \<longrightarrow> img m' b = replicate BSIZE 0" using m'(6) D(1) by (simp_all add: mk_ok_def)
  ultimately have "mk_ok m' (D @ [?d])" using D(1) m'(3,4) F n by (simp add: mk_ok_def desc_full_def)
  moreover have "files_of (D @ [?d]) = F @ [(t, [])]" using D(2) by (simp add: files_of_def)
  ultimately show ?thesis using a by (auto simp: has_def)
qed

section \<open>Building the image\<close>

text \<open>The directory entries for the host's files, from inode \<open>k\<close> on, and the files of the finished image.\<close>

primrec entries :: "nat \<Rightarrow> hostfile list \<Rightarrow> byte list" where
  "entries k [] = []"
| "entries k (f # fs) = de_pack (mk_name (fst f)) k @ entries (Suc k) fs"

definition root_data :: "hostfile list \<Rightarrow> byte list" where
  "root_data fs = de_pack [46] 1 @ de_pack [46, 46] 1 @ entries 2 fs"

definition image_files :: "hostfile list \<Rightarrow> (int \<times> byte list) list" where
  "image_files fs = (T_DIR, root_data fs) # map (\<lambda>f. (T_FILE, file_data (snd f))) fs"

lemma length_de_pack [simp]: "length (de_pack nm k) = 16"
  by (simp add: de_pack_def Let_def DIRSIZ_def)

lemma length_entries: "length (entries k fs) = 16 * length fs"
  by (induction fs arbitrary: k) simp_all

lemma cost_Cons: "cost (f # F) = nb (length (snd f)) + cost F"
  by (simp add: cost_def)

lemma cost_append: "cost (F @ G) + nmeta = cost F + cost G"
  by (simp add: cost_def)

lemma mk_reads_total:
  assumes "has m F" and "i < length F" and "F ! i = (t, c)" and "length (c @ file_data cs) \<le> 138 * 512" and "cost (F[i := (t, c @ file_data cs)]) < 4096"
  shows "\<exists>m'. mk_reads (Suc i) cs m = Inr m' \<and> has m' (F[i := (t, c @ file_data cs)])"
  using assms
proof (induction cs arbitrary: m F c)
  case Nil
  have "F[i := (t, c)] = F" using Nil.prems(3) list_update_id by metis
  then show ?case using Nil.prems(1) by (simp add: file_data_def)
next
  case (Cons x cs)
  show ?case
  proof (cases "x = []")
    case True
    have "F[i := (t, c)] = F" using Cons.prems(3) list_update_id by metis
    then show ?thesis using Cons.prems(1) True by (simp add: file_data_def)
  next
    case False
    then have d: "file_data (x # cs) = x @ file_data cs" by (simp add: file_data_def)
    let ?F = "F[i := (t, c @ x)]"
    have "nb (length (c @ x)) \<le> nb (length (c @ file_data (x # cs)))" by (rule nb_mono) (simp add: d)
    then have c: "cost ?F < 4096" using cost_update [OF Cons.prems(2), of "(t, c @ x)"] cost_update [OF Cons.prems(2), of "(t, c @ file_data (x # cs))"] Cons.prems(5)
      unfolding snd_conv by linarith
    have l: "length (c @ x) \<le> 138 * 512" using Cons.prems(4) unfolding d by simp
    from iappend_total [OF Cons.prems(1-3) l c] obtain m1 where m1: "iappend (Suc i) x m = Inr m1" "has m1 ?F" by blast
    have "\<exists>m'. mk_reads (Suc i) cs m1 = Inr m' \<and> has m' (?F[i := (t, (c @ x) @ file_data cs)])"
      by (rule Cons.IH [OF m1(2)]) (use Cons.prems(2,4,5) in \<open>simp_all add: d\<close>)
    then show ?thesis using False m1(1) by (simp add: d)
  qed
qed

lemma mk_files_total:
  assumes "has m ((T_DIR, r) # G)" and "\<forall>f \<in> set fs. 47 \<notin> set (fst f) \<and> length (file_data (snd f)) \<le> 138 * 512"
    and "Suc (length G + length fs) < 208" and "length r + 16 * length fs \<le> 138 * 512"
    and "cost ((T_DIR, r @ entries (length G + 2) fs) # G @ map (\<lambda>f. (T_FILE, file_data (snd f))) fs) < 4096"
  shows "\<exists>m'. mk_files fs m = Inr m' \<and> has m' ((T_DIR, r @ entries (length G + 2) fs) # G @ map (\<lambda>f. (T_FILE, file_data (snd f))) fs)"
  using assms
proof (induction fs arbitrary: m r G)
  case (Cons f fs)
  let ?k = "length G + 2" and ?c = "file_data (snd f)" and ?r = "r @ de_pack (mk_name (fst f)) (length G + 2)"
  let ?rest = "map (\<lambda>f. (T_FILE, file_data (snd f))) fs"
  have n: "nb (length ?r) \<le> nb (length (r @ entries ?k (f # fs)))" by (rule nb_mono) simp
  have tot: "cost ((T_DIR, ?r) # (G @ [(T_FILE, ?c)])) < 4096"
    using Cons.prems(5) n cost_append [of "G @ [(T_FILE, ?c)]" ?rest] by (simp add: cost_Cons cost_def)
  have short: "short_int T_FILE" by (simp add: short_int_def fs_consts)
  from mk_ialloc_total [OF Cons.prems(1) _ short] Cons.prems(3) obtain m1 where m1: "mk_ialloc T_FILE m = Inr (?k, m1)" "has m1 ((T_DIR, r) # G @ [(T_FILE, [])])" by auto
  let ?F = "(T_DIR, r) # G @ [(T_FILE, [])]"
  have nb0: "nb 0 = 0" by (simp add: nb_def)
  have "cost (?F[0 := (T_DIR, ?r)]) < 4096" using tot by (simp add: cost_Cons cost_def nb0)
  moreover have "length ?r \<le> 138 * 512" using Cons.prems(4) by simp
  ultimately obtain m2 where m2: "iappend ROOTINO (de_pack (mk_name (fst f)) ?k) m1 = Inr m2" "has m2 ((T_DIR, ?r) # G @ [(T_FILE, [])])"
    using iappend_total [OF m1(2), of 0 T_DIR r "de_pack (mk_name (fst f)) ?k"] by (auto simp: ROOTINO_def)
  let ?F2 = "(T_DIR, ?r) # G @ [(T_FILE, [])]"
  have u: "?F2[Suc (length G) := (T_FILE, [] @ ?c)] = (T_DIR, ?r) # G @ [(T_FILE, ?c)]" by (simp add: list_update_append)
  have "\<exists>m'. mk_reads (Suc (Suc (length G))) (snd f) m2 = Inr m' \<and> has m' (?F2[Suc (length G) := (T_FILE, [] @ ?c)])"
    using Cons.prems(2) tot u by (intro mk_reads_total [OF m2(2)]) (simp_all add: nth_append)
  then obtain m3 where m3: "mk_reads ?k (snd f) m2 = Inr m3" "has m3 ((T_DIR, ?r) # (G @ [(T_FILE, ?c)]))" unfolding u by auto
  have e: "r @ entries ?k (f # fs) = ?r @ entries (length (G @ [(T_FILE, ?c)]) + 2) fs" by simp
  have "\<exists>m'. mk_files fs m3 = Inr m' \<and> has m' ((T_DIR, ?r @ entries (length (G @ [(T_FILE, ?c)]) + 2) fs) # (G @ [(T_FILE, ?c)]) @ ?rest)"
    by (rule Cons.IH [OF m3(2)]) (use Cons.prems(2-5) in \<open>simp_all\<close>)
  then show ?case unfolding e using Cons.prems(2) m1(1) m2(1) m3(1) by simp
qed simp

lemma fold_wsect_zero:
  "fold (\<lambda>i. wsect i (replicate BSIZE 0)) [0..<n] \<lparr>img = (\<lambda>_. replicate BSIZE 0), nsect = 0, freeinode = a, freeblock = b\<rparr> =
    \<lparr>img = (\<lambda>_. replicate BSIZE 0), nsect = n, freeinode = a, freeblock = b\<rparr>"
  by (induction n) (simp_all add: wsect_def fun_eq_iff)

lemma length_put_sb [simp]: "length (put_sb b d) = length d"
  by (simp add: put_sb_def)

lemma has_start: "has mk_start []"
proof -
  have e: "mk_start = \<lparr>img = (\<lambda>_. replicate BSIZE 0)(1 := put_sb mk_sb (replicate BSIZE 0)), nsect = FSSIZE, freeinode = 1, freeblock = nmeta\<rparr>"
    unfolding mk_start_def Let_def fold_wsect_zero by (simp add: wsect_def FSSIZE_def)
  have "mk_ok mk_start []" unfolding mk_ok_def blk_ok_def e by (simp add: nmeta_eq)
  then show ?thesis by (auto simp: has_def files_of_def)
qed

lemma get_sb_put_sb: "get_sb (put_sb mk_sb (replicate BSIZE 0)) = mk_sb"
  by (simp add: get_sb_def put_sb_def mk_sb_eq get32_put32 get32_put32_other BSIZE_def)

lemma mk_root_total: "\<exists>m. mk_root mk_start = Inr m \<and> has m [(T_DIR, root_data [])]"
proof -
  have t: "short_int T_DIR" by (simp add: short_int_def fs_consts)
  from mk_ialloc_total [OF has_start _ t] obtain m1 where m1: "mk_ialloc T_DIR mk_start = Inr (1, m1)" "has m1 [(T_DIR, [])]" by auto
  have c: "cost [(T_DIR, c)] < 4096" if "length c \<le> 32" for c using nb_mono [OF that] by (simp add: cost_def nb_def nmeta_eq)
  from iappend_total [OF m1(2), of 0 T_DIR "[]" "de_pack [46] 1"] c [of "de_pack [46] 1"] obtain m2 where m2: "iappend 1 (de_pack [46] 1) m1 = Inr m2" "has m2 [(T_DIR, de_pack [46] 1)]" by auto
  from iappend_total [OF m2(2), of 0 T_DIR _ "de_pack [46, 46] 1"] c [of "root_data []"] obtain m3 where m3: "iappend 1 (de_pack [46, 46] 1) m2 = Inr m3" "has m3 [(T_DIR, root_data [])]"
    by (auto simp: root_data_def)
  show ?thesis using m1(1) m2(1) m3 by (simp add: mk_root_def ROOTINO_def)
qed

lemma used_fold: "n \<le> 8 * length d \<Longrightarrow> bit_used (fold set_used [0..<n] d) b = (b < n \<or> bit_used d b) \<and> length (fold set_used [0..<n] d) = length d"
  by (induction n) (auto simp: bit_used_set)

text \<open>
  A finished image: the files' blocks and inodes as before, the size of the root directory rounded up, and the free map.
\<close>

definition root_size :: "nat \<Rightarrow> nat" where
  "root_size n = (n div BSIZE + 1) * BSIZE"

definition image_ok :: "mkst \<Rightarrow> desc list \<Rightarrow> bool" where
  "image_ok m D \<longleftrightarrow> blk_ok m D \<and> (\<forall>d \<in> set D. desc_full d) \<and> length D < 208 \<and> get_sb (img m 1) = mk_sb \<and> freeblock m < 4096 \<and>
     (\<forall>i < length D. dino m (Suc i) = (dnode (D ! i))\<lparr>isize := if i = 0 then root_size (isize (dnode (D ! i))) else isize (dnode (D ! i))\<rparr>) \<and>
     (\<forall>b < FSSIZE. block_used mk_sb (img m) b = (b < freeblock m))"

lemma isize_dnode_le: "desc_ok v d \<Longrightarrow> isize (dnode d) \<le> 138 * 512"
  by (cases d) (auto simp: desc_ok_def dnode_def fs_consts BSIZE_def)

lemma mk_finish_total:
  assumes m: "mk_ok m D" and D: "D \<noteq> []"
  shows "\<exists>m'. mk_finish m = Inr m' \<and> image_ok m' D"
proof -
  let ?d = "D ! 0" and ?z = "root_size (isize (dnode (D ! 0)))"
  have b: "blk_ok m D" "0 < length D" "dino m 1 = dnode ?d" "nsect m = FSSIZE" "\<And>b. length (img m b) = BSIZE" "freeblock m < 4096" using m D by (auto simp: mk_ok_def blk_ok_def)
  note d = blk_descD [OF b(1,2) refl]
  have r: "rinode ROOTINO m = Inr (dnode ?d)" using IBLOCK_range [of 1] b(3,4) by (simp add: rinode_def rsect_def FSSIZE_def dino_def ROOTINO_def)
  have "isize (dnode ?d) div BSIZE \<le> isize (dnode ?d)" by (rule div_le_dividend)
  then have zl: "?z < 2 ^ 32" using isize_dnode_le [OF d(1)] by (simp add: root_size_def BSIZE_def)
  have ok: "dinode_ok ((dnode ?d)\<lparr>isize := ?z\<rparr>)" using desc_ok_dnode [OF d(1), of ?z] d(3) b(6) zl by fastforce
  have one: "(1::nat) < 208" by simp
  have df: "(dnode ?d)\<lparr>isize := ?z\<rparr> = inode0\<lparr>itype := itype ((dnode ?d)\<lparr>isize := ?z\<rparr>), major := major ((dnode ?d)\<lparr>isize := ?z\<rparr>), minor := minor ((dnode ?d)\<lparr>isize := ?z\<rparr>),
      nlink := nlink ((dnode ?d)\<lparr>isize := ?z\<rparr>), isize := isize ((dnode ?d)\<lparr>isize := ?z\<rparr>), addrs := addrs ((dnode ?d)\<lparr>isize := ?z\<rparr>)\<rparr>"
    using dnode_fields [of ?z ?d] by simp
  from winode_total [OF b(4,5) one ok df] obtain m1 where m1: "winode 1 ((dnode ?d)\<lparr>isize := ?z\<rparr>) m = Inr m1" "nsect m1 = FSSIZE" "freeinode m1 = freeinode m" "freeblock m1 = freeblock m"
    "\<forall>b. length (img m1 b) = BSIZE" "\<forall>b. b < 32 \<or> 58 \<le> b \<longrightarrow> img m1 b = img m b" "dino m1 1 = (dnode ?d)\<lparr>isize := ?z\<rparr>" "\<forall>k. k \<noteq> 1 \<longrightarrow> dino m1 k = dino m k" by blast
  let ?map = "fold set_used [0..<freeblock m] (replicate BSIZE 0)" and ?f = "freeblock m"
  let ?m = "wsect 58 ?map m1"
  have "mk_finish m = Inr ?m"
    using r m1(1,4) b(6) by (simp add: mk_finish_def ROOTINO_def root_size_def mk_balloc_def BSIZE_def mk_sb_eq)
  moreover have "image_ok ?m D"
  proof -
    have z: "\<not> bit_used (replicate BSIZE 0) b" if "b < 4096" for b using that by (simp add: bit_used_bit BSIZE_def less_mult_imp_div_less)
    have fm: "bit_used ?map b = (b < ?f)" if "b < 4096" for b using used_fold [of ?f "replicate BSIZE 0" b] z [OF that] b(6) by (simp add: BSIZE_def)
    have lm: "length ?map = BSIZE" using used_fold [of ?f "replicate BSIZE 0"] b(6) by (simp add: BSIZE_def)
    have nsm: "nsect ?m = FSSIZE" using m1(2) by (simp add: wsect_def FSSIZE_def)
    have "blk_ok ?m D" by (rule blk_ok_cong [OF b(1) nsm]) (use m1(4-6) lm in \<open>auto simp: wsect_def nmeta_eq\<close>)
    moreover have "dino ?m k = dino m1 k" if "k < 208" for k using IBLOCK_range [OF that] by (intro dino_cong) (simp add: wsect_def)
    moreover have "get_sb (img ?m 1) = mk_sb" using m1(6) m get_sb_put_sb by (simp add: wsect_def mk_ok_def)
    moreover have "block_used mk_sb (img ?m) b = (b < ?f)" if "b < FSSIZE" for b
    proof (cases "b < 4096")
      case True
      then show ?thesis using fm [of b] by (simp add: block_used_def BBLOCK_def BPB_def BSIZE_def mk_sb_eq wsect_def)
    next
      case False
      have q: "1 \<le> b div 4096" "b div 4096 < 10" using False that div_le_mono [of 4096 b 4096] by (simp_all add: FSSIZE_def less_mult_imp_div_less)
      have "img ?m (b div 4096 + 58) = replicate BSIZE 0" using q m1(6) m by (simp add: wsect_def mk_ok_def nmeta_eq)
      then show ?thesis using False b(6) z [of "b mod 4096"] by (simp add: block_used_def BBLOCK_def BPB_def BSIZE_def mk_sb_eq)
    qed
    moreover have "dino m1 (Suc i) = (dnode (D ! i))\<lparr>isize := if i = 0 then root_size (isize (dnode (D ! i))) else isize (dnode (D ! i))\<rparr>" if "i < length D" for i
      using m1(7,8) m that by (cases i) (simp_all add: mk_ok_def)
    ultimately show ?thesis using m m1(4) by (auto simp: image_ok_def mk_ok_def wsect_def)
  qed
  ultimately show ?thesis by blast
qed

lemma mkfs_total:
  assumes "\<forall>f \<in> set fs. 47 \<notin> set (fst f) \<and> length (file_data (snd f)) \<le> 138 * 512" and "Suc (length fs) < 208" and "cost (image_files fs) < 4096"
  shows "\<exists>m D. mkfs fs = Inr m \<and> image_ok m D \<and> files_of D = image_files fs"
proof -
  from mk_root_total obtain m1 where m1: "mk_root mk_start = Inr m1" "has m1 [(T_DIR, root_data [])]" by blast
  have e: "root_data fs = root_data [] @ entries 2 fs" by (simp add: root_data_def)
  from mk_files_total [of m1 "root_data []" "[]" fs] obtain m2 where m2: "mk_files fs m1 = Inr m2" "has m2 (image_files fs)"
    using assms m1(2) by (auto simp: image_files_def e root_data_def numeral_2_eq_2)
  then obtain D where D: "mk_ok m2 D" "files_of D = image_files fs" by (auto simp: has_def)
  then have "D \<noteq> []" by (auto simp: files_of_def image_files_def)
  from mk_finish_total [OF D(1) this] obtain m' where "mk_finish m2 = Inr m'" "image_ok m' D" by blast
  then show ?thesis using D(2) m1(1) m2(1) by (auto simp: mkfs_def)
qed

section \<open>The kernel reads the image\<close>

lemma file_addr_addrs: "addrs ip = addrs jp \<Longrightarrow> file_addr v ip bn = file_addr v jp bn"
  by (simp add: file_addr_def split: option.split)

lemma desc_trees:
  assumes d: "desc_ok v (t, L, q, c)" and A: "addrs ip = addrs (dnode (t, L, q, c))" and z: "0 \<notin> set L" and u: "distinct (dblocks (t, L, q, c))" and k: "k < 13"
  shows "ino_tree v ip k = (if k < 10 then if k < length L then {L ! k} else {} else if k = 10 \<and> q \<noteq> 0 then insert q (set (drop 10 L)) else {})"
    and "tree_ok v (level k) (addrs ip ! k)"
proof -
  have N: "NDIRECT = 10" "NINDIRECT = 128" by (simp_all add: fs_consts)
  note a = addrs_dnode [OF d]
  have a2: "addrs (dnode (t, L, q, c)) ! k = 0" if "10 < k" using that k by (auto simp: dnode_def nth_append nth_Cons' simp del: upt_rec_numeral)
  have L: "length L \<le> 138" using d by (simp add: desc_ok_def N)
  have i: "ind v q j = (if 10 + j < length L then L ! (10 + j) else 0)" if "q \<noteq> 0" "j < 128" for j using d that by (simp add: desc_ok_def N)
  have nz: "L ! j \<noteq> 0" if "j < length L" for j using z that nth_mem by metis
  have tb: "tree_blocks v 0 (ind v q j) = (if 10 + j < length L then {L ! (10 + j)} else {})" if "q \<noteq> 0" "j < 128" for j using i [OF that] nz [of "10 + j"] by auto
  have un: "(\<Union>j < 128. tree_blocks v 0 (ind v q j)) = set (drop 10 L)" if "q \<noteq> 0"
  proof -
    have s: "set (drop 10 L) = {L ! (10 + j) |j. j < length L - 10}" using nth_drop [of 10 L] L by (cases "10 \<le> length L") (auto simp: set_conv_nth)
    have "x \<in> (\<Union>j < 128. tree_blocks v 0 (ind v q j)) \<longleftrightarrow> (\<exists>j < length L - 10. x = L ! (10 + j))" for x
    proof
      assume "x \<in> (\<Union>j < 128. tree_blocks v 0 (ind v q j))"
      then obtain j where "j < 128" "x \<in> tree_blocks v 0 (ind v q j)" by blast
      then show "\<exists>j < length L - 10. x = L ! (10 + j)" using tb [OF that, of j] by (intro exI [of _ j]) (auto split: if_splits)
    next
      assume "\<exists>j < length L - 10. x = L ! (10 + j)"
      then obtain j where j: "j < length L - 10" "x = L ! (10 + j)" by blast
      then have "x \<in> tree_blocks v 0 (ind v q j)" "j < 128" using tb [OF that, of j] L by auto
      then show "x \<in> (\<Union>j < 128. tree_blocks v 0 (ind v q j))" by blast
    qed
    then show ?thesis unfolding s by blast
  qed
  show "ino_tree v ip k = (if k < 10 then if k < length L then {L ! k} else {} else if k = 10 \<and> q \<noteq> 0 then insert q (set (drop 10 L)) else {})"
  proof -
    consider "k < 10" | "k = 10" | "10 < k" by linarith
    then show ?thesis
    proof cases
      case 1
      then show ?thesis using a(1) [OF 1] nz [of k] by (cases "k < length L") (simp_all add: ino_tree_def A level_def N)
    next
      case 2
      then show ?thesis using a(2) un by (simp add: ino_tree_def A level_def N)
    next
      case 3
      then show ?thesis using a2 by (simp add: ino_tree_def A)
    qed
  qed
  show "tree_ok v (level k) (addrs ip ! k)"
  proof (cases "k = 10 \<and> q \<noteq> 0")
    case True
    have dis: "distinct L" "q \<notin> set L" using u True by (auto simp: dblocks_def)
    have "q \<notin> tree_blocks v 0 (ind v q j)" if "j < 128" for j using tb [of j] True that dis(2) nth_mem [of "10 + j" L] by (auto split: if_splits)
    moreover have "tree_blocks v 0 (ind v q j) \<inter> tree_blocks v 0 (ind v q j') = {}" if "j < 128" "j' < 128" "j \<noteq> j'" for j j'
      using tb [of j] tb [of j'] True that dis(1) by (auto simp: nth_eq_iff_index_eq split: if_splits)
    ultimately show ?thesis using True a(2) by (simp add: A level_def N del: tree_blocks.simps)
  next
    case False
    then show ?thesis using a2 a(2) k by (cases "k < 10") (auto simp: A level_def N not_less le_less)
  qed
qed

lemma desc_file_ok:
  assumes d: "desc_ok v (t, L, q, c)" and A: "addrs ip = addrs (dnode (t, L, q, c))" and z: "0 \<notin> set L" and u: "distinct (dblocks (t, L, q, c))"
    and b: "set (dblocks (t, L, q, c)) \<subseteq> {..<sb_size b0} - (bitmap b0 \<union> free_set b0 v)"
  shows "file_ok b0 v ip"
proof -
  note T = desc_trees [OF d A z u]
  have dis: "distinct L" "q \<noteq> 0 \<Longrightarrow> q \<notin> set L" using u by (auto simp: dblocks_def)
  have sub: "ino_tree v ip k \<subseteq> set (dblocks (t, L, q, c))" if "k < 13" for k
    using T(1) [OF that] by (auto simp: dblocks_def dest: in_set_dropD split: if_splits)
  have tk: "L ! j \<notin> set (drop 10 L)" if "j < 10" "j < length L" for j
  proof -
    have "set (take 10 L) \<inter> set (drop 10 L) = {}" using dis(1) by (metis append_take_drop_id distinct_append)
    moreover have "L ! j \<in> set (take 10 L)" using that by (simp add: in_set_conv_nth) (metis min_less_iff_conj nth_take)
    ultimately show ?thesis by blast
  qed
  have "ino_tree v ip j \<inter> ino_tree v ip k = {}" if "j < 13" "k < 13" "j \<noteq> k" for j k
    using T(1) [OF that(1)] T(1) [OF that(2)] that(3) tk [of j] tk [of k] dis by (auto simp: nth_eq_iff_index_eq split: if_splits)
  then show ?thesis using T(2) sub b A by (simp add: file_ok_def subset_iff)
qed

lemma image_file:
  assumes m: "image_ok m D" and i: "i < length D" "D ! i = (t, L, q, c)" and A: "addrs ip = addrs (dnode (t, L, q, c))"
  shows "file_ok mk_sb (img m) ip" and "p < BSIZE * length L \<Longrightarrow> file_addr (img m) ip (p div BSIZE) \<noteq> 0 \<and> file_byte (img m) ip p = (if p < length c then c ! p else 0)"
proof -
  have b: "blk_ok m D" using m by (simp add: image_ok_def)
  note d = blk_descD [OF b i]
  have z: "0 \<notin> set L" using d(3) [of 0] by (auto simp: dblocks_def nmeta_eq)
  have "bitmap mk_sb \<subseteq> {..<nmeta}"
  proof
    fix x assume "x \<in> bitmap mk_sb"
    then obtain n where "n < 40000" "x = n div 4096 + 58" by (auto simp: bitmap_def BBLOCK_def BPB_def BSIZE_def mk_sb_eq)
    then show "x \<in> {..<nmeta}" by (simp add: nmeta_eq less_mult_imp_div_less)
  qed
  then have "b \<in> {..<sb_size mk_sb} - (bitmap mk_sb \<union> free_set mk_sb (img m))" if "b \<in> set (dblocks (t, L, q, c))" for b
    using d(3) [OF that] m by (auto simp: image_ok_def free_set_def mk_sb_eq FSSIZE_def)
  then show "file_ok mk_sb (img m) ip" by (intro desc_file_ok [OF d(1) A z d(2)]) blast
  assume p: "p < BSIZE * length L"
  have l: "p div BSIZE < length L" using p by (simp add: less_mult_imp_div_less mult.commute)
  have nz: "L ! (p div BSIZE) \<noteq> 0" using z nth_mem [OF l] by metis
  have "file_addr (img m) ip (p div BSIZE) = L ! (p div BSIZE)" using dnode_slot [OF d(1), of 0] file_addr_addrs [of ip "(dnode (t, L, q, c))\<lparr>isize := 0\<rparr>"] A l by simp
  moreover from this have "file_byte (img m) ip p = (if p < length c then c ! p else 0)" using d(1) p by (simp add: file_byte_def desc_ok_def)
  ultimately show "file_addr (img m) ip (p div BSIZE) \<noteq> 0 \<and> file_byte (img m) ip p = (if p < length c then c ! p else 0)" using nz by simp
qed

text \<open>
  \<open>mounted m s k n\<close>: the kernel runs on the image, and entry \<open>k\<close> of its inode cache is a fresh reference to inode \<open>n\<close>.
\<close>

definition mounted :: "mkst \<Rightarrow> 'z fsst_scheme \<Rightarrow> nat \<Rightarrow> nat \<Rightarrow> bool" where
  "mounted m s k n \<longleftrightarrow> txn 3 0 {} s \<and> view s = img m \<and> sb s = mk_sb \<and> disksize s = FSSIZE \<and> k < length (inodes s) \<and> \<not> slocked (sleeplocks s (SInode k)) \<and>
     idev (inodes s ! k) = 1 \<and> inum (inodes s ! k) = n \<and> 1 \<le> iref (inodes s ! k) \<and> \<not> ivalid (inodes s ! k)"

definition zero_pad :: "nat \<Rightarrow> byte list \<Rightarrow> byte list" where
  "zero_pad n c = map (\<lambda>p. if p < length c then c ! p else 0) [0..<n]"

lemma zero_pad_self [simp]: "zero_pad (length c) c = c"
  by (rule nth_equalityI) (simp_all add: zero_pad_def)

lemma kernel_reads:
  assumes m: "image_ok m D" and i: "i < length D" "D ! i = (t, L, q, c)" and s: "mounted m s k (Suc i)" and t: "t \<noteq> 0" "t \<noteq> T_DEV"
    and z: "z = isize (dino m (Suc i))" "z \<le> BSIZE * length L"
  shows "\<exists>s1 s2. ilock (Some k) s = Ret () s1 \<and> itype (inodes s1 ! k) = t \<and> nlink (inodes s1 ! k) = 1 \<and> isize (inodes s1 ! k) = z \<and>
    readi dv k 0 z s1 = Ret (int z, zero_pad z c) s2"
proof -
  note M = s [unfolded mounted_def]
  let ?jp = "get_dinode (view s (IBLOCK (inum (inodes s ! k)) (sb s))) (doff (inum (inodes s ! k))) (inodes s ! k)"
  have n: "Suc i < 208" using m i(1) by (simp add: image_ok_def)
  have dn: "dino m (Suc i) = (dnode (t, L, q, c))\<lparr>isize := z\<rparr>" using m i z(1) by (auto simp: image_ok_def)
  have "?jp = (inodes s ! k)\<lparr>itype := itype (dino m (Suc i)), major := major (dino m (Suc i)), minor := minor (dino m (Suc i)), nlink := nlink (dino m (Suc i)),
      isize := isize (dino m (Suc i)), addrs := addrs (dino m (Suc i))\<rparr>" using M by (simp add: dino_def get_dinode_def)
  then have jp: "itype ?jp = t" "nlink ?jp = 1" "isize ?jp = z" "addrs ?jp = addrs (dnode (t, L, q, c))" "idev ?jp = 1" unfolding dn using M by (simp_all add: dnode_def del: upt_rec_numeral)
  have tx: "txn (Suc 2) 0 {} s" using M by (simp add: numeral_3_eq_3)
  have ib: "IBLOCK (inum (inodes s ! k)) (sb s) < disksize s" using M IBLOCK_range [OF n] by (simp add: FSSIZE_def)
  from ilock_total [OF tx _ _ _ _ _ _ ib] M jp(1) t(1) obtain s1 where s1: "ilock (Some k) s = Ret () s1" "txn 3 0 {} s1" "view s1 = img m" "inodes s1 = (inodes s)[k := ?jp\<lparr>ivalid := True\<rparr>]" "sb s1 = mk_sb"
    "disksize s1 = FSSIZE" by auto
  let ?ip = "inodes s1 ! k"
  have ip: "?ip = ?jp\<lparr>ivalid := True\<rparr>" using s1(4) M by simp
  have A: "addrs ?ip = addrs (dnode (t, L, q, c))" unfolding ip using jp(4) by simp
  note f = image_file [OF m i A]
  have g: "fs_geom s1"
  proof -
    have "BBLOCK b mk_sb < FSSIZE" if "b < 40000" for b using that less_mult_imp_div_less [of b 10 4096] by (simp add: BBLOCK_def BPB_def BSIZE_def mk_sb_eq FSSIZE_def)
    then show ?thesis using s1(5,6) by (simp add: fs_geom_def mk_sb_eq FSSIZE_def)
  qed
  have iz: "isize ?ip = z" unfolding ip using jp(3) by simp
  have nh: "no_holes (view s1) ?ip" using f(2) z(2) s1(3) iz by (simp add: no_holes_def)
  have fo: "file_ok (sb s1) (view s1) ?ip" using f(1) s1(3,5) by simp
  have zl: "z < 2 ^ 32" using z(2) blk_descD(1) [OF _ i, of m] m by (simp add: image_ok_def desc_ok_def BSIZE_def fs_consts)
  have dv: "itype ?ip \<noteq> T_DEV" "idev ?ip = 1" unfolding ip using jp t(2) by simp_all
  from readi_total [OF s1(2) _ g refl dv(2) fo nh dv(1), of 0 z dv] obtain s2 where s2: "readi dv k 0 z s1 = Ret (int z, map (file_byte (img m) ?ip) [0..<z]) s2"
    using zl s1(3) iz by auto
  have "map (file_byte (img m) ?ip) [0..<z] = zero_pad z c" using f(2) z(2) by (simp add: zero_pad_def)
  then show ?thesis using s1(1) s2 ip jp iz by (intro exI [of _ s1] exI [of _ s2]) simp
qed

lemma image_types: "files_of D = image_files fs \<Longrightarrow> i < length fs \<Longrightarrow> \<exists>L q. Suc i < length D \<and> D ! Suc i = (T_FILE, L, q, file_data (snd (fs ! i)))"
proof -
  assume a: "files_of D = image_files fs" "i < length fs"
  have l: "length D = Suc (length fs)" using arg_cong [OF a(1), of length] by (simp add: files_of_def image_files_def)
  obtain t L q c where d: "D ! Suc i = (t, L, q, c)" by (cases "D ! Suc i")
  have "files_of D ! Suc i = (t, c)" using d l a(2) by (simp add: files_of_def)
  then have "t = T_FILE" "c = file_data (snd (fs ! i))" unfolding a(1) using a(2) by (simp_all add: image_files_def)
  then show ?thesis using d l a(2) by simp
qed

lemma image_root: "files_of D = image_files fs \<Longrightarrow> \<exists>L q. 0 < length D \<and> D ! 0 = (T_DIR, L, q, root_data fs)"
proof -
  assume a: "files_of D = image_files fs"
  have l: "length D = Suc (length fs)" using arg_cong [OF a, of length] by (simp add: files_of_def image_files_def)
  obtain t L q c where d: "D ! 0 = (t, L, q, c)" by (cases "D ! 0")
  have "files_of D ! 0 = (t, c)" using d l by (simp add: files_of_def)
  then have "t = T_DIR" "c = root_data fs" unfolding a by (simp_all add: image_files_def)
  then show ?thesis using d l by simp
qed

lemma length_root_data: "length (root_data fs) = 16 * (length fs + 2)"
  by (simp add: root_data_def length_entries)

lemma image_cost: "image_ok m D \<Longrightarrow> freeblock m = cost (files_of D)"
  unfolding image_ok_def using blk_cost by blast

lemma root_fits:
  assumes "n mod 512 \<noteq> 0"
  shows "root_size n = BSIZE * ((n + 511) div 512)"
proof -
  obtain a r where o: "n = 512 * a + r" "r < 512" and a: "n div 512 = a" "n mod 512 = r" by (metis mod_less_divisor mult_div_mod_eq zero_less_numeral)
  have "(n + 511) div 512 = Suc a" using o assms a by (intro div_nat_eqI) simp_all
  then show ?thesis by (simp add: root_size_def BSIZE_def a)
qed

text \<open>C3: The kernel reads back what \<open>mkfs\<close> has written. For host files without a slash in their names, none larger than the direct and one indirect block allow and all
  together within the first 4095 sectors, \<open>mkfs\<close> succeeds. The kernel finds the super block, and the free map marks exactly the blocks in use. When the kernel locks the inode of the \<open>i\<close>-th
  file and reads it, it gets the bytes of that file; from the root directory it gets the two entries for the directory itself, one for each file, and zeros, unless the
  entries fill their last block.\<close>

theorem mkfs_kernel_roundtrip:
  assumes "\<forall>f \<in> set fs. 47 \<notin> set (fst f) \<and> length (file_data (snd f)) \<le> (NDIRECT + NINDIRECT) * BSIZE" and "length fs + 1 < 208" and "cost (image_files fs) < 4096"
  shows "\<exists>m. mkfs fs = Inr m \<and> (\<forall>b. length (img m b) = BSIZE) \<and> get_sb (img m 1) = mk_sb \<and> (\<forall>b < FSSIZE. block_used mk_sb (img m) b = (b < cost (image_files fs))) \<and>
    (\<forall>i < length fs. \<forall>k s. mounted m s k (i + 2) \<longrightarrow> (let c = file_data (snd (fs ! i)) in
      \<exists>s1 s2. ilock (Some k) s = Ret () s1 \<and> itype (inodes s1 ! k) = T_FILE \<and> nlink (inodes s1 ! k) = 1 \<and> isize (inodes s1 ! k) = length c \<and>
        readi dv k 0 (length c) s1 = Ret (int (length c), c) s2)) \<and>
    ((length fs + 2) mod 32 \<noteq> 0 \<longrightarrow> (\<forall>k s. mounted m s k ROOTINO \<longrightarrow> (let z = root_size (16 * (length fs + 2)) in
      \<exists>s1 s2. ilock (Some k) s = Ret () s1 \<and> itype (inodes s1 ! k) = T_DIR \<and> isize (inodes s1 ! k) = z \<and> readi dv k 0 z s1 = Ret (int z, zero_pad z (root_data fs)) s2)))"
proof -
  have "\<exists>m D. mkfs fs = Inr m \<and> image_ok m D \<and> files_of D = image_files fs" using assms by (intro mkfs_total) (simp_all add: fs_consts BSIZE_def)
  then obtain m D where m: "mkfs fs = Inr m" "image_ok m D" "files_of D = image_files fs" by blast
  note M = m(2) [unfolded image_ok_def]
  have fl: "\<exists>s1 s2. ilock (Some k) s = Ret () s1 \<and> itype (inodes s1 ! k) = T_FILE \<and> nlink (inodes s1 ! k) = 1 \<and> isize (inodes s1 ! k) = length (file_data (snd (fs ! i))) \<and>
      readi dv k 0 (length (file_data (snd (fs ! i)))) s1 = Ret (int (length (file_data (snd (fs ! i)))), file_data (snd (fs ! i))) s2"
    if i: "i < length fs" and s: "mounted m s k (i + 2)" for i k and s :: "'a fsst_scheme"
  proof -
    from image_types [OF m(3) i] obtain L q where d: "Suc i < length D" "D ! Suc i = (T_FILE, L, q, file_data (snd (fs ! i)))" by blast
    have z: "length (file_data (snd (fs ! i))) = isize (dino m (Suc (Suc i)))" using M d by (simp add: isize_dnode)
    have "length (file_data (snd (fs ! i))) \<le> BSIZE * length L" using blk_descD(1) [OF _ d, of m] M by (simp add: desc_ok_def)
    from kernel_reads [OF m(2) d _ _ _ z this, of s k dv] s show ?thesis by (simp add: fs_consts)
  qed
  have root: "\<exists>s1 s2. ilock (Some k) s = Ret () s1 \<and> itype (inodes s1 ! k) = T_DIR \<and> isize (inodes s1 ! k) = root_size (16 * (length fs + 2)) \<and>
      readi dv k 0 (root_size (16 * (length fs + 2))) s1 = Ret (int (root_size (16 * (length fs + 2))), zero_pad (root_size (16 * (length fs + 2))) (root_data fs)) s2"
    if n: "(length fs + 2) mod 32 \<noteq> 0" and s: "mounted m s k ROOTINO" for k and s :: "'a fsst_scheme"
  proof -
    from image_root [OF m(3)] obtain L q where d: "0 < length D" "D ! 0 = (T_DIR, L, q, root_data fs)" by blast
    have z: "root_size (16 * (length fs + 2)) = isize (dino m (Suc 0))" using M d length_root_data [of fs] by (simp add: isize_dnode)
    have "desc_full (D ! 0)" using M d(1) nth_mem [OF d(1)] by blast
    then have L: "length L = (16 * (length fs + 2) + 511) div 512" using d(2) length_root_data [of fs] by (simp add: desc_full_def)
    have "16 * (length fs + 2) mod (16 * 32) \<noteq> 0" unfolding mult_mod_right [symmetric] using n by simp
    then have "root_size (16 * (length fs + 2)) \<le> BSIZE * length L" using root_fits [of "16 * (length fs + 2)"] L by simp
    from kernel_reads [OF m(2) d _ _ _ z this, of s k dv] s show ?thesis by (auto simp: fs_consts)
  qed
  show ?thesis using m(1) M image_cost [OF m(2)] m(3) fl root by (intro exI [of _ m]) (simp add: Let_def blk_ok_def)
qed

theorem mkfs_kernel_roundtrip_witness:
  "\<exists>m s1 s2. mkfs [([95, 97], [[104, 105]])] = Inr m \<and>
    ilock (Some 3) (imod 3 (\<lambda>_. inode0\<lparr>idev := 1, inum := 2, iref := 1\<rparr>) ((fsst0 (img m))\<lparr>sb := mk_sb\<rparr>)) = Ret () s1 \<and>
    readi (\<lambda>_. None) 3 0 2 s1 = Ret (2, [104, 105]) s2"
proof -
  let ?fs = "[([95, 97], [[104, 105]])] :: hostfile list"
  let ?s = "\<lambda>m. imod 3 (\<lambda>_. inode0\<lparr>idev := 1, inum := 2, iref := 1\<rparr>) ((fsst0 (img m))\<lparr>sb := mk_sb\<rparr>)"
  have d: "file_data [[104, 105]] = [104, 105]" by (simp add: file_data_def)
  have "cost (image_files ?fs) < 4096" by (simp add: cost_def image_files_def length_root_data d nb_def nmeta_eq)
  then obtain m where m: "mkfs ?fs = Inr m" "\<forall>b. length (img m b) = BSIZE" and r: "mounted m s 3 (Suc (Suc 0)) \<Longrightarrow> \<exists>s1 s2. ilock (Some 3) s = Ret () s1 \<and> readi (\<lambda>_. None) 3 0 (Suc (Suc 0)) s1 = Ret (2, [104, 105]) s2" for s :: fsst
    using mkfs_kernel_roundtrip [of ?fs "\<lambda>_. None"] by (simp add: d fs_consts BSIZE_def Let_def) blast
  have "txn 3 0 {} (fsst0 (img m))" by (rule txn_mono [OF txn_fsst0]) (use m(2) in \<open>simp_all add: NBUF_def LOGSIZE_def\<close>)
  moreover have "\<not> slocked (sleeplocks (fsst0 (img m)) (SInode 3))" by (simp add: fsst0_def lst_extend_sel lst0_def bst_extend_sel)
  ultimately have "mounted m (?s m) 3 2" by (simp add: mounted_def NINODE_def FSSIZE_def inode0_def)
  from r [OF this [unfolded numeral_2_eq_2]] m(1) show ?thesis unfolding numeral_2_eq_2 by blast
qed

text \<open>
  When the entries fill the last block of the root directory, the size that \<open>mkfs\<close> gives the directory covers one more block, which is not there.
\<close>

lemma root_directory_hole:
  assumes m: "image_ok m D" "files_of D = image_files fs" and n: "(length fs + 2) mod 32 = 0"
  shows "isize (dino m 1) = root_size (16 * (length fs + 2)) \<and> file_addr (img m) (dino m 1) ((isize (dino m 1) - 1) div BSIZE) = 0"
proof -
  note M = m(1) [unfolded image_ok_def]
  from image_root [OF m(2)] obtain L q where d: "0 < length D" "D ! 0 = (T_DIR, L, q, root_data fs)" by blast
  have z: "isize (dino m 1) = root_size (16 * (length fs + 2))" using M d length_root_data [of fs] by (simp add: isize_dnode)
  obtain a where a: "length fs + 2 = 32 * a" using n by (metis mult_div_mod_eq add.right_neutral)
  have "desc_full (D ! 0)" using M d(1) nth_mem [OF d(1)] by blast
  then have "length L = (16 * (length fs + 2) + 511) div 512" using d(2) length_root_data [of fs] by (simp add: desc_full_def)
  also have "\<dots> = a" unfolding a by simp
  finally have L: "length L = a" .
  have s: "root_size (16 * (length fs + 2)) = 512 * Suc a" unfolding a by (simp add: root_size_def BSIZE_def)
  have "dino m 1 = (dnode (T_DIR, L, q, root_data fs))\<lparr>isize := isize (dino m 1)\<rparr>" using M d by auto
  then have "file_addr (img m) (dino m 1) bn = (if bn < length L then L ! bn else 0)" for bn
    using dnode_slot [OF blk_descD(1) [OF _ d, of m]] M by metis
  moreover have "(512 * Suc a - 1) div BSIZE = a" unfolding BSIZE_def by (rule div_nat_eqI) simp_all
  ultimately show ?thesis using z s L by simp
qed

end
