(* ===== verification/Spec2Isabelle.thy ===== *)
theory Spec2Isabelle
  imports Trap Usertools Sh Projshell Mkfs
begin

text \<open>
  \<^bold>\<open>A verification of the xv6 kernel of this repository and of its programs.\<close>

  \<^bold>\<open>The program.\<close> \<^verbatim>\<open>src/xv6-public\<close> is the teaching kernel xv6 for the x86, with a stride and MLFQ share accounting, light-weight
  processes (LWPs), files with three levels of indirect blocks and a log that is written back on demand. Its parts form layers. Spin locks protect everything.
  The page allocator gives pages to the page tables, the pipes and the kernel stacks. Processes sleep and wake up on channels. The buffer cache holds copies of disk
  blocks; the log groups the changes of several blocks into a transaction; the file system keeps its free map, inodes and directories in blocks that it
  changes inside transactions. Open files and pipes sit on top, then the system calls, and the trap handler that dispatches them. The user library, the
  shell and a few tools run above the system calls, and \<open>mkfs\<close> builds the first disk image on the host. \<^verbatim>\<open>src/proj_shell\<close> is a small shell
  for the host system.

  \<^bold>\<open>How it is modelled.\<close> A kernel routine is a function from the kernel state to \<open>kres\<close> (theory \<open>Prelude\<close>): it returns a value and a state, panics with the
  message of the source, or blocks. \<open>Panic ''trap''\<close> stands for a fault of the processor, such as a null dereference or a division by zero. \<open>Block\<close> is the place where
  the source calls \<open>swtch\<close> or spins; what other processors and processes do meanwhile is not part of a routine. The state is one record that each
  layer extends: \<open>kst\<close> (locks and processor), \<open>mst\<close> (memory and free list), \<open>pst\<close> (process table), \<open>sst\<close> (sleep locks), \<open>bst\<close> (buffers and disk),
  \<open>lst\<close> (log), \<open>fsst\<close> (super block and inode cache), \<open>pipest\<close>, \<open>flst\<close> (open files), \<open>prst\<close> (process globals) and \<open>cst\<close> (console). Routines are polymorphic
  in the rest of the record, so that a theorem of a layer holds in every state above it. Memory is a function from 32-bit addresses to bytes. Machine integers
  whose overflow matters are words; block and inode numbers, which are bounded by the size of the disk, are natural numbers, packed to 32 and 16 bits where they are
  stored. Pointers into the tables of the kernel are indices.

  \<^bold>\<open>Theories and what they show.\<close>
  \<^item> \<open>Spinlock\<close> (spinlock.c): nested interrupt disabling is undone exactly; as a step relation between processors, the lock excludes.
  \<^item> \<open>Mem\<close> (string.c, x86.h): memory and string functions on overlapping, unaligned and padded ranges.
  \<^item> \<open>Kalloc\<close> (kalloc.c): the free list in memory; the contract of a page allocator is the locale \<open>page_allocator\<close>, interpreted on \<open>kalloc\<close> and \<open>kfree\<close>.
  \<^item> \<open>Sched\<close> (proc.c, scheduling): no wakeup is lost between \<open>sleep\<close> and \<open>wakeup\<close>; bounded waiting of the round robin loop; the admission control and the
    divisions of the share accounting, with two errors in it.
  \<^item> \<open>Vm\<close>, \<open>Pagetable\<close> (vm.c): \<open>mappages\<close> on two-level page tables in memory keeps them and the free list well formed and adds exactly the mappings asked for.
  \<^item> \<open>Sleeplock\<close> (sleeplock.c), \<open>Bio\<close> (bio.c, memide.c): the buffer cache is transparent and its doubly linked list implements move-to-front; the contract
    the upper layers use is the locale \<open>block_store\<close>.
  \<^item> \<open>Log\<close>, \<open>Txn\<close> (log.c): \<open>commit\<close> is atomic from an empty log under a crash at any block write, recovery refines the replay of a logged transaction, the header round trips;
    a crash in a second commit, and a thirtieth block, break the file system. \<open>Txn\<close> gives the budget under which block operations return.
  \<^item> \<open>Fs\<close>, \<open>Freemap\<close>, \<open>Inode\<close>, \<open>Filemap\<close>, \<open>Filedata\<close>, \<open>Icache\<close> (fs.c): path names, block allocation, inodes, the block map, reading and writing of
    files, and the reference counts of the inode cache. Each proves that the operation returns and what it does to the contents of the disk, \<open>view\<close>.
  \<^item> \<open>Words\<close>, \<open>Pipe\<close>, \<open>File\<close> (pipe.c, file.c): the pipe is a bounded queue, across the overflow of its counters; the ring buffer is the locale \<open>ring\<close>.
  \<^item> \<open>Proc\<close>, \<open>Syscall\<close>, \<open>Exec\<close>, \<open>Sysfile\<close>, \<open>Console\<close>, \<open>Trap\<close> (proc.c, syscall.c, sysproc.c, exec.c, sysfile.c, console.c, kbd.c, trap.c): every handler as
    a definition, composed as in the source up to \<open>trap\<close>; the check of user buffers is exact in 32-bit arithmetic, and number formatting round trips.
  \<^item> \<open>Ulib\<close>, \<open>Usertools\<close> (ulib.c, printf.c, grep.c, wc.c, cat.c): \<open>printf\<close> and \<open>atoi\<close> invert each other; the matcher of \<open>grep\<close> decides the language of the
    pattern, and \<open>grep\<close> and \<open>wc\<close> do not depend on how reads cut the input.
  \<^item> \<open>Sh\<close> (sh.c), \<open>Projshell\<close> (proj_shell/src/shell.c): the parser ends on every line and inverts printing; the course shell runs the commands of a line.
  \<^item> \<open>Mkfs\<close> (mkfs.c): the image built from host files is read back by \<open>ilock\<close> and \<open>readi\<close> of the kernel.

  \<^bold>\<open>Bounds and fuel.\<close> Loops of the source are recursions with termination proofs. The only fuel is that of the mutually recursive parser in \<open>Sh\<close>:
  \<open>parsecmd\<close> starts with four units for each character of the line and four more, and \<open>parsecmd_terminates\<close> shows that it never runs out. The
  numbers in \<open>txn k m H s\<close> are not fuel but the free buffers and log entries an operation needs; the witnesses start from a cache of \<open>NBUF\<close> buffers and a log of \<open>LOGSIZE\<close> entries.
  The theorem on \<open>mkfs\<close> is bounded by what the program asserts: 4095 blocks in use and 138 blocks for a file.

  \<^bold>\<open>Not modelled.\<close>
  \<^item> Start-up, interrupt controllers, serial port set-up and the IDE driver (main.c, bootmain.c, mp.c, lapic.c, ioapic.c, picirq.c, uart.c, ide.c): they read and write device registers
    whose effect only the hardware defines. The disk is the memory disk of memide.c.
  \<^item> Assembly (entry.S, swtch.S, trapasm.S, usys.S and the boot loader).
  \<^item> Interleaving inside kernel routines on several processors: the routines are atomic between blocking points, which is what their locks provide.
  \<^item> \<open>procdump\<close>, the caller trace of \<open>panic\<close>, and messages that only go to the console.
  \<^item> The allocator umalloc.c, which lives in user memory, the programs that only pass their arguments to a system call (init.c, ls.c, kill.c, ln.c, mkdir.c, rm.c, echo.c), and the test
    programs (usertests.c and others), which have no specification of their own.
\<close>

end
